(* ===== verification/Prelude.thy ===== *)
theory Prelude
  imports Main "HOL-Library.Word"
begin

text \<open>
  The shared vocabulary of the development: machine integer types, the ways a C statement of
  the kernel can fail to return (\<open>c_error\<close>), the result type of every fallible operation and its
  sequencing, and the generic facts on words, lists and bump allocators the components share.
\<close>

unbundle bit_operations_syntax

named_theorems word_range \<open>bounds of machine words as naturals\<close>

type_synonym u8 = "8 word"
type_synonym u16 = "16 word"
type_synonym u32 = "32 word"
type_synonym u64 = "64 word"

subsection \<open>Failures as values\<close>

text \<open>
  How an operation can fail to return normally: a shift by at least the width of \<open>int\<close>, a load or
  store through \<open>NULL\<close>, an access to an unmapped page, an index outside a C array, a read of an
  uninitialised local, the \<open>PANIC\<close> macro (it prints and spins), a loop or recursion that never
  returns, and an exhausted step budget of the model.
\<close>

datatype c_error =
    Undefined_Shift
  | Null_Deref
  | Page_Fault
  | Out_Of_Bounds
  | Uninitialised
  | Panic
  | Hang
  | Out_Of_Fuel

type_synonym 'a result = "c_error + 'a"

definition bindE :: "'a result \<Rightarrow> ('a \<Rightarrow> 'b result) \<Rightarrow> 'b result" where
  "bindE m f = (case m of Inl e \<Rightarrow> Inl e | Inr x \<Rightarrow> f x)"

lemma bindE_simps [simp]:
  "bindE (Inl e) f = Inl e"
  "bindE (Inr x) f = f x"
  by (simp_all add: bindE_def)

lemma bindE_eq_Inr: "bindE m f = Inr y \<longleftrightarrow> (\<exists>x. m = Inr x \<and> f x = Inr y)"
  by (cases m) simp_all

lemma bindE_cong [fundef_cong]:
  "m = m' \<Longrightarrow> (\<And>x. m' = Inr x \<Longrightarrow> f x = f' x) \<Longrightarrow> bindE m f = bindE m' f'"
  by (cases m') simp_all

lemma bindE_assoc: "bindE (bindE m f) g = bindE m (\<lambda>x. bindE (f x) g)"
  by (cases m) simp_all

definition mapE :: "('a \<Rightarrow> 'b) \<Rightarrow> 'a result \<Rightarrow> 'b result" where
  "mapE f m = bindE m (\<lambda>x. Inr (f x))"

lemma mapE_simps [simp]:
  "mapE f (Inl e) = Inl e"
  "mapE f (Inr x) = Inr (f x)"
  "mapE f (bindE m g) = bindE m (\<lambda>x. mapE f (g x))"
  "bindE (mapE f m') k = bindE m' (\<lambda>x. k (f x))"
  by (simp_all add: mapE_def bindE_assoc)

lemma mapE_eq_Inr: "mapE f m = Inr y \<longleftrightarrow> (\<exists>x. m = Inr x \<and> y = f x)"
  by (auto simp: mapE_def bindE_eq_Inr)

text \<open>
  \<open>res_le r r'\<close>: whenever \<open>r\<close> is a value, \<open>r'\<close> is the same value. Step budgets are monotone
  in this order, and the rules below lift it through the control structure of the operations.
\<close>

named_theorems res_mono \<open>monotonicity of control structures in res_le\<close>

definition res_le :: "'a result \<Rightarrow> 'a result \<Rightarrow> bool" where
  "res_le r r' \<longleftrightarrow> (\<forall>x. r = Inr x \<longrightarrow> r' = Inr x)"

lemma res_leD: "res_le r r' \<Longrightarrow> r = Inr x \<Longrightarrow> r' = Inr x"
  by (simp add: res_le_def)

lemma res_le_refl [res_mono]: "res_le r r"
  by (simp add: res_le_def)

lemma res_le_Inl [simp]: "res_le (Inl e) r"
  by (simp add: res_le_def)

lemma res_le_bind [res_mono]:
  "res_le m m' \<Longrightarrow> (\<And>x. res_le (f x) (f' x)) \<Longrightarrow> res_le (bindE m f) (bindE m' f')"
  by (auto simp: res_le_def bindE_eq_Inr)

lemma res_le_if [res_mono]:
  "(c \<Longrightarrow> res_le a a') \<Longrightarrow> (\<not> c \<Longrightarrow> res_le b b') \<Longrightarrow> res_le (if c then a else b) (if c then a' else b')"
  by simp

lemma res_le_prod [res_mono]:
  "(\<And>a b. res_le (f a b) (f' a b)) \<Longrightarrow> res_le (case p of (a, b) \<Rightarrow> f a b) (case p of (a, b) \<Rightarrow> f' a b)"
  by (cases p) simp

lemma res_le_option [res_mono]:
  "res_le a a' \<Longrightarrow> (\<And>x. res_le (f x) (f' x)) \<Longrightarrow>
     res_le (case v of None \<Rightarrow> a | Some x \<Rightarrow> f x) (case v of None \<Rightarrow> a' | Some x \<Rightarrow> f' x)"
  by (cases v) simp_all

lemma res_le_Let [res_mono]: "(\<And>x. res_le (f x) (f' x)) \<Longrightarrow> res_le (Let v f) (Let v f')"
  by (simp add: Let_def)

text \<open>A loop over a list of values.\<close>

fun for_each :: "('a \<Rightarrow> 's \<Rightarrow> 's result) \<Rightarrow> 'a list \<Rightarrow> 's \<Rightarrow> 's result" where
  "for_each f [] s = Inr s"
| "for_each f (x # xs) s = bindE (f x s) (for_each f xs)"

subsection \<open>The C expression 1 << x\<close>

text \<open>
  In \<open>1 << x\<close> the left operand has type \<open>int\<close>, so the shift is done on 32 bits and the result is
  sign-extended when it meets a \<open>uint64_t\<close>. A count of 32 or more is undefined; for a count of 31
  clang, the compiler of the makefile, gives \<open>INT_MIN\<close>.
\<close>

definition int_bit :: "nat \<Rightarrow> u64 result" where
  "int_bit x = (if x < 32 then Inr (signed (push_bit x (1 :: u32))) else Inl Undefined_Shift)"

lemma bit_signed_push_bit:
  "x < 32 \<Longrightarrow> k < 64 \<Longrightarrow>
     bit (signed (push_bit x (1 :: u32)) :: u64) k \<longleftrightarrow> (k = x \<or> (x = 31 \<and> 31 \<le> k))"
  by (auto simp: bit_signed_iff bit_push_bit_iff min_def bit_1_iff bit_exp_iff)

lemma unat_ucast_up [simp]:
  "LENGTH('a::len) \<le> LENGTH('b::len) \<Longrightarrow> unat (ucast (w :: 'a word) :: 'b word) = unat w"
proof -
  assume "LENGTH('a) \<le> LENGTH('b)"
  then have "(2 :: nat) ^ LENGTH('a) \<le> 2 ^ LENGTH('b)" by (simp add: power_increasing)
  then have "unat w < 2 ^ LENGTH('b)" using unsigned_less [of w] by (rule less_le_trans [rotated])
  then show ?thesis by (simp add: unsigned_ucast_eq take_bit_nat_eq_self)
qed

lemma unat_of_nat_small: "n < 2 ^ LENGTH('a::len) \<Longrightarrow> unat (of_nat n :: 'a word) = n"
  by (simp add: unat_of_nat)

lemma unat_plus_of_nat: "unat (a :: 'a::len word) + k < 2 ^ LENGTH('a) \<Longrightarrow> unat (a + of_nat k) = unat a + k"
  by (simp add: unat_word_ariths unat_of_nat)

lemma unat_outside:
  "unat dst + n \<le> 2 ^ 64 \<Longrightarrow> unat a < unat dst \<or> unat dst + n \<le> unat a \<Longrightarrow> n \<le> unat (a - dst)" for a dst :: "64 word"
  using unsigned_less [of a, where 'a = nat] by (auto simp: unat_sub_if_size word_size)

lemma ucast_of_nat_down:
  "LENGTH('b::len) \<le> LENGTH('a::len) \<Longrightarrow> ucast (of_nat n :: 'a word) = (of_nat n :: 'b word)"
  by (rule bit_word_eqI) (auto simp: bit_simps)

lemma ucast_as_of_nat: "ucast w = of_nat (unat w)"
  by simp

lemma length_takeWhile_mem [simp]: "length (takeWhile (\<lambda>t. t \<noteq> x) xs) < length xs \<longleftrightarrow> x \<in> set xs"
  by (induction xs) auto

subsection \<open>Allocators of distinct names\<close>

text \<open>
  The kernel has several allocators that hand out names one at a time: physical frames, stack
  slots, MMIO windows. \<open>alloc_many\<close> is a run of \<open>n\<close> calls, and the locale states what one
  call promises: while there is room the call returns a name not in use and marks it.
\<close>

fun alloc_many :: "('s \<Rightarrow> ('a \<times> 's) result) \<Rightarrow> nat \<Rightarrow> 's \<Rightarrow> ('a list \<times> 's) result" where
  "alloc_many alloc 0 s = Inr ([], s)"
| "alloc_many alloc (Suc n) s =
     bindE (alloc s) (\<lambda>(a, s').
     bindE (alloc_many alloc n s') (\<lambda>(xs, s''). Inr (a # xs, s'')))"

locale fresh_allocator =
  fixes alloc :: "'s \<Rightarrow> ('a \<times> 's) result"
    and used :: "'s \<Rightarrow> 'a set"
    and room :: "'s \<Rightarrow> nat"
    and invar :: "'s \<Rightarrow> bool"
  assumes alloc_fresh: "invar s \<Longrightarrow> 0 < room s \<Longrightarrow>
    \<exists>a s'. alloc s = Inr (a, s') \<and> a \<notin> used s \<and> used s' = insert a (used s) \<and>
           room s' = room s - 1 \<and> invar s'"
begin

lemma alloc_many_distinct:
  "invar s \<Longrightarrow> n \<le> room s \<Longrightarrow>
     \<exists>xs s'. alloc_many alloc n s = Inr (xs, s') \<and> length xs = n \<and> distinct xs \<and>
            set xs \<inter> used s = {} \<and> used s' = used s \<union> set xs \<and> room s' = room s - n \<and> invar s'"
proof (induction n arbitrary: s)
  case 0
  then show ?case by simp
next
  case (Suc n)
  then obtain a s1 where 1: "alloc s = Inr (a, s1)" "a \<notin> used s" "used s1 = insert a (used s)"
      "room s1 = room s - 1" "invar s1"
    using alloc_fresh [of s] by auto
  with Suc.prems have "n \<le> room s1" by simp
  from Suc.IH [OF \<open>invar s1\<close> this] obtain xs s2 where "alloc_many alloc n s1 = Inr (xs, s2)" "length xs = n"
      "distinct xs" "set xs \<inter> used s1 = {}" "used s2 = used s1 \<union> set xs" "room s2 = room s1 - n"
      "invar s2"
    by blast
  with 1 show ?case by auto
qed

end


text \<open>
  A heap of objects, as its clients see it: a call either fails or returns a pointer that is
  neither \<open>NULL\<close> nor the address of a live object. This is a partial contract, so it also covers
  heaps that run out of memory.
\<close>

locale object_heap =
  fixes alloc :: "'s \<Rightarrow> (u64 \<times> 's) result"
    and live :: "'s \<Rightarrow> u64 set"
    and invar :: "'s \<Rightarrow> bool"
  assumes alloc_new: "invar s \<Longrightarrow> alloc s = Inr (p, s') \<Longrightarrow>
    p \<notin> live s \<and> p \<noteq> 0 \<and> live s' = insert p (live s) \<and> invar s'"
begin

lemma alloc_many_objects:
  "invar s \<Longrightarrow> alloc_many alloc n s = Inr (xs, s') \<Longrightarrow>
     distinct xs \<and> length xs = n \<and> 0 \<notin> set xs \<and> set xs \<inter> live s = {} \<and> live s' = live s \<union> set xs \<and> invar s'"
proof (induction n arbitrary: s xs)
  case (Suc n)
  then obtain p s1 ys where 1: "alloc s = Inr (p, s1)" "alloc_many alloc n s1 = Inr (ys, s')" "xs = p # ys"
    by (auto simp: bindE_eq_Inr)
  from alloc_new [OF Suc.prems(1) 1(1)] Suc.IH [OF _ 1(2)] 1(3) show ?case by auto
qed simp

end

subsection \<open>Round robin\<close>

text \<open>
  A machine that moves around a ring of \<open>len\<close> places, one place per step. A step is given the value in force when it happens and returns the one in force
  afterwards; \<open>run_steps\<close> is a run of steps.
\<close>

fun run_steps :: "('c \<Rightarrow> 's \<Rightarrow> ('c \<times> 's) result) \<Rightarrow> 'c \<Rightarrow> 'c list \<Rightarrow> 's \<Rightarrow> ('c \<times> 's) result" where
  "run_steps step c0 [] s = Inr (c0, s)"
| "run_steps step c0 (c # cs) s = bindE (step c s) (\<lambda>(c', s'). run_steps step c' cs s')"

locale ring_stepper =
  fixes step :: "'c \<Rightarrow> 's \<Rightarrow> ('c \<times> 's) result"
    and place :: "nat \<Rightarrow> 's \<Rightarrow> bool"
    and len :: nat
  assumes place_less: "place i s \<Longrightarrow> i < len"
    and step_place: "place i s \<Longrightarrow> \<exists>c' s'. step c s = Inr (c', s') \<and> place (Suc i mod len) s'"
begin

lemma run_place: "place i s \<Longrightarrow> \<exists>c' s'. run_steps step c0 cs s = Inr (c', s') \<and> place ((i + length cs) mod len) s'"
proof (induction cs arbitrary: i c0 s)
  case Nil
  then show ?case using place_less by simp
next
  case (Cons c cs)
  obtain c1 s1 where "step c s = Inr (c1, s1)" "place (Suc i mod len) s1" using step_place [OF Cons.prems] by blast
  then show ?case using Cons.IH [of "Suc i mod len" s1 c1] by (simp add: mod_add_left_eq)
qed

lemma reaches_every_place:
  assumes "place i s" and "j < len"
  shows "\<exists>m. 0 < m \<and> m \<le> len \<and> (\<forall>cs. length cs = m \<longrightarrow> (\<exists>c' s'. run_steps step c0 cs s = Inr (c', s') \<and> place j s'))"
proof -
  define m where "m = (if i < j then j - i else len - i + j)"
  have "0 < m" "m \<le> len" "(i + m) mod len = j" using place_less [OF assms(1)] assms(2) by (auto simp: m_def)
  then show ?thesis using run_place [OF assms(1)] by (intro exI [of _ m]) fastforce
qed

end

text \<open>Every place saves a value: a step saves the value it is given at the place it leaves, and returns the one saved at the place it enters.\<close>

locale round_robin = ring_stepper +
  fixes saved :: "'s \<Rightarrow> nat \<Rightarrow> 'c option"
  assumes step_saved: "place i s \<Longrightarrow> step c s = Inr (c', s') \<Longrightarrow> j < len \<Longrightarrow> saved s' j = (if j = i then Some c else saved s j)"
    and step_loaded: "place i s \<Longrightarrow> step c s = Inr (c', s') \<Longrightarrow> saved s' (Suc i mod len) = Some c'"
begin

lemma run_saved:
  "place i s \<Longrightarrow> \<forall>m < length cs. (i + m) mod len \<noteq> j \<Longrightarrow> j < len \<Longrightarrow> run_steps step c0 cs s = Inr (c', s') \<Longrightarrow> saved s' j = saved s j"
proof (induction cs arbitrary: i c0 s)
  case (Cons c cs)
  obtain c1 s1 where 1: "step c s = Inr (c1, s1)" "place (Suc i mod len) s1" using step_place [OF Cons.prems(1)] by blast
  have "i \<noteq> j" using Cons.prems(2) place_less [OF Cons.prems(1)] by (auto dest: spec [of _ 0])
  moreover have "\<forall>m < length cs. (Suc i mod len + m) mod len \<noteq> j"
    using Cons.prems(2) by (auto simp: mod_add_left_eq dest: spec [of _ "Suc _"])
  ultimately show ?case
    using Cons.IH [OF 1(2), of c1] Cons.prems(3,4) 1(1) step_saved [OF Cons.prems(1) 1(1) Cons.prems(3)] by simp
qed simp

lemma run_loaded:
  "place i s \<Longrightarrow> saved s i = Some c0 \<or> cs \<noteq> [] \<Longrightarrow> run_steps step c0 cs s = Inr (c', s') \<Longrightarrow> saved s' ((i + length cs) mod len) = Some c'"
proof (induction cs arbitrary: i c0 s)
  case Nil
  then show ?case using place_less by simp
next
  case (Cons c cs)
  obtain c1 s1 where 1: "step c s = Inr (c1, s1)" "place (Suc i mod len) s1" using step_place [OF Cons.prems(1)] by blast
  with Cons.IH [OF 1(2), of c1] Cons.prems(3) step_loaded [OF Cons.prems(1) 1(1)] show ?case by (simp add: mod_add_left_eq)
qed

text \<open>A value saved at a place is in force when the place is reached for the first time.\<close>

lemma run_returns:
  assumes "place i s" and "saved s j = Some c" and "saved s i = Some c0 \<or> cs \<noteq> []" and "\<forall>m < length cs. (i + m) mod len \<noteq> j"
    and "(i + length cs) mod len = j"
  shows "\<exists>s'. run_steps step c0 cs s = Inr (c, s') \<and> place j s'"
proof -
  obtain c' s' where r: "run_steps step c0 cs s = Inr (c', s')" "place j s'" using run_place [OF assms(1)] assms(5) by blast
  then have "saved s' j = Some c" using run_saved [OF assms(1,4) place_less] assms(2) by simp
  moreover have "saved s' j = Some c'" using run_loaded [OF assms(1,3) r(1)] assms(5) by simp
  ultimately show ?thesis using r by simp
qed

text \<open>After one round the value saved first is in force again.\<close>

lemma round_restores:
  assumes "place i s" and "Suc (length cs) = len"
  shows "\<exists>s'. run_steps step c0 (c # cs) s = Inr (c, s') \<and> place i s'"
proof -
  have i: "i < len" by (rule place_less [OF assms(1)])
  obtain c1 s1 where 1: "step c s = Inr (c1, s1)" "place (Suc i mod len) s1" using step_place [OF assms(1)] by blast
  have same: "(Suc i mod len + length cs) mod len = i" using i assms(2) by (metis add_Suc_shift mod_add_left_eq mod_add_self2 mod_less)
  have "\<forall>m < length cs. (Suc i mod len + m) mod len \<noteq> i"
    using assms(2) i by (auto simp: mod_add_left_eq mod_if [of "Suc (i + _)"])
  from run_returns [OF 1(2) _ _ this same, of c c1] step_saved [OF assms(1) 1(1) i] step_loaded [OF assms(1) 1(1)] 1(1)
  show ?thesis by simp
qed

end

end
