(* ===== verification/Libtitan.thy ===== *)
theory Libtitan
  imports Prelude
begin

text \<open>
  The freestanding C library of the kernel: the alignment macros of include/libtitan.h, the
  memory routines of kernel/libtitan/mem.c and the string routines of kernel/libtitan/str.c, over
  a byte-addressed memory. Each loop of the source is a recursive function; the lemmas give the
  closed form of each and the cases in which it agrees with the C library function of its name.
\<close>

section \<open>Byte memory\<close>

type_synonym mem = "u64 \<Rightarrow> u8"

definition load16 :: "mem \<Rightarrow> u64 \<Rightarrow> u16" where
  "load16 m a = ucast (m a) OR push_bit 8 (ucast (m (a + 1)))"

definition load32 :: "mem \<Rightarrow> u64 \<Rightarrow> u32" where
  "load32 m a = ucast (load16 m a) OR push_bit 16 (ucast (load16 m (a + 2)))"

definition load64 :: "mem \<Rightarrow> u64 \<Rightarrow> u64" where
  "load64 m a = ucast (load32 m a) OR push_bit 32 (ucast (load32 m (a + 4)))"

definition store16 :: "mem \<Rightarrow> u64 \<Rightarrow> u16 \<Rightarrow> mem" where
  "store16 m a w = m(a := ucast w, a + 1 := ucast (drop_bit 8 w))"

definition store32 :: "mem \<Rightarrow> u64 \<Rightarrow> u32 \<Rightarrow> mem" where
  "store32 m a w = store16 (store16 m a (ucast w)) (a + 2) (ucast (drop_bit 16 w))"

definition store64 :: "mem \<Rightarrow> u64 \<Rightarrow> u64 \<Rightarrow> mem" where
  "store64 m a w = store32 (store32 m a (ucast w)) (a + 4) (ucast (drop_bit 32 w))"

fun bytes_at :: "u64 \<Rightarrow> u8 list \<Rightarrow> mem \<Rightarrow> mem" where
  "bytes_at a [] m = m"
| "bytes_at a (x # xs) m = (bytes_at (a + 1) xs m)(a := x)"

lemma load16_store16: "load16 (store16 m a w) a = w"
  by (rule bit_word_eqI)
     (auto simp: load16_def store16_def bit_simps)

lemma store16_other: "b \<noteq> a \<Longrightarrow> b \<noteq> a + 1 \<Longrightarrow> store16 m a w b = m b"
  by (simp add: store16_def)

lemma load32_store32: "load32 (store32 m a w) a = w"
proof -
  have "load16 (store32 m a w) a = ucast w"
    using load16_store16 [of m a "ucast w"]
    by (simp add: store32_def load16_def store16_other)
  moreover have "load16 (store32 m a w) (a + 2) = ucast (drop_bit 16 w)"
    by (simp add: store32_def load16_store16)
  ultimately show ?thesis
    by (intro bit_word_eqI) (auto simp: load32_def bit_simps)
qed

lemma store32_other: "4 \<le> unat (b - a) \<Longrightarrow> store32 m a w b = m b"
proof -
  assume far: "4 \<le> unat (b - a)"
  have "b \<noteq> a + of_nat k" if "k < 4" for k
    using far that by (auto simp: unat_of_nat_small)
  from this [of 0] this [of 1] this [of 2] this [of 3] show ?thesis
    by (simp add: store32_def store16_other add.assoc)
qed

lemma store64_other: "8 \<le> unat (b - a) \<Longrightarrow> store64 m a w b = m b"
proof -
  assume far: "8 \<le> unat (b - a)"
  then have "unat (b - (a + 4)) = unat (b - a) - 4"
    by (simp add: diff_diff_add [symmetric] unat_sub_if_size)
  with far show ?thesis by (simp add: store64_def store32_other)
qed

lemma load32_cong:
  "(\<And>k. k < 4 \<Longrightarrow> m (a + of_nat k) = m' (a + of_nat k)) \<Longrightarrow> load32 m a = load32 m' a"
proof -
  assume eq: "\<And>k. k < 4 \<Longrightarrow> m (a + of_nat k) = m' (a + of_nat k)"
  from eq [of 0] eq [of 1] eq [of 2] eq [of 3] show ?thesis
    by (simp add: load32_def load16_def add.assoc)
qed

lemma load16_shift: "(\<And>k. k < 2 \<Longrightarrow> m (a + of_nat k) = m' (a' + of_nat k)) \<Longrightarrow> load16 m a = load16 m' a'"
proof -
  assume eq: "\<And>k. k < 2 \<Longrightarrow> m (a + of_nat k) = m' (a' + of_nat k)"
  from eq [of 0] eq [of 1] show ?thesis by (simp add: load16_def)
qed

lemma load32_shift:
  assumes "\<And>k. k < 4 \<Longrightarrow> m (a + of_nat k) = m' (a' + of_nat k)"
  shows "load32 m a = load32 m' a'"
proof -
  have "load16 m a = load16 m' a'" by (rule load16_shift) (simp add: assms)
  moreover have "load16 m (a + 2) = load16 m' (a' + 2)"
    by (rule load16_shift) (use assms [of "2 + _"] in \<open>simp add: algebra_simps\<close>)
  ultimately show ?thesis by (simp add: load32_def)
qed

lemma load64_shift:
  assumes "\<And>k. k < 8 \<Longrightarrow> m (a + of_nat k) = m' (a' + of_nat k)"
  shows "load64 m a = load64 m' a'"
proof -
  have "load32 m a = load32 m' a'" by (rule load32_shift) (simp add: assms)
  moreover have "load32 m (a + 4) = load32 m' (a' + 4)"
    by (rule load32_shift) (use assms [of "4 + _"] in \<open>simp add: algebra_simps\<close>)
  ultimately show ?thesis by (simp add: load64_def)
qed

lemma unat_uminus: "0 < unat x \<Longrightarrow> unat (- x :: u64) = 2 ^ 64 - unat x"
  using unat_sub_if_size [of 0 x] by (simp add: word_size)

lemma load64_store64: "load64 (store64 m a w) a = w"
proof -
  have "load32 (store64 m a w) a = ucast w"
  proof -
    have "4 \<le> unat (of_nat k - 4 :: u64)" if "k < 4" for k
      using that by (simp add: unat_sub_if_size word_size unat_of_nat_small)
    then have "load32 (store64 m a w) a = load32 (store32 m a (ucast w)) a"
      unfolding store64_def by (intro load32_cong store32_other) (simp add: algebra_simps)
    then show ?thesis by (simp add: load32_store32)
  qed
  moreover have "load32 (store64 m a w) (a + 4) = ucast (drop_bit 32 w)"
    by (simp add: store64_def load32_store32)
  ultimately show ?thesis
    by (intro bit_word_eqI) (auto simp: load64_def bit_simps)
qed

lemma load64_cong: "(\<And>k. k < 8 \<Longrightarrow> m (a + of_nat k) = m' (a + of_nat k)) \<Longrightarrow> load64 m a = load64 m' a"
  by (rule load64_shift)

lemma load64_store64_other:
  assumes "8 \<le> unat (b - a)" and "8 \<le> unat (a - b)"
  shows "load64 (store64 m a w) b = load64 m b"
proof (rule load64_cong)
  fix k :: nat
  assume k: "k < 8"
  have "unat (b - a) + k < 2 ^ 64" using assms k by (auto simp: unat_sub_if_size word_size split: if_splits)
  then have "unat (b - a + of_nat k) = unat (b - a) + k" by (intro unat_plus_of_nat) simp
  then show "store64 m a w (b + of_nat k) = m (b + of_nat k)" using assms(1) by (intro store64_other) (simp add: algebra_simps)
qed

text \<open>Words one behind the other.\<close>

fun words_at :: "u64 \<Rightarrow> u64 list \<Rightarrow> mem \<Rightarrow> mem" where
  "words_at a [] m = m"
| "words_at a (w # ws) m = store64 (words_at (a + 8) ws m) a w"

lemma words_at_append: "words_at a (us @ ws) m = words_at a us (words_at (a + of_nat (8 * length us)) ws m)"
  by (induction us arbitrary: a) (simp_all add: algebra_simps)

lemma words_at_other: "8 * length ws \<le> unat (b - a) \<Longrightarrow> words_at a ws m b = m b"
proof (induction ws arbitrary: a)
  case (Cons w ws)
  then have "unat (b - (a + 8)) = unat (b - a) - 8" by (simp add: diff_diff_add [symmetric] unat_sub_if_size)
  with Cons show ?case by (simp add: store64_other)
qed simp

lemma unat_word_offset: "8 * k < 2 ^ 64 \<Longrightarrow> unat (of_nat (8 * k) :: u64) = 8 * k"
  by (rule unat_of_nat_small) simp

lemma load64_words_at: "i < length ws \<Longrightarrow> 8 * length ws < 2 ^ 64 \<Longrightarrow> load64 (words_at a ws m) (a + of_nat (8 * i)) = ws ! i"
proof (induction ws arbitrary: a i)
  case (Cons w ws)
  show ?case
  proof (cases i)
    case 0
    then show ?thesis by (simp add: load64_store64)
  next
    case (Suc j)
    have u: "unat (of_nat (8 * i) :: u64) = 8 * i" using Cons.prems by (intro unat_word_offset) simp
    have "load64 (words_at a (w # ws) m) (a + of_nat (8 * i)) = load64 (words_at (a + 8) ws m) (a + of_nat (8 * i))"
    proof -
      have "unat (- of_nat (8 * i) :: u64) = 2 ^ 64 - 8 * i" using u Suc by (subst unat_uminus) auto
      then show ?thesis unfolding words_at.simps using u Suc Cons.prems by (intro load64_store64_other) simp_all
    qed
    also have "a + of_nat (8 * i) = (a + 8) + of_nat (8 * j)" using Suc by (simp add: algebra_simps)
    finally show ?thesis using Cons.IH [of j "a + 8"] Cons.prems Suc by (simp add: add.assoc)
  qed
qed simp

section \<open>include/libtitan.h\<close>

definition ALIGN_UP :: "u64 \<Rightarrow> u64 \<Rightarrow> u64" where
  "ALIGN_UP x a = (x + (a - 1)) AND NOT (a - 1)"

definition PAGE_ALIGN :: "u64 \<Rightarrow> u64" where
  "PAGE_ALIGN n = ((n + 0xfff) div 0x1000) * 0x1000"

definition PAGE_ALIGN_DOWN :: "u64 \<Rightarrow> u64" where
  "PAGE_ALIGN_DOWN n = n AND 0xfffffffffffff000"

definition CALC_VIRT_ADDRESS :: "u64 \<Rightarrow> u64 \<Rightarrow> u64" where
  "CALC_VIRT_ADDRESS p v = PAGE_ALIGN_DOWN v + (p AND 0xfff)"

definition PAGE_SIZE :: u64 where
  "PAGE_SIZE = 0x1000"

lemma unat_PAGE_ALIGN:
  assumes "unat n + 0xfff < 2 ^ 64"
  shows "unat (PAGE_ALIGN n) = (unat n + 0xfff) div 0x1000 * 0x1000"
proof -
  have "unat (n + 0xfff) = unat n + 0xfff"
    using assms by (simp add: unat_word_ariths)
  moreover have "(unat n + 0xfff) div 0x1000 * 0x1000 < 2 ^ 64"
    using assms by (meson div_times_less_eq_dividend le_less_trans)
  ultimately show ?thesis
    by (simp add: PAGE_ALIGN_def unat_word_ariths unat_div_distrib)
qed

lemma PAGE_ALIGN_least:
  assumes "unat n + 0xfff < 2 ^ 64"
  shows "unat n \<le> unat (PAGE_ALIGN n)" and "unat (PAGE_ALIGN n) < unat n + 0x1000"
    and "0x1000 dvd unat (PAGE_ALIGN n)"
  using unat_PAGE_ALIGN [OF assms] by simp_all

lemma page_mask: "(0xfffffffffffff000 :: u64) = NOT (mask 12)"
  by (simp add: mask_numeral)

lemma unat_PAGE_ALIGN_DOWN: "unat (PAGE_ALIGN_DOWN n) = unat n div 0x1000 * 0x1000"
proof -
  have "PAGE_ALIGN_DOWN n = push_bit 12 (drop_bit 12 n)"
    by (rule bit_word_eqI) (auto simp: PAGE_ALIGN_DOWN_def page_mask bit_simps simp del: mask_numeral)
  moreover have "unat (push_bit 12 (drop_bit 12 n)) = unat n div 0x1000 * 0x1000"
  proof -
    have d: "unat (drop_bit 12 n) = unat n div 0x1000"
      by (simp add: drop_bit_eq_div unat_div_distrib)
    then have "unat (drop_bit 12 n) * unat (0x1000 :: u64) < 2 ^ LENGTH(64)"
      using unsigned_less [of n, where 'a = nat] by simp
    then have "unat (drop_bit 12 n * 0x1000) = unat (drop_bit 12 n) * 0x1000"
      by (simp only: unat_mult_lem) simp
    with d show ?thesis by (simp add: push_bit_eq_mult)
  qed
  ultimately show ?thesis by simp
qed

text \<open>The text buffer, of include/vmm.h: the bitmap of frames lies behind it and the console writes to it.\<close>

definition VGA_TEXT_BUFFER_BASE :: u64 where
  "VGA_TEXT_BUFFER_BASE = 0xffffff80000c0000"

section \<open>kernel/libtitan/mem.c\<close>

text \<open>\<open>rep movsb\<close> with the direction flag clear: bytes are copied one at a time, upwards.\<close>

fun memcpy :: "mem \<Rightarrow> u64 \<Rightarrow> u64 \<Rightarrow> nat \<Rightarrow> mem" where
  "memcpy m dest src 0 = m"
| "memcpy m dest src (Suc n) = memcpy (m(dest := m src)) (dest + 1) (src + 1) n"

fun memset :: "mem \<Rightarrow> u64 \<Rightarrow> u8 \<Rightarrow> nat \<Rightarrow> mem" where
  "memset m s c 0 = m"
| "memset m s c (Suc n) = memset (m(s := c)) (s + 1) c n"

fun memcmp :: "mem \<Rightarrow> u64 \<Rightarrow> u64 \<Rightarrow> nat \<Rightarrow> int" where
  "memcmp m s1 s2 0 = 1"
| "memcmp m s1 s2 (Suc n) = (if m s1 \<noteq> m s2 then 0 else memcmp m (s1 + 1) (s2 + 1) n)"

lemma unat_Suc_offset:
  assumes "Suc n < 2 ^ 64"
  shows "unat (a - (s + 1) :: u64) < n \<longleftrightarrow> a \<noteq> s \<and> unat (a - s) < Suc n"
proof (cases "a = s")
  case True
  have "unat (- 1 :: u64) = 2 ^ 64 - 1" by (simp add: unsigned_minus_1_eq_mask mask_numeral)
  with True assms show ?thesis by simp
next
  case False
  then have "a - s \<noteq> 0" by simp
  then have "unat (a - s) = Suc (unat (a - s - 1))"
    by (metis Suc_pred' measure_unat unat_gt_0 unat_minus_one word_coorder.not_eq_extremum)
  then show ?thesis using False by (simp add: algebra_simps)
qed

lemma memset_eq:
  "n < 2 ^ 64 \<Longrightarrow> memset m s c n a = (if unat (a - s) < n then c else m a)"
proof (induction n arbitrary: m s)
  case (Suc n)
  then have "n < 2 ^ 64" by simp
  then have "memset m s c (Suc n) a = (if unat (a - (s + 1)) < n then c else (m(s := c)) a)"
    by (simp only: memset.simps Suc.IH)
  then show ?case
    by (simp only: unat_Suc_offset [OF Suc.prems]) simp
qed simp

text \<open>
  Copying upwards is right for every pair of ranges except when the destination starts inside the
  source range: \<open>scroll_down\<close> relies on the overlapping case with the destination below.
\<close>

lemma memcpy_eq:
  "n < 2 ^ 64 \<Longrightarrow> n \<le> unat (dest - src) \<Longrightarrow>
     memcpy m dest src n a = (if unat (a - dest) < n then m (src + (a - dest)) else m a)"
proof (induction n arbitrary: m dest src)
  case (Suc n)
  then have "n < 2 ^ 64" and "n \<le> unat ((dest + 1) - (src + 1))" by auto
  then have step: "memcpy m dest src (Suc n) a =
      (if unat (a - (dest + 1)) < n then (m(dest := m src)) (src + (a - dest))
       else (m(dest := m src)) a)"
    by (simp only: memcpy.simps Suc.IH) (simp add: algebra_simps)
  have "src + (a - dest) \<noteq> dest" if "unat (a - dest) < Suc n"
  proof
    assume "src + (a - dest) = dest"
    then have "a - dest = dest - src" by (metis add_diff_cancel_left')
    with that Suc.prems(2) show False by simp
  qed
  then show ?case
    unfolding step unat_Suc_offset [OF Suc.prems(1)] by auto
qed simp

lemma memcpy_add:
  "memcpy m dest src (n1 + n2) = memcpy (memcpy m dest src n1) (dest + of_nat n1) (src + of_nat n1) n2"
  by (induction n1 arbitrary: m dest src) (simp_all add: algebra_simps)

lemma memcpy_outside: "n < 2 ^ 64 \<Longrightarrow> n \<le> unat (a - dest) \<Longrightarrow> memcpy m dest src n a = m a"
proof (induction n arbitrary: m dest src)
  case (Suc n)
  from Suc.prems have "a \<noteq> dest" by auto
  moreover have "n \<le> unat (a - (dest + 1))"
    using unat_Suc_offset [OF Suc.prems(1), of a dest] Suc.prems(2) by simp
  ultimately show ?case using Suc.IH [of "dest + 1"] Suc.prems(1) by simp
qed simp

lemma memcmp_iff:
  "memcmp m s1 s2 n = (if \<forall>k < n. m (s1 + of_nat k) = m (s2 + of_nat k) then 1 else 0)"
proof (induction n arbitrary: s1 s2)
  case (Suc n)
  have "(\<forall>k < Suc n. m (s1 + of_nat k) = m (s2 + of_nat k)) \<longleftrightarrow>
      m s1 = m s2 \<and> (\<forall>k < n. m (s1 + 1 + of_nat k) = m (s2 + 1 + of_nat k))"
    by (simp only: All_less_Suc2) (simp add: algebra_simps)
  with Suc.IH [of "s1 + 1" "s2 + 1"] show ?case by simp
qed simp

lemma bytes_at_eq: "length bs < 2 ^ 64 \<Longrightarrow> bytes_at a bs m x = (if unat (x - a) < length bs then bs ! unat (x - a) else m x)"
proof (induction bs arbitrary: a)
  case (Cons b bs)
  have off: "x \<noteq> a \<Longrightarrow> unat (x - (a + 1)) = unat (x - a) - 1" and nz: "x \<noteq> a \<Longrightarrow> 0 < unat (x - a)"
    by (simp_all add: diff_diff_add [symmetric] unat_minus_one unat_gt_0)
  with Cons show ?case by (cases "x = a") (auto simp: nth_Cons')
qed simp

section \<open>kernel/libtitan/str.c\<close>

function strnlen_from :: "mem \<Rightarrow> u64 \<Rightarrow> nat \<Rightarrow> nat \<Rightarrow> nat" where
  "strnlen_from m s maxlen i =
     (if i < maxlen then (if m (s + of_nat i) = 0 then i else strnlen_from m s maxlen (Suc i))
      else maxlen)"
  by pat_completeness auto
termination
  by (relation "measure (\<lambda>(m, s, maxlen, i). maxlen - i)") auto

declare strnlen_from.simps [simp del]

definition strnlen :: "mem \<Rightarrow> u64 \<Rightarrow> nat \<Rightarrow> nat" where
  "strnlen m s maxlen = strnlen_from m s maxlen 0"

definition strncpy :: "mem \<Rightarrow> u64 \<Rightarrow> u64 \<Rightarrow> nat \<Rightarrow> mem" where
  "strncpy m dst src dsize =
     (let src_len = strnlen m src dsize;
          m1 = memcpy m dst src src_len
      in memset m1 (dst + of_nat src_len) 0 (dsize - src_len))"

text \<open>
  \<open>char\<close> is signed on x86-64, so the difference of two characters is that of their signed values.
  The loop index starts at 1, as in the source.
\<close>

function strncmp_from :: "mem \<Rightarrow> u64 \<Rightarrow> u64 \<Rightarrow> nat \<Rightarrow> nat \<Rightarrow> int" where
  "strncmp_from m s1 s2 n i =
     (if i < n
      then (if m (s1 + of_nat i) = 0 \<or> m (s2 + of_nat i) = 0 then 0
            else if m (s1 + of_nat i) \<noteq> m (s2 + of_nat i)
            then sint (m (s1 + of_nat i)) - sint (m (s2 + of_nat i))
            else strncmp_from m s1 s2 n (Suc i))
      else sint (m (s1 + of_nat i)) - sint (m (s2 + of_nat i)))"
  by pat_completeness auto
termination
  by (relation "measure (\<lambda>(m, s1, s2, n, i). n - i)") auto

declare strncmp_from.simps [simp del]

definition strncmp :: "mem \<Rightarrow> u64 \<Rightarrow> u64 \<Rightarrow> nat \<Rightarrow> int" where
  "strncmp m s1 s2 n = strncmp_from m s1 s2 n 1"


section \<open>Inline functions of include/libtitan.h\<close>

text \<open>\<open>for(int i = 1; i < y; i++){x *= x;}\<close> on 32-bit integers.\<close>

fun pow_loop :: "nat \<Rightarrow> u32 \<Rightarrow> u32" where
  "pow_loop 0 x = x"
| "pow_loop (Suc n) x = pow_loop n (x * x)"

definition pow :: "u32 \<Rightarrow> int \<Rightarrow> u32" where
  "pow x y = (if y = 0 then 1 else pow_loop (nat (y - 1)) x)"

text \<open>\<open>KERNEL_OFFSET\<close>, \<open>KERNEL_PHYS\<close> and \<open>kernel_byte_size\<close> are symbols of the linker script.\<close>

definition phys_to_virt :: "u64 \<Rightarrow> u64 \<Rightarrow> u64" where
  "phys_to_virt KERNEL_OFFSET ptr = ptr + KERNEL_OFFSET"

definition get_kernel_phys_end :: "u64 \<Rightarrow> u64 \<Rightarrow> u64" where
  "get_kernel_phys_end KERNEL_PHYS kernel_byte_size = KERNEL_PHYS + kernel_byte_size"

section \<open>Properties\<close>

lemma strnlen_from_spec:
  "i \<le> maxlen \<Longrightarrow> i \<le> strnlen_from m s maxlen i \<and> strnlen_from m s maxlen i \<le> maxlen \<and>
     (\<forall>k. i \<le> k \<and> k < strnlen_from m s maxlen i \<longrightarrow> m (s + of_nat k) \<noteq> 0) \<and>
     (strnlen_from m s maxlen i < maxlen \<longrightarrow> m (s + of_nat (strnlen_from m s maxlen i)) = 0)"
proof (induction m s maxlen i rule: strnlen_from.induct)
  case (1 m s maxlen i)
  show ?case
  proof (cases "i < maxlen \<and> m (s + of_nat i) \<noteq> 0")
    case True
    then have eq: "strnlen_from m s maxlen i = strnlen_from m s maxlen (Suc i)"
      by (simp add: strnlen_from.simps [of m s maxlen i])
    have ih: "Suc i \<le> strnlen_from m s maxlen (Suc i)" "strnlen_from m s maxlen (Suc i) \<le> maxlen"
        "\<forall>k. Suc i \<le> k \<and> k < strnlen_from m s maxlen (Suc i) \<longrightarrow> m (s + of_nat k) \<noteq> 0"
        "strnlen_from m s maxlen (Suc i) < maxlen \<longrightarrow> m (s + of_nat (strnlen_from m s maxlen (Suc i))) = 0"
      using 1 True by auto
    have "m (s + of_nat k) \<noteq> 0" if "i \<le> k" "k < strnlen_from m s maxlen (Suc i)" for k
      using ih(3) True that by (cases "k = i") auto
    then show ?thesis unfolding eq using ih by auto
  next
    case False
    then show ?thesis using "1.prems" by (auto simp: strnlen_from.simps [of m s maxlen i])
  qed
qed

lemma strnlen_le: "strnlen m s maxlen \<le> maxlen"
  and strnlen_nonzero: "k < strnlen m s maxlen \<Longrightarrow> m (s + of_nat k) \<noteq> 0"
  and strnlen_end: "strnlen m s maxlen < maxlen \<Longrightarrow> m (s + of_nat (strnlen m s maxlen)) = 0"
  using strnlen_from_spec [of 0 maxlen m s] by (auto simp: strnlen_def)

text \<open>
  \<open>memcpy\<close> with \<open>rep movsb\<close> is a correct copy for every pair of ranges, overlapping or not, unless
  the destination starts inside the source range: every destination byte gets the source byte the memory
  held before the call and no other byte changes. \<open>scroll_down\<close> of the console relies on the overlapping case.\<close>

theorem memcpy_copies:
  assumes "n < 2 ^ 64" and "n \<le> unat (dest - src)"
  shows "memcpy m dest src n a = (if unat (a - dest) < n then m (src + (a - dest)) else m a)"
  by (rule memcpy_eq [OF assms])

theorem memcpy_copies_witness:
  "memcpy (\<lambda>a. ucast a) 0x10 0x12 8 0x11 = 0x13 \<and> memcpy (\<lambda>a. ucast a) 0x10 0x12 8 0x18 = 0x18"
  using memcpy_copies [where n = 8 and dest = "0x10" and src = "0x12" and m = "\<lambda>a. ucast a"]
  by simp

lemma strncpy_eq:
  assumes "dsize < 2 ^ 64" and "dsize \<le> unat (dst - src)"
  shows "strncpy m dst src dsize a =
    (if unat (a - dst) < strnlen m src dsize then m (src + (a - dst))
     else if unat (a - dst) < dsize then 0 else m a)"
proof -
  let ?l = "strnlen m src dsize"
  have l: "?l \<le> dsize" by (rule strnlen_le)
  have off: "unat (a - (dst + of_nat ?l)) < dsize - ?l \<longleftrightarrow> ?l \<le> unat (a - dst) \<and> unat (a - dst) < dsize"
  proof -
    have lu: "unat (of_nat ?l :: u64) = ?l" using l assms(1) by (intro unat_of_nat_small) simp
    have "unat (x - of_nat ?l) < dsize - ?l \<longleftrightarrow> ?l \<le> unat x \<and> unat x < dsize" for x :: u64
      using unsigned_less [of x, where 'a = nat] lu l assms(1) by (simp add: unat_sub_if_size word_size) linarith
    from this [of "a - dst"] show ?thesis by (simp only: diff_diff_add)
  qed
  show ?thesis
    unfolding strncpy_def Let_def using l assms
    by (auto simp: memset_eq memcpy_eq off)
qed

text \<open>
  \<open>strncpy\<close> copies the string up to its terminator or to \<open>dsize\<close> bytes and fills the rest of the buffer
  with zeros: the copy has the length of the source string, bounded by the buffer, the same characters, zero
  padding behind them, and nothing outside the buffer is written.\<close>

theorem strncpy_copies:
  assumes "dsize < 2 ^ 64" and "dsize \<le> unat (dst - src)"
  shows "strncpy m dst src dsize a =
    (if unat (a - dst) < strnlen m src dsize then m (src + (a - dst))
     else if unat (a - dst) < dsize then 0 else m a)"
  by (rule strncpy_eq [OF assms])

theorem strncpy_copies_witness:
  "strncpy (\<lambda>a. if a = 2 then 0 else 7) 0x10 0 8 0x11 = 7 \<and>
     strncpy (\<lambda>a. if a = 2 then 0 else 7) 0x10 0 8 0x12 = 0 \<and>
     strncpy (\<lambda>a. if a = 2 then 0 else 7) 0x10 0 8 0x18 = 7"
proof -
  have l: "strnlen (\<lambda>a. if a = 2 then 0 else 7) 0 8 = 2"
    by (simp add: strnlen_def strnlen_from.simps)
  show ?thesis
    using strncpy_copies [where dsize = 8 and dst = "0x10" and src = 0 and m = "\<lambda>a. if a = 2 then 0 else 7"] by (simp add: l)
qed

text \<open>\<open>s1\<close> and \<open>s2\<close> agree, without a terminator, at the indices from 1 up to \<open>k\<close>.\<close>

definition agree_from_1 :: "mem \<Rightarrow> u64 \<Rightarrow> u64 \<Rightarrow> nat \<Rightarrow> bool" where
  "agree_from_1 m s1 s2 k \<longleftrightarrow> (\<forall>i \<in> {1 ..< k}. m (s1 + of_nat i) = m (s2 + of_nat i) \<and> m (s1 + of_nat i) \<noteq> 0)"

lemma agree_from_1_mono: "j \<le> k \<Longrightarrow> agree_from_1 m s1 s2 k \<Longrightarrow> agree_from_1 m s1 s2 j"
  unfolding agree_from_1_def by (meson atLeastLessThan_iff order.strict_trans2)

lemma strncmp_from_eq:
  "agree_from_1 m s1 s2 i \<Longrightarrow> 1 \<le> i \<Longrightarrow> i \<le> max 1 n \<Longrightarrow>
    strncmp_from m s1 s2 n i = 0 \<longleftrightarrow>
     (\<exists>k. i \<le> k \<and> k \<le> max 1 n \<and> agree_from_1 m s1 s2 k \<and>
        (if k < n then m (s1 + of_nat k) = 0 \<or> m (s2 + of_nat k) = 0 else m (s1 + of_nat k) = m (s2 + of_nat k)))"
    (is "_ \<Longrightarrow> _ \<Longrightarrow> _ \<Longrightarrow> _ \<longleftrightarrow> ?R i")
proof (induction m s1 s2 n i rule: strncmp_from.induct)
  case (1 m s1 s2 n i)
  let ?a = "m (s1 + of_nat i)" and ?b = "m (s2 + of_nat i)"
  have stop: "k = i" if "i \<le> k" "agree_from_1 m s1 s2 k" "?a = 0 \<or> ?a \<noteq> ?b" for k
    using that "1.prems"(2) by (force simp: agree_from_1_def)
  consider "\<not> i < n" | "i < n" "?a = 0 \<or> ?b = 0" | "i < n" "?a \<noteq> 0" "?b \<noteq> 0" "?a \<noteq> ?b" | "i < n" "?a \<noteq> 0" "?a = ?b"
    by metis
  then show ?case
  proof cases
    case 1
    then have mx: "max 1 n = i" using "1.prems" by auto
    have "strncmp_from m s1 s2 n i = 0 \<longleftrightarrow> ?a = ?b"
      using 1 word_eq_iff_signed [where 'a = int, of ?a ?b] by (subst strncmp_from.simps) simp
    then show ?thesis unfolding mx using 1 "1.prems"(1) by (auto dest: le_antisym)
  next
    case 2
    then show ?thesis using "1.prems" by (auto simp: strncmp_from.simps [of m s1 s2 n i])
  next
    case 3
    then have "strncmp_from m s1 s2 n i \<noteq> 0"
      using word_eq_iff_signed [where 'a = int, of ?a ?b] by (subst strncmp_from.simps) simp
    moreover have "k = i" if "i \<le> k" "agree_from_1 m s1 s2 k" for k using stop [OF that] 3 by simp
    ultimately show ?thesis using 3 by (metis (no_types))
  next
    case 4
    then have "agree_from_1 m s1 s2 (Suc i)" using "1.prems"(1) by (auto simp: agree_from_1_def less_Suc_eq)
    moreover have "Suc i \<le> max 1 n" using 4 by simp
    ultimately have "strncmp_from m s1 s2 n (Suc i) = 0 \<longleftrightarrow> (\<exists>k. Suc i \<le> k \<and> k \<le> max 1 n \<and> agree_from_1 m s1 s2 k \<and>
        (if k < n then m (s1 + of_nat k) = 0 \<or> m (s2 + of_nat k) = 0 else m (s1 + of_nat k) = m (s2 + of_nat k)))"
      using "1.IH" 4 by simp
    moreover have "strncmp_from m s1 s2 n i = strncmp_from m s1 s2 n (Suc i)"
      using 4 by (simp add: strncmp_from.simps [of m s1 s2 n i])
    moreover have "i \<le> k \<longleftrightarrow> k = i \<or> Suc i \<le> k" for k by auto
    ultimately show ?thesis using 4 by auto
  qed
qed

lemma strncmp_zero_iff:
  "strncmp m s1 s2 n = 0 \<longleftrightarrow>
     (\<exists>k. 1 \<le> k \<and> k \<le> max 1 n \<and> agree_from_1 m s1 s2 k \<and>
        (if k < n then m (s1 + of_nat k) = 0 \<or> m (s2 + of_nat k) = 0 else m (s1 + of_nat k) = m (s2 + of_nat k)))"
  unfolding strncmp_def by (rule strncmp_from_eq) (simp_all add: agree_from_1_def)

text \<open>
  What \<open>strncmp\<close> decides. It reports equality exactly when there is an index \<open>k\<close> such that the strings agree at the
  indices from 1 to \<open>k - 1\<close> and either one of them ends at \<open>k\<close> below the bound, or \<open>k\<close> is the bound and they agree
  there too. So the first characters are never compared, a string equals each of its prefixes, and the byte at
  index \<open>n\<close>, behind the range, is compared.\<close>

theorem strncmp_equal_iff:
  "strncmp m s1 s2 n = 0 \<longleftrightarrow>
     (\<exists>k. 1 \<le> k \<and> k \<le> max 1 n \<and> agree_from_1 m s1 s2 k \<and>
        (if k < n then m (s1 + of_nat k) = 0 \<or> m (s2 + of_nat k) = 0 else m (s1 + of_nat k) = m (s2 + of_nat k)))"
  by (rule strncmp_zero_iff)

text \<open>
  The exponentiation of \<open>libtitan.h\<close> squares its accumulator, so for a positive exponent it computes
  \<open>x\<close> to the power \<open>2 ^ (y - 1)\<close>, which is \<open>x ^ y\<close> for \<open>y = 1\<close> and \<open>y = 2\<close> only.\<close>

theorem pow_squares:
  assumes "0 < y"
  shows "pow x (int y) = x ^ (2 ^ (y - 1))"
proof -
  have loop: "pow_loop n x = x ^ (2 ^ n)" for n x
    by (induction n arbitrary: x) (simp_all add: power_mult_distrib power_add mult_2)
  have "nat (int y - 1) = y - 1" by simp
  with assms loop show ?thesis by (simp add: pow_def)
qed

theorem pow_squares_witness: "pow 3 (int 3) = 81"
  using pow_squares [of 3 3] by simp

end
