(* ===== verification/Mb2_mmap.thy ===== *)
theory Mb2_mmap
  imports Libtitan
begin

text \<open>
  The Multiboot 2 information block: the tag walk that include/multiboot2.h, mb2_mmap.c and tar.c
  share, and the memory map component of kernel/mm/mb2_mmap.c with its two static region lists.
  The lemmas show that the walk finds the first tag of the requested type on every well-formed
  tag list, and that initialisation splits the entries of the memory map by type, in order.
\<close>

section \<open>Tags of the information block\<close>

definition tag_type :: "mem \<Rightarrow> u64 \<Rightarrow> u32" where
  "tag_type m tag = load32 m tag"

definition tag_size :: "mem \<Rightarrow> u64 \<Rightarrow> u32" where
  "tag_size m tag = load32 m (tag + 4)"

definition next_tag :: "mem \<Rightarrow> u64 \<Rightarrow> u64" where
  "next_tag m tag = ALIGN_UP (tag + ucast (tag_size m tag)) 8"

text \<open>
  The loop \<open>for (; tag->type != END && tag->type != type; tag = next)\<close>. A tag of size 0 makes it
  spin, so the walk carries a step budget.
\<close>

fun walk_tags :: "nat \<Rightarrow> mem \<Rightarrow> u64 \<Rightarrow> u32 \<Rightarrow> u64 result" where
  "walk_tags 0 m tag type = Inl Out_Of_Fuel"
| "walk_tags (Suc n) m tag type =
     (if tag_type m tag \<noteq> 0 \<and> tag_type m tag \<noteq> type
      then walk_tags n m (next_tag m tag) type
      else Inr tag)"

definition get_mb2_tag :: "nat \<Rightarrow> mem \<Rightarrow> u64 \<Rightarrow> u32 \<Rightarrow> u64 result" where
  "get_mb2_tag n m mb2_info type =
     bindE (walk_tags n m (mb2_info + 8) type) (\<lambda>tag.
       if tag_type m tag \<noteq> type then Inr 0 else Inr tag)"

section \<open>The memory map\<close>

record mmap_entry_t =
  me_addr :: u64
  me_len :: u64
  me_type :: u32
  me_zero :: u32

record mmap_region_list_t =
  rl_length :: nat
  rl_entries :: "mmap_entry_t list"

record mb2_state =
  available_entries :: mmap_region_list_t
  reserved_entries :: mmap_region_list_t

definition MAX_MMAP_ENTRIES :: nat where
  "MAX_MMAP_ENTRIES = 20"

definition zero_entry :: mmap_entry_t where
  "zero_entry = \<lparr>me_addr = 0, me_len = 0, me_type = 0, me_zero = 0\<rparr>"

definition empty_region_list :: mmap_region_list_t where
  "empty_region_list = \<lparr>rl_length = 0, rl_entries = replicate MAX_MMAP_ENTRIES zero_entry\<rparr>"

definition initial_mb2_state :: mb2_state where
  "initial_mb2_state =
     \<lparr>available_entries = empty_region_list, reserved_entries = empty_region_list\<rparr>"

definition get_reserved_entries :: "mb2_state \<Rightarrow> mmap_region_list_t" where
  "get_reserved_entries s = reserved_entries s"

definition WITHIN :: "u64 \<Rightarrow> u64 \<Rightarrow> u64 \<Rightarrow> u64 \<Rightarrow> bool" where
  "WITHIN r1 r2 l1 l2 \<longleftrightarrow> ((r1 + l1) > r2 \<and> r1 < r2) \<or> ((r2 + l2) > r1 \<and> r2 < r1)"

text \<open>The loop advances \<open>i\<close> but not \<open>e\<close>: every round looks at the first entry.\<close>

function check_region_loop :: "mmap_entry_t \<Rightarrow> nat \<Rightarrow> u64 \<Rightarrow> u64 \<Rightarrow> nat \<Rightarrow> bool" where
  "check_region_loop e n region_start len i =
     (if i < n
      then (if WITHIN region_start (me_addr e) len (me_len e) then True
            else check_region_loop e n region_start len (Suc i))
      else False)"
  by pat_completeness auto
termination
  by (relation "measure (\<lambda>(e, n, r, l, i). n - i)") auto

declare check_region_loop.simps [simp del]

definition check_region_reserved :: "mb2_state \<Rightarrow> u64 \<Rightarrow> u64 \<Rightarrow> bool" where
  "check_region_reserved s region_start len =
     check_region_loop (rl_entries (reserved_entries s) ! 0) (rl_length (reserved_entries s))
       region_start len 0"

fun max_end :: "u64 \<Rightarrow> mmap_entry_t list \<Rightarrow> u64" where
  "max_end max_addr [] = max_addr"
| "max_end max_addr (e # es) =
     max_end (if me_addr e + me_len e > max_addr then me_addr e + me_len e else max_addr) es"

definition rl_list :: "mmap_region_list_t \<Rightarrow> mmap_entry_t list" where
  "rl_list l = take (rl_length l) (rl_entries l)"

definition get_max_memory_addr :: "mb2_state \<Rightarrow> u64" where
  "get_max_memory_addr s =
     max_end (max_end 0 (rl_list (available_entries s))) (rl_list (reserved_entries s))"

definition load_mmap_entry :: "mem \<Rightarrow> u64 \<Rightarrow> mmap_entry_t" where
  "load_mmap_entry m e =
     \<lparr>me_addr = load64 m e, me_len = load64 m (e + 8),
      me_type = load32 m (e + 16), me_zero = load32 m (e + 20)\<rparr>"

text \<open>
  \<open>list->entries[list->length] = *e; list->length++\<close>. The bound check is commented out in the
  source, so a 21st entry is written outside the array.
\<close>

definition rl_append :: "mmap_region_list_t \<Rightarrow> mmap_entry_t \<Rightarrow> mmap_region_list_t result" where
  "rl_append l e =
     (if rl_length l < length (rl_entries l)
      then Inr \<lparr>rl_length = Suc (rl_length l), rl_entries = (rl_entries l)[rl_length l := e]\<rparr>
      else Inl Out_Of_Bounds)"

definition insert_entry :: "mb2_state \<times> u64 \<Rightarrow> mmap_entry_t \<Rightarrow> (mb2_state \<times> u64) result" where
  "insert_entry sm e =
     (if me_type e = 1
      then bindE (rl_append (available_entries (fst sm)) e) (\<lambda>l.
             Inr ((fst sm)\<lparr>available_entries := l\<rparr>, snd sm + me_len e))
      else bindE (rl_append (reserved_entries (fst sm)) e) (\<lambda>l.
             Inr ((fst sm)\<lparr>reserved_entries := l\<rparr>, snd sm)))"

definition rl_room :: "mmap_region_list_t \<Rightarrow> nat" where
  "rl_room l = length (rl_entries l) - rl_length l"

lemma rl_append_room: "rl_append l e = Inr l' \<Longrightarrow> rl_room l = Suc (rl_room l')"
  by (auto simp: rl_append_def rl_room_def split: if_splits)

text \<open>
  Every round fills a slot of one of the two arrays, so the loop ends whatever the entry size is.
\<close>

function mmap_entries :: "mem \<Rightarrow> u64 \<Rightarrow> u64 \<Rightarrow> u64 \<Rightarrow> mb2_state \<times> u64 \<Rightarrow> (mb2_state \<times> u64) result" where
  "mmap_entries m e end entry_size sm =
     (if e < end
      then bindE (insert_entry sm (load_mmap_entry m e)) (\<lambda>sm'.
             mmap_entries m (e + entry_size) end entry_size sm')
      else Inr sm)"
  by pat_completeness auto
termination
  by (relation "measure (\<lambda>(m, e, end, es, sm).
        rl_room (available_entries (fst sm)) + rl_room (reserved_entries (fst sm)))")
     (auto simp: insert_entry_def bindE_eq_Inr dest!: rl_append_room split: if_splits)

declare mmap_entries.simps [simp del]

definition mb2_mmap_init :: "nat \<Rightarrow> mem \<Rightarrow> u64 \<Rightarrow> mb2_state \<Rightarrow> (mb2_state \<times> u64) result" where
  "mb2_mmap_init n m mb_info s =
     bindE (walk_tags n m (mb_info + 8) 6) (\<lambda>tag.
       if tag_type m tag \<noteq> 6 then Inl Panic
       else mmap_entries m (tag + 16) (tag + ucast (tag_size m tag)) (ucast (load32 m (tag + 8))) (s, 0))"

section \<open>Lemmas\<close>

text \<open>\<open>tags_at m a ts\<close>: the tags at \<open>a\<close> have the types \<open>ts\<close>, then comes the end tag.\<close>

fun tags_at :: "mem \<Rightarrow> u64 \<Rightarrow> u32 list \<Rightarrow> bool" where
  "tags_at m a [] \<longleftrightarrow> tag_type m a = 0"
| "tags_at m a (t # ts) \<longleftrightarrow> t \<noteq> 0 \<and> tag_type m a = t \<and> tags_at m (next_tag m a) ts"

fun tag_addr :: "mem \<Rightarrow> u64 \<Rightarrow> nat \<Rightarrow> u64" where
  "tag_addr m a 0 = a"
| "tag_addr m a (Suc n) = tag_addr m (next_tag m a) n"

lemma walk_tags_first:
  "tags_at m a ts \<Longrightarrow> length ts < n \<Longrightarrow>
     walk_tags n m a ty = Inr (tag_addr m a (length (takeWhile (\<lambda>t. t \<noteq> ty) ts)))"
proof (induction ts arbitrary: a n)
  case Nil
  then show ?case by (cases n) simp_all
next
  case (Cons t ts)
  then obtain k where "n = Suc k" by (cases n) simp_all
  with Cons show ?case by simp
qed

lemma tags_at_addr:
  "tags_at m a ts \<Longrightarrow> k \<le> length ts \<Longrightarrow> tag_type m (tag_addr m a k) = (if k < length ts then ts ! k else 0)"
proof (induction ts arbitrary: a k)
  case (Cons t ts)
  then show ?case by (cases k) auto
qed simp

definition rl_wf :: "mmap_region_list_t \<Rightarrow> bool" where
  "rl_wf l \<longleftrightarrow> length (rl_entries l) = MAX_MMAP_ENTRIES \<and> rl_length l \<le> MAX_MMAP_ENTRIES"

lemma rl_append_wf:
  "rl_wf l \<Longrightarrow> length (rl_list l) < MAX_MMAP_ENTRIES \<Longrightarrow>
     \<exists>l'. rl_append l e = Inr l' \<and> rl_wf l' \<and> rl_list l' = rl_list l @ [e]"
  by (auto simp: rl_append_def rl_list_def rl_wf_def take_Suc_conv_app_nth)

text \<open>\<open>n\<close> consecutive entries of the map, \<open>es\<close> bytes apart.\<close>

fun entries_in :: "mem \<Rightarrow> u64 \<Rightarrow> u64 \<Rightarrow> nat \<Rightarrow> mmap_entry_t list" where
  "entries_in m e es 0 = []"
| "entries_in m e es (Suc n) = load_mmap_entry m e # entries_in m (e + es) es n"

lemma mmap_entries_split:
  assumes "unat e + n * unat es = unat fin" and "0 < unat es"
    and "rl_wf (available_entries s)" and "rl_wf (reserved_entries s)"
    and "length (rl_list (available_entries s)) + length (filter (\<lambda>x. me_type x = 1) (entries_in m e es n))
      \<le> MAX_MMAP_ENTRIES"
    and "length (rl_list (reserved_entries s)) + length (filter (\<lambda>x. me_type x \<noteq> 1) (entries_in m e es n))
      \<le> MAX_MMAP_ENTRIES"
  shows "\<exists>s'. mmap_entries m e fin es (s, z) =
      Inr (s', z + sum_list (map me_len (filter (\<lambda>x. me_type x = 1) (entries_in m e es n)))) \<and>
    rl_list (available_entries s') =
      rl_list (available_entries s) @ filter (\<lambda>x. me_type x = 1) (entries_in m e es n) \<and>
    rl_list (reserved_entries s') =
      rl_list (reserved_entries s) @ filter (\<lambda>x. me_type x \<noteq> 1) (entries_in m e es n)"
  using assms
proof (induction n arbitrary: e s z)
  case 0
  then show ?case by (simp add: mmap_entries.simps word_less_nat_alt)
next
  case (Suc n)
  let ?x = "load_mmap_entry m e"
  have lt: "e < fin" using Suc.prems(1,2) by (simp add: word_less_nat_alt)
  have "unat e + unat es < 2 ^ 64"
    using Suc.prems(1) unsigned_less [of fin, where 'a = nat] by simp
  then have nxt: "unat (e + es) + n * unat es = unat fin"
    using Suc.prems(1) by (simp add: unat_word_ariths)
  show ?case
  proof (cases "me_type ?x = 1")
    case True
    with Suc.prems obtain l where l: "rl_append (available_entries s) ?x = Inr l" "rl_wf l"
        "rl_list l = rl_list (available_entries s) @ [?x]"
      using rl_append_wf [of "available_entries s" ?x] by auto
    then have ins: "insert_entry (s, z) ?x = Inr (s\<lparr>available_entries := l\<rparr>, z + me_len ?x)"
      using True by (simp add: insert_entry_def)
    show ?thesis
      using Suc.IH [OF nxt Suc.prems(2), of "s\<lparr>available_entries := l\<rparr>" "z + me_len ?x"] Suc.prems l True lt ins
      by (simp add: mmap_entries.simps [of m e] add.assoc)
  next
    case False
    with Suc.prems obtain l where l: "rl_append (reserved_entries s) ?x = Inr l" "rl_wf l"
        "rl_list l = rl_list (reserved_entries s) @ [?x]"
      using rl_append_wf [of "reserved_entries s" ?x] by auto
    then have ins: "insert_entry (s, z) ?x = Inr (s\<lparr>reserved_entries := l\<rparr>, z)"
      using False by (simp add: insert_entry_def)
    show ?thesis
      using Suc.IH [OF nxt Suc.prems(2), of "s\<lparr>reserved_entries := l\<rparr>" z] Suc.prems l False lt ins
      by (simp add: mmap_entries.simps [of m e])
  qed
qed


section \<open>Properties\<close>

text \<open>A small information block for the witnesses: one memory map tag with one available entry.\<close>

definition example_info :: mem where
  "example_info = (\<lambda>a. if a = 8 then 6 else if a = 12 then 40 else if a = 16 then 24
     else if a = 32 then 7 else if a = 40 then 1 else 0)"

lemma example_tags: "tags_at example_info (0 + 8) [6]"
  by (simp add: tag_type_def tag_size_def next_tag_def ALIGN_UP_def load32_def load16_def example_info_def)

text \<open>
  On a well-formed tag list \<open>get_mb2_tag\<close> returns, within one step per tag, the address of the
  first tag of the requested type, and NULL when there is none.
\<close>

theorem get_mb2_tag_first:
  assumes "tags_at m (info + 8) ts" and "ty \<noteq> 0" and "length ts < n"
  shows "get_mb2_tag n m info ty =
    Inr (if ty \<in> set ts then tag_addr m (info + 8) (length (takeWhile (\<lambda>t. t \<noteq> ty) ts)) else 0)"
proof -
  let ?k = "length (takeWhile (\<lambda>t. t \<noteq> ty) ts)"
  have k: "?k \<le> length ts" by (rule length_takeWhile_le)
  have "?k < length ts \<longleftrightarrow> ty \<in> set ts"
    by (rule length_takeWhile_mem)
  moreover have "ts ! ?k = ty" if "?k < length ts"
    using nth_length_takeWhile [OF that] by simp
  ultimately show ?thesis
    using walk_tags_first [OF assms(1,3), of ty] tags_at_addr [OF assms(1) k] assms(2)
    by (auto simp: get_mb2_tag_def)
qed

theorem get_mb2_tag_first_witness: "get_mb2_tag 2 example_info 0 6 = Inr 8 \<and> get_mb2_tag 2 example_info 0 3 = Inr 0"
  using get_mb2_tag_first [OF example_tags, of 6 2] get_mb2_tag_first [OF example_tags, of 3 2] by simp

lemma initial_lists [simp]:
  "rl_wf empty_region_list" "rl_list empty_region_list = []"
  "available_entries initial_mb2_state = empty_region_list" "reserved_entries initial_mb2_state = empty_region_list"
  by (simp_all add: empty_region_list_def rl_wf_def rl_list_def initial_mb2_state_def)



lemma max_end_ge: "a \<le> max_end a es"
proof (induction es arbitrary: a)
  case (Cons x es)
  let ?b = "if me_addr x + me_len x > a then me_addr x + me_len x else a"
  have "a \<le> ?b" by (simp add: order.strict_implies_order)
  also have "?b \<le> max_end ?b es" by (rule Cons.IH)
  finally show ?case by simp
qed simp

lemma max_end_upper: "e \<in> set es \<Longrightarrow> me_addr e + me_len e \<le> max_end a es"
proof (induction es arbitrary: a)
  case (Cons x es)
  let ?b = "if me_addr x + me_len x > a then me_addr x + me_len x else a"
  show ?case
  proof (cases "e = x")
    case True
    have "me_addr e + me_len e \<le> ?b" using True by auto
    also have "?b \<le> max_end ?b es" by (rule max_end_ge)
    finally show ?thesis by simp
  next
    case False
    then show ?thesis using Cons.IH [of ?b] Cons.prems by simp
  qed
qed simp

lemma max_end_in: "max_end a es = a \<or> (\<exists>e \<in> set es. max_end a es = me_addr e + me_len e)"
proof (induction es arbitrary: a)
  case (Cons x es)
  then show ?case using Cons.IH [of "if me_addr x + me_len x > a then me_addr x + me_len x else a"] by auto
qed simp

lemma max_end_append: "max_end a (es @ fs) = max_end (max_end a es) fs"
  by (induction es arbitrary: a) simp_all

definition all_regions :: "mb2_state \<Rightarrow> mmap_entry_t list" where
  "all_regions s = rl_list (available_entries s) @ rl_list (reserved_entries s)"

text \<open>
  \<open>get_max_memory_addr\<close> is the largest end address over both region lists: no region ends above it, and it is
  0 or the end of one of the regions.\<close>

theorem get_max_memory_addr_is_max:
  "(\<forall>e \<in> set (all_regions s). me_addr e + me_len e \<le> get_max_memory_addr s) \<and>
   (get_max_memory_addr s = 0 \<or> (\<exists>e \<in> set (all_regions s). get_max_memory_addr s = me_addr e + me_len e))"
proof -
  have eq: "get_max_memory_addr s = max_end 0 (all_regions s)"
    by (simp only: get_max_memory_addr_def all_regions_def max_end_append)
  show ?thesis unfolding eq using max_end_upper [of _ "all_regions s" 0] max_end_in [of 0 "all_regions s"] by blast
qed

definition example_regions :: mb2_state where
  "example_regions = \<lparr>available_entries = \<lparr>rl_length = 1, rl_entries = [\<lparr>me_addr = 0x1000, me_len = 0x2000, me_type = 1, me_zero = 0\<rparr>]\<rparr>,
     reserved_entries = empty_region_list\<rparr>"

theorem get_max_memory_addr_is_max_witness:
  "0x3000 \<le> get_max_memory_addr example_regions \<and> get_max_memory_addr example_regions \<in> {0, 0x3000}"
  using get_max_memory_addr_is_max [of example_regions] by (simp add: all_regions_def example_regions_def rl_list_def empty_region_list_def)

lemma check_region_loop_iff: "check_region_loop e n r l i \<longleftrightarrow> i < n \<and> WITHIN r (me_addr e) l (me_len e)"
proof (induction e n r l i rule: check_region_loop.induct)
  case (1 e n r l i)
  then show ?case by (auto simp: check_region_loop.simps [of e n r l i])
qed

text \<open>
  The reserved-region test looks at the first reserved entry only: it answers true exactly when there is a reserved
  entry and the first one overlaps the region strictly, that is with a different start. A page that lies
  in any other reserved region, or that starts where the first one starts, is reported as not reserved.\<close>

theorem check_region_reserved_first_only:
  "check_region_reserved s r len \<longleftrightarrow>
     0 < rl_length (reserved_entries s) \<and>
     WITHIN r (me_addr (rl_entries (reserved_entries s) ! 0)) len (me_len (rl_entries (reserved_entries s) ! 0))"
  by (simp add: check_region_reserved_def check_region_loop_iff)

end
