(* ===== verification/Pmm.thy ===== *)
theory Pmm
  imports Mb2_mmap
begin

text \<open>
  The physical page allocator of kernel/mm/pmm.c: a bitmap of frames, one bit per frame, with the \<open>int\<close>
  shifts of the source. The lemmas give the meaning of every operation on slots of the bitmap, the invariant that
  keeps the allocator away from the undefined shifts, and what the two address conversions do to it.
\<close>

section \<open>The physical page allocator (kernel/mm/pmm.c)\<close>

record pmm =
  num_pages :: u64
  bitmap :: "u64 list"

record bitmap_coords =
  bc_y :: u32
  bc_x :: u8

definition bitmap_to_paddr :: "u32 \<Rightarrow> u32 \<Rightarrow> u64" where
  "bitmap_to_paddr x y = ucast ((x * 0x1000) + (y * 0x20000))"

definition paddr_to_bitmap :: "u64 \<Rightarrow> bitmap_coords" where
  "paddr_to_bitmap paddr =
     (let phys_addr = paddr div 0x1000
      in \<lparr>bc_y = ucast (phys_addr div 64), bc_x = ucast (phys_addr mod 64)\<rparr>)"

definition bitmap_read :: "pmm \<Rightarrow> nat \<Rightarrow> u64 result" where
  "bitmap_read m i = (if i < length (bitmap m) then Inr (bitmap m ! i) else Inl Page_Fault)"

definition bitmap_write :: "pmm \<Rightarrow> nat \<Rightarrow> u64 \<Rightarrow> pmm" where
  "bitmap_write m i w = m\<lparr>bitmap := (bitmap m)[i := w]\<rparr>"

function alloc_in_word :: "u64 \<Rightarrow> nat \<Rightarrow> nat option result" where
  "alloc_in_word w j =
     (if j < 64
      then bindE (int_bit j) (\<lambda>b. if w AND b = 0 then Inr (Some j) else alloc_in_word w (Suc j))
      else Inr None)"
  by pat_completeness auto
termination
  by (relation "measure (\<lambda>(w, j). 64 - j)") auto

declare alloc_in_word.simps [simp del]

function pmm_alloc_from :: "pmm \<Rightarrow> nat \<Rightarrow> (u64 \<times> pmm) result" where
  "pmm_alloc_from m i =
     (if i < unat (num_pages m) div 64
      then bindE (bitmap_read m i) (\<lambda>w.
        if w < 0xffffffffffffffff
        then bindE (alloc_in_word w 0) (\<lambda>r.
          case r of
            None \<Rightarrow> pmm_alloc_from m (Suc i)
          | Some j \<Rightarrow> bindE (int_bit j) (\<lambda>b.
              Inr (bitmap_to_paddr (of_nat j) (of_nat i), bitmap_write m i (w OR b))))
        else pmm_alloc_from m (Suc i))
      else Inr (0, m))"
  by pat_completeness auto
termination
  by (relation "measure (\<lambda>(m, i). unat (num_pages m) div 64 - i)") auto

declare pmm_alloc_from.simps [simp del]

definition pmm_alloc_page :: "pmm \<Rightarrow> (u64 \<times> pmm) result" where
  "pmm_alloc_page m = pmm_alloc_from m 0"

definition pmm_check_page_taken :: "pmm \<Rightarrow> u64 \<Rightarrow> bool result" where
  "pmm_check_page_taken m paddr =
     (let coords = paddr_to_bitmap paddr
      in bindE (bitmap_read m (unat (bc_y coords))) (\<lambda>w.
         bindE (int_bit (unat (bc_x coords))) (\<lambda>b. Inr (w AND b > 0))))"

definition pmm_alloc_specific_page :: "pmm \<Rightarrow> u64 \<Rightarrow> (bool \<times> pmm) result" where
  "pmm_alloc_specific_page m paddr =
     (let coords = paddr_to_bitmap paddr
      in bindE (bitmap_read m (unat (bc_y coords))) (\<lambda>w.
         bindE (int_bit (unat (bc_x coords))) (\<lambda>b.
           if w AND b \<noteq> 0 then Inr (True, m)
           else Inr (False, bitmap_write m (unat (bc_y coords)) (w OR b)))))"

definition pmm_free_page :: "pmm \<Rightarrow> u64 \<Rightarrow> pmm result" where
  "pmm_free_page m paddr =
     (let coords = paddr_to_bitmap paddr
      in bindE (bitmap_read m (unat (bc_y coords))) (\<lambda>w.
         bindE (int_bit (unat (bc_x coords))) (\<lambda>b.
           Inr (bitmap_write m (unat (bc_y coords)) (w AND (0xffffffffffffffff XOR b))))))"

subsection \<open>Initialisation\<close>

definition KERNEL_PMM_START :: u64 where
  "KERNEL_PMM_START = VGA_TEXT_BUFFER_BASE + 0x28000"

definition KERNEL_HEAP_START :: u64 where
  "KERNEL_HEAP_START = 0xffffff8000200000"

definition TMP_PMM_BYTE_SIZE :: u64 where
  "TMP_PMM_BYTE_SIZE = KERNEL_HEAP_START - KERNEL_PMM_START"

text \<open>
  A loop \<open>for (p = ...; c(p); p += PAGE_SIZE) f(p)\<close> with a step budget, since \<open>p\<close> may wrap.
\<close>

fun page_loop :: "nat \<Rightarrow> (u64 \<Rightarrow> bool) \<Rightarrow> (u64 \<Rightarrow> 's \<Rightarrow> 's result) \<Rightarrow> u64 \<Rightarrow> 's \<Rightarrow> 's result" where
  "page_loop 0 c f p s = Inl Out_Of_Fuel"
| "page_loop (Suc n) c f p s =
     (if c p then bindE (f p s) (\<lambda>s'. page_loop n c f (p + PAGE_SIZE) s') else Inr s)"

definition mark_page :: "u64 \<Rightarrow> pmm \<Rightarrow> pmm result" where
  "mark_page p m = bindE (pmm_alloc_specific_page m p) (\<lambda>(_, m'). Inr m')"

definition entry_at :: "mmap_region_list_t \<Rightarrow> nat \<Rightarrow> mmap_entry_t result" where
  "entry_at l i = (if i < length (rl_entries l) then Inr (rl_entries l ! i) else Inl Out_Of_Bounds)"

text \<open>
  The loop over the reserved entries. Its condition is \<open>e != end || e->addr + e->len >= 128 MiB\<close>
  and the inner loop runs while \<open>p > e->addr + e->len\<close>, both as in the source.
\<close>

function mark_reserved :: "nat \<Rightarrow> mmap_region_list_t \<Rightarrow> pmm \<Rightarrow> nat \<Rightarrow> pmm result" where
  "mark_reserved n l m i =
     bindE (if i \<noteq> rl_length l then Inr True
            else bindE (entry_at l i) (\<lambda>e. Inr (me_addr e + me_len e \<ge> 0x8000000))) (\<lambda>c.
       if c
       then bindE (entry_at l i) (\<lambda>e.
            bindE (page_loop n (\<lambda>p. p > me_addr e + me_len e) mark_page (me_addr e) m) (\<lambda>m'.
              mark_reserved n l m' (Suc i)))
       else Inr m)"
  by pat_completeness auto
termination
  by (relation "measure (\<lambda>(n, l, m, i). length (rl_entries l) - i)")
     (auto simp: entry_at_def split: if_splits)

declare mark_reserved.simps [simp del]

definition bitmap_clear_page :: "pmm \<Rightarrow> pmm result" where
  "bitmap_clear_page m =
     (if length (bitmap m) < 512 then Inl Page_Fault
      else Inr (m\<lparr>bitmap := replicate 512 0 @ drop 512 (bitmap m)\<rparr>))"

text \<open>
  \<open>lengthen\<close> stands for \<open>vmm_lengthen\<close>, which lives above this component: it takes the start of
  the region and the increment, and may change the bitmap (by mapping more of it and by
  allocating frames) and the rest \<open>'e\<close> of the kernel state.
\<close>

definition pmm_init ::
    "nat \<Rightarrow> (u64 \<Rightarrow> u64 \<Rightarrow> pmm \<times> 'e \<Rightarrow> (bool \<times> pmm \<times> 'e) result) \<Rightarrow> mmap_region_list_t \<Rightarrow>
     u64 \<Rightarrow> u64 \<Rightarrow> pmm \<times> 'e \<Rightarrow> (pmm \<times> 'e) result" where
  "pmm_init n lengthen reserved kernel_phys kernel_byte_size me =
     (let map_byte_size = TMP_PMM_BYTE_SIZE;
          m0 = (fst me)\<lparr>num_pages := map_byte_size * 8\<rparr>
      in bindE (bitmap_clear_page m0) (\<lambda>m1.
         bindE (mark_reserved n reserved m1 0) (\<lambda>m2.
         bindE (page_loop n (\<lambda>p. p < kernel_byte_size + kernel_phys + PAGE_SIZE * 2) mark_page
                  kernel_phys m2) (\<lambda>m3.
           if map_byte_size \<le> PAGE_SIZE then Inr (m3, snd me)
           else bindE (lengthen KERNEL_PMM_START (map_byte_size - PAGE_SIZE) (m3, snd me))
                  (\<lambda>(ok, m4, e4). if ok then Inr (m4, e4)
                                 else Inr (m4\<lparr>num_pages := 8 * 0x1000\<rparr>, e4))))))"

subsection \<open>Words of the bitmap\<close>

definition sext32 :: "u64 \<Rightarrow> bool" where
  "sext32 w \<longleftrightarrow> signed (ucast w :: u32) = w"

lemma sext32_iff: "sext32 w \<longleftrightarrow> (\<forall>k. 31 \<le> k \<and> k < 64 \<longrightarrow> bit w k = bit w 31)"
  unfolding sext32_def
  by (auto simp: bit_eq_iff bit_signed_iff bit_unsigned_iff min_def)

definition slot_bit :: "nat \<Rightarrow> u64" where
  "slot_bit j = signed (push_bit j (1 :: u32))"

lemma int_bit_slot [simp]: "j < 32 \<Longrightarrow> int_bit j = Inr (slot_bit j)"
  by (simp add: int_bit_def slot_bit_def)

lemma bit_slot_bit: "j < 32 \<Longrightarrow> bit (slot_bit j) k \<longleftrightarrow> k < 64 \<and> (k = j \<or> (j = 31 \<and> 31 \<le> k))"
  using bit_signed_push_bit [of j k] bit_imp_le_length [of "slot_bit j" k]
  by (auto simp: slot_bit_def)

lemma sext32D: "sext32 w \<Longrightarrow> 31 \<le> k \<Longrightarrow> k < 64 \<Longrightarrow> bit w k \<longleftrightarrow> bit w 31"
  unfolding sext32_iff by blast

lemma sext32I: "(\<And>k. 31 < k \<Longrightarrow> k < 64 \<Longrightarrow> bit w k \<longleftrightarrow> bit w 31) \<Longrightarrow> sext32 w"
  unfolding sext32_iff by (metis le_eq_less_or_eq)

lemma and_slot_bit:
  assumes "sext32 w" and "j < 32"
  shows "w AND slot_bit j = 0 \<longleftrightarrow> \<not> bit w j"
proof
  assume "w AND slot_bit j = 0"
  then have "\<not> bit (w AND slot_bit j) j" by simp
  with assms(2) show "\<not> bit w j" by (simp add: bit_and_iff bit_slot_bit)
next
  assume free: "\<not> bit w j"
  show "w AND slot_bit j = 0"
  proof (rule bit_eqI)
    fix k
    show "bit (w AND slot_bit j) k \<longleftrightarrow> bit (0 :: u64) k"
      using free assms(2) sext32D [OF assms(1), of k] by (auto simp: bit_and_iff bit_slot_bit)
  qed
qed

lemma bit_or_slot_bit:
  "j < 32 \<Longrightarrow> k < 32 \<Longrightarrow> bit (w OR slot_bit j) k \<longleftrightarrow> bit w k \<or> k = j"
  by (auto simp: bit_or_iff bit_slot_bit)

lemma sext32_or_slot_bit:
  assumes "sext32 w" and "j < 32"
  shows "sext32 (w OR slot_bit j)"
proof (rule sext32I)
  fix k :: nat
  assume "31 < k" and "k < 64"
  then show "bit (w OR slot_bit j) k \<longleftrightarrow> bit (w OR slot_bit j) 31"
    using sext32D [OF assms(1), of k] assms(2) by (auto simp: bit_or_iff bit_slot_bit)
qed

lemma bit_clear_slot:
  "j < 32 \<Longrightarrow> k < 64 \<Longrightarrow>
     bit (w AND (0xffffffffffffffff XOR slot_bit j)) k \<longleftrightarrow> bit w k \<and> \<not> (k = j \<or> (j = 31 \<and> 31 \<le> k))"
proof -
  assume "j < 32" and "k < 64"
  moreover have "(0xffffffffffffffff :: u64) = - 1" by simp
  ultimately show ?thesis by (simp only: bit_and_iff bit_xor_iff bit_slot_bit bit_minus_1_iff) auto
qed

lemma sext32_clear_slot:
  assumes "sext32 w" and "j < 32"
  shows "sext32 (w AND (0xffffffffffffffff XOR slot_bit j))"
proof (rule sext32I)
  fix k :: nat
  assume "31 < k" and "k < 64"
  then show "bit (w AND (0xffffffffffffffff XOR slot_bit j)) k
      \<longleftrightarrow> bit (w AND (0xffffffffffffffff XOR slot_bit j)) 31"
    using sext32D [OF assms(1), of k] assms(2) by (auto simp only: bit_clear_slot)
qed

lemma sext32_not_full:
  assumes "sext32 w" and "w < 0xffffffffffffffff"
  shows "\<exists>j < 32. \<not> bit w j"
proof (rule ccontr)
  assume "\<not> (\<exists>j < 32. \<not> bit w j)"
  then have "bit w k" if "k < 64" for k
    using that assms(1) by (cases "k < 32") (auto simp: sext32_iff)
  then have "w = - 1"
    by (auto simp: bit_eq_iff bit_imp_le_length)
  with assms(2) show False by simp
qed

lemma sext32_full: "\<not> w < (0xffffffffffffffff :: u64) \<Longrightarrow> j < 32 \<Longrightarrow> bit w j"
proof -
  assume "\<not> w < (0xffffffffffffffff :: u64)" and "j < 32"
  moreover have "(0xffffffffffffffff :: u64) = - 1" by simp
  ultimately have "w = - 1"
    using word_order.extremum_uniqueI [of w] by (simp only: not_less)
  with \<open>j < 32\<close> show ?thesis by simp
qed

subsection \<open>The allocator invariant and the set of taken slots\<close>

definition words_ok :: "pmm \<Rightarrow> bool" where
  "words_ok m \<longleftrightarrow> list_all sext32 (bitmap m)"

definition pmm_inv :: "pmm \<Rightarrow> bool" where
  "pmm_inv m \<longleftrightarrow> unat (num_pages m) div 64 \<le> length (bitmap m) \<and> words_ok m"

definition taken :: "pmm \<Rightarrow> (nat \<times> nat) set" where
  "taken m = {(i, j). i < length (bitmap m) \<and> j < 32 \<and> bit (bitmap m ! i) j}"

definition free_slot :: "pmm \<Rightarrow> nat \<times> nat \<Rightarrow> bool" where
  "free_slot m s \<longleftrightarrow> fst s < unat (num_pages m) div 64 \<and> snd s < 32 \<and> s \<notin> taken m"

definition slot_before :: "nat \<times> nat \<Rightarrow> nat \<times> nat \<Rightarrow> bool" where
  "slot_before s t \<longleftrightarrow> fst s < fst t \<or> (fst s = fst t \<and> snd s < snd t)"

definition slot_paddr :: "nat \<times> nat \<Rightarrow> u64" where
  "slot_paddr s = bitmap_to_paddr (of_nat (snd s)) (of_nat (fst s))"

lemma words_ok_nth: "words_ok m \<Longrightarrow> i < length (bitmap m) \<Longrightarrow> sext32 (bitmap m ! i)"
  by (auto simp: words_ok_def list_all_length)

lemma pmm_inv_words [simp]: "pmm_inv m \<Longrightarrow> words_ok m"
  by (simp add: pmm_inv_def)

lemma pmm_inv_bound: "pmm_inv m \<Longrightarrow> i < unat (num_pages m) div 64 \<Longrightarrow> i < length (bitmap m)"
  by (auto simp: pmm_inv_def)

lemma num_pages_write [simp]: "num_pages (bitmap_write m i w) = num_pages m"
  by (simp add: bitmap_write_def)

lemma length_bitmap_write [simp]: "length (bitmap (bitmap_write m i w)) = length (bitmap m)"
  by (simp add: bitmap_write_def)

lemma words_ok_write: "words_ok m \<Longrightarrow> sext32 w \<Longrightarrow> words_ok (bitmap_write m i w)"
  by (auto simp: words_ok_def bitmap_write_def list_all_iff dest: set_update_subset_insert [THEN subsetD])

lemma pmm_inv_write: "pmm_inv m \<Longrightarrow> sext32 w \<Longrightarrow> pmm_inv (bitmap_write m i w)"
  by (simp add: pmm_inv_def words_ok_write)

lemma taken_write:
  "i < length (bitmap m) \<Longrightarrow>
     taken (bitmap_write m i w) = {s \<in> taken m. fst s \<noteq> i} \<union> {(i, j) | j. j < 32 \<and> bit w j}"
  by (auto simp: taken_def bitmap_write_def nth_list_update split: if_splits)

lemma taken_set_slot:
  "i < length (bitmap m) \<Longrightarrow> j < 32 \<Longrightarrow>
     taken (bitmap_write m i (bitmap m ! i OR slot_bit j)) = insert (i, j) (taken m)"
  by (auto simp: taken_write bit_or_slot_bit) (auto simp: taken_def)

lemma taken_clear_slot:
  "i < length (bitmap m) \<Longrightarrow> j < 32 \<Longrightarrow>
     taken (bitmap_write m i (bitmap m ! i AND (0xffffffffffffffff XOR slot_bit j))) = taken m - {(i, j)}"
  by (auto simp: taken_write bit_clear_slot simp del: word_not_simps) (auto simp: taken_def)

lemma alloc_in_word_first:
  "sext32 w \<Longrightarrow> j0 \<le> j \<Longrightarrow> j < 32 \<Longrightarrow> \<not> bit w j \<Longrightarrow> (\<And>k. j0 \<le> k \<Longrightarrow> k < j \<Longrightarrow> bit w k) \<Longrightarrow>
     alloc_in_word w j0 = Inr (Some j)"
proof (induction w j0 rule: alloc_in_word.induct)
  case (1 w j0)
  show ?case
  proof (cases "j0 = j")
    case True
    with "1.prems" show ?thesis by (simp add: alloc_in_word.simps and_slot_bit)
  next
    case False
    with "1.prems" have "j0 < j" and "bit w j0" by auto
    with "1.prems" have "alloc_in_word w j0 = alloc_in_word w (Suc j0)"
      by (simp add: alloc_in_word.simps [of w j0] and_slot_bit)
    also have "\<dots> = Inr (Some j)"
      using "1.prems" \<open>j0 < j\<close> \<open>bit w j0\<close>
      by (intro "1.IH" [of "slot_bit j0"]) (auto simp: and_slot_bit)
    finally show ?thesis .
  qed
qed

definition first_free :: "pmm \<Rightarrow> nat \<times> nat \<Rightarrow> bool" where
  "first_free m s \<longleftrightarrow> free_slot m s \<and> (\<forall>t. slot_before t s \<longrightarrow> \<not> free_slot m t)"

lemma free_slot_iff:
  "pmm_inv m \<Longrightarrow> free_slot m (i, j) \<longleftrightarrow>
     i < unat (num_pages m) div 64 \<and> j < 32 \<and> \<not> bit (bitmap m ! i) j"
  using pmm_inv_bound by (auto simp: free_slot_def taken_def)

lemma pmm_alloc_from_first:
  assumes "pmm_inv m" and "first_free m (i, j)" and "i0 \<le> i"
  shows "pmm_alloc_from m i0 =
    Inr (slot_paddr (i, j), bitmap_write m i (bitmap m ! i OR slot_bit j))"
  using assms
proof (induction m i0 rule: pmm_alloc_from.induct)
  case (1 m i0)
  let ?w = "bitmap m ! i0"
  from "1.prems" have ij: "i < unat (num_pages m) div 64" "j < 32" "\<not> bit (bitmap m ! i) j"
    by (auto simp: first_free_def free_slot_iff)
  with "1.prems" have i0: "i0 < unat (num_pages m) div 64" by simp
  with "1.prems" have rd: "bitmap_read m i0 = Inr ?w" and sx: "sext32 ?w"
    by (auto simp: bitmap_read_def pmm_inv_bound words_ok_nth)
  show ?case
  proof (cases "i0 = i")
    case True
    have "?w < 0xffffffffffffffff" using ij True sext32_full by blast
    moreover have "alloc_in_word ?w 0 = Inr (Some j)"
    proof (rule alloc_in_word_first)
      show "bit ?w k" if "k < j" for k
        using that "1.prems" True ij
        by (force simp: first_free_def free_slot_iff slot_before_def)
    qed (use sx ij True in auto)
    ultimately show ?thesis
      using i0 rd ij True by (simp add: pmm_alloc_from.simps [of m i] slot_paddr_def)
  next
    case False
    with "1.prems" have "i0 < i" by simp
    then have full: "bit ?w k" if "k < 32" for k
      using that "1.prems" i0 by (force simp: first_free_def free_slot_iff slot_before_def)
    then have "\<not> ?w < 0xffffffffffffffff" using sext32_not_full [OF sx] by blast
    then have "pmm_alloc_from m i0 = pmm_alloc_from m (Suc i0)"
      using i0 rd by (simp add: pmm_alloc_from.simps [of m i0])
    also have "\<dots> = Inr (slot_paddr (i, j), bitmap_write m i (bitmap m ! i OR slot_bit j))"
      using "1.prems" i0 rd \<open>\<not> ?w < 0xffffffffffffffff\<close> \<open>i0 < i\<close> by (intro "1.IH"(2)) auto
    finally show ?thesis .
  qed
qed

lemma pmm_alloc_from_none:
  assumes "pmm_inv m" and "\<And>s. \<not> free_slot m s"
  shows "pmm_alloc_from m i0 = Inr (0, m)"
  using assms
proof (induction m i0 rule: pmm_alloc_from.induct)
  case (1 m i0)
  show ?case
  proof (cases "i0 < unat (num_pages m) div 64")
    case True
    let ?w = "bitmap m ! i0"
    from True "1.prems" have rd: "bitmap_read m i0 = Inr ?w" and sx: "sext32 ?w"
      by (auto simp: bitmap_read_def pmm_inv_bound words_ok_nth)
    have "bit ?w k" if "k < 32" for k
      using that "1.prems"(1) "1.prems"(2) [of "(i0, k)"] True by (simp add: free_slot_iff)
    then have nf: "\<not> ?w < 0xffffffffffffffff" using sext32_not_full [OF sx] by blast
    with True rd show ?thesis
      using "1.IH"(2) [OF True rd nf "1.prems"] by (simp add: pmm_alloc_from.simps [of m i0])
  qed (simp add: pmm_alloc_from.simps [of m i0])
qed

lemma first_free_exists: "free_slot m s \<Longrightarrow> \<exists>t. first_free m t"
proof -
  assume "free_slot m s"
  then obtain t where t: "free_slot m t"
      and least: "\<And>u. free_slot m u \<Longrightarrow> 32 * fst t + snd t \<le> 32 * fst u + snd u"
    using ex_has_least_nat [of "free_slot m" s "\<lambda>s. 32 * fst s + snd s"] by blast
  have "\<not> free_slot m u" if "slot_before u t" for u
  proof
    assume u: "free_slot m u"
    have "snd u < 32" "snd t < 32" using u t by (simp_all add: free_slot_def)
    with least [OF u] that show False by (auto simp: slot_before_def)
  qed
  with t show ?thesis unfolding first_free_def by blast
qed

lemma pmm_alloc_page_first:
  assumes "pmm_inv m" and "first_free m s"
  shows "\<exists>m'. pmm_alloc_page m = Inr (slot_paddr s, m') \<and> taken m' = insert s (taken m) \<and>
    num_pages m' = num_pages m \<and> length (bitmap m') = length (bitmap m) \<and> pmm_inv m'"
proof -
  obtain i j where s: "s = (i, j)" by (cases s)
  with assms have ij: "i < length (bitmap m)" "j < 32"
    by (auto simp: first_free_def free_slot_def pmm_inv_bound)
  moreover have "pmm_inv (bitmap_write m i (bitmap m ! i OR slot_bit j))"
    using assms(1) ij by (simp add: pmm_inv_write words_ok_nth sext32_or_slot_bit)
  ultimately show ?thesis
    using pmm_alloc_from_first [OF assms(1), of i j 0] assms(2) s
    by (simp add: pmm_alloc_page_def taken_set_slot)
qed

lemma slot_paddr_unat:
  assumes "fst s < 0x8000" and "snd s < 32"
  shows "unat (slot_paddr s) = 0x1000 * (32 * fst s + snd s)"
proof -
  let ?n = "0x1000 * (32 * fst s + snd s)"
  have "(of_nat (snd s) * 0x1000 + of_nat (fst s) * 0x20000 :: u32) = of_nat ?n"
    by (simp add: algebra_simps)
  moreover have "unat (of_nat ?n :: u32) = ?n"
    using assms by (intro unat_of_nat_small) simp
  ultimately show ?thesis
    by (simp only: slot_paddr_def bitmap_to_paddr_def) simp
qed

lemma slot_paddr_inj:
  "fst s < 0x8000 \<Longrightarrow> snd s < 32 \<Longrightarrow> fst t < 0x8000 \<Longrightarrow> snd t < 32 \<Longrightarrow>
     slot_paddr s = slot_paddr t \<longleftrightarrow> s = t"
proof
  assume *: "fst s < 0x8000" "snd s < 32" "fst t < 0x8000" "snd t < 32" "slot_paddr s = slot_paddr t"
  then have "32 * fst s + snd s = 32 * fst t + snd t"
    using slot_paddr_unat [of s] slot_paddr_unat [of t] by simp
  then have "(32 * fst s + snd s) div 32 = (32 * fst t + snd t) div 32"
      and "(32 * fst s + snd s) mod 32 = (32 * fst t + snd t) mod 32" by simp_all
  with * show "s = t" by (simp add: prod_eq_iff)
qed simp


subsection \<open>The allocator as a source of fresh frames\<close>

definition free_slots :: "pmm \<Rightarrow> (nat \<times> nat) set" where
  "free_slots m = {s. free_slot m s}"

definition frames_in_use :: "pmm \<Rightarrow> u64 set" where
  "frames_in_use m = slot_paddr ` taken m"

lemma finite_free_slots: "finite (free_slots m)"
proof (rule finite_subset)
  show "free_slots m \<subseteq> {..< unat (num_pages m) div 64} \<times> {..< 32}"
    by (auto simp: free_slots_def free_slot_def)
qed simp

lemma free_slots_alloc:
  "taken m' = insert s (taken m) \<Longrightarrow> num_pages m' = num_pages m \<Longrightarrow> free_slots m' = free_slots m - {s}"
  by (auto simp: free_slots_def free_slot_def)

lemma pmm_alloc_page_fresh:
  assumes "pmm_inv m" and "length (bitmap m) \<le> 0x8000" and "0 < card (free_slots m)"
  shows "\<exists>a m'. pmm_alloc_page m = Inr (a, m') \<and> a \<notin> frames_in_use m \<and>
    frames_in_use m' = insert a (frames_in_use m) \<and> card (free_slots m') = card (free_slots m) - 1 \<and>
    pmm_inv m' \<and> length (bitmap m') \<le> 0x8000"
proof -
  from assms(3) obtain s0 where "free_slot m s0"
    by (metis card.empty equals0I free_slots_def less_irrefl mem_Collect_eq)
  then obtain s where s: "first_free m s" using first_free_exists by blast
  then have fs: "s \<in> free_slots m" "s \<notin> taken m" "fst s < 0x8000" "snd s < 32"
    using assms(1,2) pmm_inv_bound [of m "fst s"]
    by (auto simp: first_free_def free_slot_def free_slots_def)
  obtain m' where m': "pmm_alloc_page m = Inr (slot_paddr s, m')" "taken m' = insert s (taken m)"
      "num_pages m' = num_pages m" "length (bitmap m') = length (bitmap m)" "pmm_inv m'"
    using pmm_alloc_page_first [OF assms(1) s] by blast
  have "slot_paddr s \<notin> frames_in_use m"
    using fs assms(2) by (auto simp: frames_in_use_def taken_def slot_paddr_inj)
  moreover have "card (free_slots m') = card (free_slots m) - 1"
    using free_slots_alloc [OF m'(2,3)] fs(1) finite_free_slots by simp
  ultimately show ?thesis using m' assms(2) by (auto simp: frames_in_use_def)
qed

interpretation frames: fresh_allocator pmm_alloc_page frames_in_use "\<lambda>m. card (free_slots m)"
  "\<lambda>m. pmm_inv m \<and> length (bitmap m) \<le> 0x8000"
  by unfold_locales (use pmm_alloc_page_fresh in blast)

lemma free_slot_served:
  "pmm_inv m \<Longrightarrow> free_slot m s \<Longrightarrow>
     \<exists>n xs m'. alloc_many pmm_alloc_page n m = Inr (xs, m') \<and> slot_paddr s \<in> set xs"
proof (induction "card (free_slots m)" arbitrary: m)
  case 0
  then have "free_slots m = {}" using finite_free_slots [of m] by simp
  with "0.prems"(2) show ?case unfolding free_slots_def by blast
next
  case (Suc k)
  obtain t where t: "first_free m t" using first_free_exists [OF Suc.prems(2)] by blast
  then obtain m1 where m1: "pmm_alloc_page m = Inr (slot_paddr t, m1)" "taken m1 = insert t (taken m)"
      "num_pages m1 = num_pages m" "pmm_inv m1"
    using pmm_alloc_page_first [OF Suc.prems(1)] by blast
  show ?case
  proof (cases "s = t")
    case True
    with m1 have "alloc_many pmm_alloc_page (Suc 0) m = Inr ([slot_paddr s], m1)" by simp
    then show ?thesis by (metis list.set_intros(1))
  next
    case False
    have "t \<in> free_slots m" using t by (simp add: first_free_def free_slots_def)
    then have "k = card (free_slots m1)"
      using Suc.hyps(2) free_slots_alloc [OF m1(2,3)] finite_free_slots [of m] by simp
    moreover have "free_slot m1 s"
      using Suc.prems(2) False m1 by (simp add: free_slot_def)
    ultimately obtain n xs m2 where "alloc_many pmm_alloc_page n m1 = Inr (xs, m2)" "slot_paddr s \<in> set xs"
      using Suc.hyps(1) [OF _ m1(4)] by blast
    with m1 have "alloc_many pmm_alloc_page (Suc n) m = Inr (slot_paddr t # xs, m2)" by simp
    with \<open>slot_paddr s \<in> set xs\<close> show ?thesis by (metis list.set_intros(2))
  qed
qed

subsection \<open>Operations on a given page\<close>

definition page_slot :: "u64 \<Rightarrow> nat \<times> nat" where
  "page_slot p = (unat p div 0x1000 div 64, unat p div 0x1000 mod 64)"

lemma paddr_to_bitmap_unat:
  assumes "unat p div 0x1000 div 64 < 2 ^ 32"
  shows "unat (bc_y (paddr_to_bitmap p)) = fst (page_slot p)"
    and "unat (bc_x (paddr_to_bitmap p)) = snd (page_slot p)"
proof -
  have "unat p div 0x1000 mod 64 < 256" using mod_less_divisor [of 64 "unat p div 0x1000"] by linarith
  then show "unat (bc_x (paddr_to_bitmap p)) = snd (page_slot p)"
    by (simp add: paddr_to_bitmap_def Let_def page_slot_def unsigned_ucast_eq unat_div_distrib unat_mod_distrib
        take_bit_eq_mod)
  show "unat (bc_y (paddr_to_bitmap p)) = fst (page_slot p)"
    using assms
    by (simp add: paddr_to_bitmap_def Let_def page_slot_def unsigned_ucast_eq unat_div_distrib take_bit_eq_mod)
qed


definition low_page :: "pmm \<Rightarrow> u64 \<Rightarrow> bool" where
  "low_page m p \<longleftrightarrow> fst (page_slot p) < length (bitmap m) \<and> length (bitmap m) \<le> 2 ^ 32 \<and> snd (page_slot p) < 32"

lemma low_page_access:
  assumes "low_page m p"
  shows "bitmap_read m (unat (bc_y (paddr_to_bitmap p))) = Inr (bitmap m ! fst (page_slot p))"
    and "int_bit (unat (bc_x (paddr_to_bitmap p))) = Inr (slot_bit (snd (page_slot p)))"
    and "unat (bc_y (paddr_to_bitmap p)) = fst (page_slot p)"
proof -
  from assms have "unat p div 0x1000 div 64 < 2 ^ 32"
    unfolding low_page_def page_slot_def by simp
  note u = paddr_to_bitmap_unat [OF this]
  from assms show "bitmap_read m (unat (bc_y (paddr_to_bitmap p))) = Inr (bitmap m ! fst (page_slot p))"
    and "int_bit (unat (bc_x (paddr_to_bitmap p))) = Inr (slot_bit (snd (page_slot p)))"
    and "unat (bc_y (paddr_to_bitmap p)) = fst (page_slot p)"
    by (simp_all only: u) (simp_all add: low_page_def bitmap_read_def)
qed

lemma taken_page_slot:
  "low_page m p \<Longrightarrow> page_slot p \<in> taken m \<longleftrightarrow> bit (bitmap m ! fst (page_slot p)) (snd (page_slot p))"
  by (cases "page_slot p") (simp add: taken_def low_page_def)

lemma pmm_check_page_taken_eq:
  assumes "words_ok m" and "low_page m p"
  shows "pmm_check_page_taken m p = Inr (page_slot p \<in> taken m)"
  using assms low_page_access [OF assms(2)]
  by (simp add: pmm_check_page_taken_def Let_def taken_page_slot word_neq_0_conv [symmetric]
      and_slot_bit words_ok_nth low_page_def)

lemma pmm_alloc_specific_page_eq:
  assumes "words_ok m" and "low_page m p"
  shows "\<exists>m'. pmm_alloc_specific_page m p = Inr (page_slot p \<in> taken m, m') \<and>
    taken m' = insert (page_slot p) (taken m) \<and> words_ok m' \<and> num_pages m' = num_pages m \<and>
    length (bitmap m') = length (bitmap m)"
proof -
  obtain i j where ij: "page_slot p = (i, j)" by (cases "page_slot p")
  from assms ij have r: "i < length (bitmap m)" "j < 32" "sext32 (bitmap m ! i)"
    by (auto simp: low_page_def words_ok_nth)
  show ?thesis
    using assms low_page_access [OF assms(2)] ij r taken_page_slot [OF assms(2)]
    by (auto simp: pmm_alloc_specific_page_def Let_def and_slot_bit taken_set_slot words_ok_write
        sext32_or_slot_bit)
qed

lemma pmm_free_page_eq:
  assumes "words_ok m" and "low_page m p"
  shows "\<exists>m'. pmm_free_page m p = Inr m' \<and> taken m' = taken m - {page_slot p} \<and> words_ok m' \<and>
    num_pages m' = num_pages m \<and> length (bitmap m') = length (bitmap m)"
proof -
  obtain i j where ij: "page_slot p = (i, j)" by (cases "page_slot p")
  from assms ij have r: "i < length (bitmap m)" "j < 32" "sext32 (bitmap m ! i)"
    by (auto simp: low_page_def words_ok_nth)
  let ?m = "bitmap_write m i (bitmap m ! i AND (0xffffffffffffffff XOR slot_bit j))"
  have "pmm_free_page m p = Inr ?m"
    using low_page_access [OF assms(2)] ij by (simp only: pmm_free_page_def Let_def) simp
  moreover have "taken ?m = taken m - {(i, j)}" using r by (intro taken_clear_slot)
  moreover have "words_ok ?m" using assms(1) r by (intro words_ok_write sext32_clear_slot)
  ultimately show ?thesis
    unfolding ij by (intro exI [of _ ?m] conjI) (simp_all only: num_pages_write length_bitmap_write)
qed


subsection \<open>Marking ranges and initialisation\<close>

lemma low_page_cong: "length (bitmap m') = length (bitmap m) \<Longrightarrow> low_page m' p = low_page m p"
  by (simp add: low_page_def)

lemma page_loop_marks:
  "words_ok m \<Longrightarrow> (\<And>k. k < n \<Longrightarrow> low_page m (p + of_nat k * 0x1000) \<and> c (p + of_nat k * 0x1000)) \<Longrightarrow>
   \<not> c (p + of_nat n * 0x1000) \<Longrightarrow> n < fuel \<Longrightarrow>
   \<exists>m'. page_loop fuel c mark_page p m = Inr m' \<and> words_ok m' \<and> num_pages m' = num_pages m \<and>
     length (bitmap m') = length (bitmap m) \<and>
     taken m' = taken m \<union> (\<lambda>k. page_slot (p + of_nat k * 0x1000)) ` {..< n}"
proof (induction n arbitrary: m p fuel)
  case 0
  then show ?case by (cases fuel) auto
next
  case (Suc n)
  obtain f where f: "fuel = Suc f" using Suc.prems(4) by (cases fuel) auto
  have p0: "low_page m p" "c p" using Suc.prems(2) [of 0] by simp_all
  obtain m1 where m1: "pmm_alloc_specific_page m p = Inr (page_slot p \<in> taken m, m1)"
      "taken m1 = insert (page_slot p) (taken m)" "words_ok m1" "num_pages m1 = num_pages m"
      "length (bitmap m1) = length (bitmap m)"
    using pmm_alloc_specific_page_eq [OF Suc.prems(1) p0(1)] by blast
  have sh: "p + 0x1000 + of_nat k * 0x1000 = p + of_nat (Suc k) * 0x1000" for k
    by (simp add: algebra_simps)
  have "\<exists>m'. page_loop f c mark_page (p + 0x1000) m1 = Inr m' \<and> words_ok m' \<and>
      num_pages m' = num_pages m1 \<and> length (bitmap m') = length (bitmap m1) \<and>
      taken m' = taken m1 \<union> (\<lambda>k. page_slot (p + 0x1000 + of_nat k * 0x1000)) ` {..< n}"
    using Suc.prems(2) [of "Suc _"] Suc.prems(3,4) m1(3) f
    by (intro Suc.IH) (simp_all only: sh low_page_cong [OF m1(5)], simp_all)
  then obtain m2 where "page_loop f c mark_page (p + 0x1000) m1 = Inr m2" "words_ok m2"
      "num_pages m2 = num_pages m1" "length (bitmap m2) = length (bitmap m1)"
      "taken m2 = taken m1 \<union> (\<lambda>k. page_slot (p + 0x1000 + of_nat k * 0x1000)) ` {..< n}"
    by blast
  moreover have "mark_page p m = Inr m1" by (simp add: mark_page_def m1(1))
  ultimately show ?case
    using m1 p0 f
    by (simp add: PAGE_SIZE_def sh lessThan_Suc_eq_insert_0 image_image del: of_nat_Suc)
qed


lemma mark_reserved_skips:
  assumes "rl_length l < length (rl_entries l)"
    and "\<And>i. i < rl_length l \<Longrightarrow> unat (me_addr (rl_entries l ! i)) + unat (me_len (rl_entries l ! i)) < 2 ^ 64"
    and "me_addr (rl_entries l ! rl_length l) + me_len (rl_entries l ! rl_length l) < 0x8000000"
    and "0 < n" and "i \<le> rl_length l"
  shows "mark_reserved n l m i = Inr m"
  using assms
proof (induction "rl_length l - i" arbitrary: i)
  case 0
  then have i: "i = rl_length l" by simp
  have "\<not> me_addr (rl_entries l ! i) + me_len (rl_entries l ! i) \<ge> 0x8000000"
    using "0.prems"(3) i by (simp add: not_le)
  with "0.prems"(1) i show ?case by (simp add: mark_reserved.simps [of n l m "rl_length l"] entry_at_def)
next
  case (Suc k)
  let ?e = "rl_entries l ! i"
  from Suc have i: "i < rl_length l" by simp
  with Suc.prems(2) have "me_addr ?e \<le> me_addr ?e + me_len ?e"
    by (simp add: word_le_nat_alt unat_word_ariths)
  then have "page_loop n (\<lambda>p. p > me_addr ?e + me_len ?e) mark_page (me_addr ?e) m = Inr m"
    using \<open>0 < n\<close> by (cases n) (auto simp: not_less)
  moreover have "mark_reserved n l m (Suc i) = Inr m"
    using Suc i by (intro Suc.hyps(1)) auto
  ultimately show ?case
    using i Suc.prems(1) by (simp add: mark_reserved.simps [of n l m i] entry_at_def)
qed

lemma kernel_slots:
  assumes "k < 32"
  shows "page_slot (0x100000 + of_nat k * 0x1000) = (4, k)"
proof -
  have "(0x100000 + of_nat k * 0x1000 :: u64) = of_nat (0x100000 + k * 0x1000)" by simp
  moreover have "unat (of_nat (0x100000 + k * 0x1000) :: u64) = 0x100000 + k * 0x1000"
    using assms by (intro unat_of_nat_small) simp
  ultimately have "unat (0x100000 + of_nat k * 0x1000 :: u64) div 0x1000 = k + 4 * 64" by simp
  moreover have "(k + 4 * 64) div 64 = 4" and "(k + 4 * 64) mod 64 = k"
    using assms by (simp_all only: div_mult_self1 mod_mult_self1) simp_all
  ultimately show ?thesis by (simp only: page_slot_def)
qed

lemma mark_kernel:
  assumes "words_ok m" and "4 < length (bitmap m)" and "length (bitmap m) \<le> 2 ^ 32"
    and "N \<le> 32" and "N < n"
  shows "\<exists>m'. page_loop n (\<lambda>p. p < 0x100000 + of_nat N * 0x1000) mark_page 0x100000 m = Inr m' \<and>
    words_ok m' \<and> num_pages m' = num_pages m \<and> length (bitmap m') = length (bitmap m) \<and>
    taken m' = taken m \<union> {4} \<times> {..< N}"
proof -
  have u: "unat (0x100000 + of_nat j * 0x1000 :: u64) = 0x100000 + j * 0x1000" if "j \<le> N" for j
  proof -
    have "(0x100000 + of_nat j * 0x1000 :: u64) = of_nat (0x100000 + j * 0x1000)" by simp
    then show ?thesis using that assms(4) unat_of_nat_small [of "0x100000 + j * 0x1000", where 'a = 64] by simp
  qed
  have "\<exists>m'. page_loop n (\<lambda>p. p < 0x100000 + of_nat N * 0x1000) mark_page 0x100000 m = Inr m' \<and>
      words_ok m' \<and> num_pages m' = num_pages m \<and> length (bitmap m') = length (bitmap m) \<and>
      taken m' = taken m \<union> (\<lambda>j. page_slot (0x100000 + of_nat j * 0x1000)) ` {..< N}"
    using assms
    by (intro page_loop_marks) (auto simp: low_page_def kernel_slots word_less_nat_alt u)
  moreover have "(\<lambda>j. page_slot (0x100000 + of_nat j * 0x1000)) ` {..< N} = {4} \<times> {..< N}"
    using assms(4) by (auto simp: kernel_slots image_iff)
  ultimately show ?thesis by simp
qed

text \<open>What the boot code and the memory map provide when \<open>pmm_init\<close> runs.\<close>

definition plain_reserved :: "mmap_region_list_t \<Rightarrow> bool" where
  "plain_reserved l \<longleftrightarrow> rl_length l < length (rl_entries l) \<and>
     (\<forall>i < rl_length l. unat (me_addr (rl_entries l ! i)) + unat (me_len (rl_entries l ! i)) < 2 ^ 64) \<and>
     me_addr (rl_entries l ! rl_length l) + me_len (rl_entries l ! rl_length l) < 0x8000000"

lemma pmm_init_before_lengthen:
  assumes "plain_reserved l" and "length (bitmap m) = 512" and "k + 2 \<le> 32" and "k + 2 < n"
  shows "\<exists>m3. words_ok m3 \<and> length (bitmap m3) = 512 \<and> taken m3 = {4} \<times> {..< k + 2} \<and>
    pmm_init n lengthen l 0x100000 (of_nat k * 0x1000) (m, e) =
      bindE (lengthen KERNEL_PMM_START 0x117000 (m3, e))
        (\<lambda>(ok, m4, e4). if ok then Inr (m4, e4) else Inr (m4\<lparr>num_pages := 8 * 0x1000\<rparr>, e4))"
proof -
  let ?m1 = "m\<lparr>num_pages := TMP_PMM_BYTE_SIZE * 8, bitmap := replicate 512 0\<rparr>"
  have clr: "bitmap_clear_page (m\<lparr>num_pages := TMP_PMM_BYTE_SIZE * 8\<rparr>) = Inr ?m1"
    using assms(2) by (simp add: bitmap_clear_page_def)
  have res: "mark_reserved n l ?m1 0 = Inr ?m1"
    using assms(1,4) by (intro mark_reserved_skips) (auto simp: plain_reserved_def)
  have w1: "words_ok ?m1" "taken ?m1 = {}"
    by (auto simp: words_ok_def taken_def sext32_def list_all_iff nth_append)
  obtain m3 where m3: "page_loop n (\<lambda>p. p < 0x100000 + of_nat (k + 2) * 0x1000) mark_page 0x100000 ?m1 = Inr m3"
      "words_ok m3" "length (bitmap m3) = 512" "taken m3 = {4} \<times> {..< k + 2}"
    using mark_kernel [OF w1(1), of "k + 2" n] assms(3,4) w1(2) by auto
  have "of_nat k * 0x1000 + 0x100000 + PAGE_SIZE * 2 = (0x100000 + of_nat (k + 2) * 0x1000 :: u64)"
    by (simp add: PAGE_SIZE_def algebra_simps)
  then have "pmm_init n lengthen l 0x100000 (of_nat k * 0x1000) (m, e) =
      bindE (lengthen KERNEL_PMM_START 0x117000 (m3, e))
        (\<lambda>(ok, m4, e4). if ok then Inr (m4, e4) else Inr (m4\<lparr>num_pages := 8 * 0x1000\<rparr>, e4))"
    using clr res m3(1)
    by (simp add: pmm_init_def Let_def TMP_PMM_BYTE_SIZE_def KERNEL_HEAP_START_def KERNEL_PMM_START_def
        VGA_TEXT_BUFFER_BASE_def PAGE_SIZE_def)
  with m3 show ?thesis by blast
qed


lemma page_slot_of_slot:
  assumes "i < 0x8000" and "j < 32"
  shows "page_slot (slot_paddr (i, j)) = (i div 2, j + 32 * (i mod 2))"
proof -
  have "unat (slot_paddr (i, j)) div 0x1000 = 32 * i + j"
    using slot_paddr_unat [of "(i, j)"] assms by simp
  moreover have "(32 * i + j) div 64 = i div 2"
  proof -
    have "(32 * i + j) div 64 = (32 * i + j) div 32 div 2" by (simp add: div_mult2_eq [symmetric])
    then show ?thesis using assms(2) by simp
  qed
  moreover have "(32 * i + j) mod 64 = j + 32 * (i mod 2)"
  proof -
    have "(32 * i + j) mod (32 * 2) = 32 * ((32 * i + j) div 32 mod 2) + (32 * i + j) mod 32"
      by (rule mod_mult2_eq)
    then show ?thesis using assms(2) by simp
  qed
  ultimately show ?thesis by (simp add: page_slot_def)
qed

subsection \<open>Runs of the allocator\<close>

inductive pmm_step :: "pmm \<Rightarrow> pmm \<Rightarrow> bool" where
  alloc: "pmm_alloc_page m = Inr (p, m') \<Longrightarrow> pmm_step m m'"
| specific: "pmm_alloc_specific_page m p = Inr (b, m') \<Longrightarrow> pmm_step m m'"
| free: "pmm_free_page m p = Inr m' \<Longrightarrow> pmm_step m m'"

lemma int_bit_Inr: "int_bit x = Inr b \<longleftrightarrow> x < 32 \<and> b = slot_bit x"
  by (auto simp: int_bit_def slot_bit_def)

lemma bitmap_read_Inr: "bitmap_read m i = Inr w \<longleftrightarrow> i < length (bitmap m) \<and> w = bitmap m ! i"
  by (auto simp: bitmap_read_def)

lemma pmm_inv_specific: "pmm_alloc_specific_page m p = Inr (b, m') \<Longrightarrow> pmm_inv m \<Longrightarrow> pmm_inv m'"
  by (auto simp: pmm_alloc_specific_page_def Let_def bindE_eq_Inr int_bit_Inr bitmap_read_Inr
      intro!: pmm_inv_write sext32_or_slot_bit words_ok_nth split: if_splits)

lemma pmm_inv_free: "pmm_free_page m p = Inr m' \<Longrightarrow> pmm_inv m \<Longrightarrow> pmm_inv m'"
  unfolding pmm_free_page_def Let_def bindE_eq_Inr int_bit_Inr bitmap_read_Inr
  by (clarsimp simp del: word_not_simps) (intro pmm_inv_write sext32_clear_slot words_ok_nth; simp)

section \<open>Properties of the page allocator\<close>

lemma pmm_alloc_page_total:
  assumes "pmm_inv m"
  shows "\<exists>p m'. pmm_alloc_page m = Inr (p, m') \<and> pmm_inv m'"
proof (cases "free_slots m = {}")
  case True
  then have "pmm_alloc_page m = Inr (0, m)"
    unfolding pmm_alloc_page_def by (intro pmm_alloc_from_none assms) (auto simp: free_slots_def)
  with assms show ?thesis by blast
next
  case False
  then obtain s where "first_free m s"
    using first_free_exists unfolding free_slots_def by blast
  with pmm_alloc_page_first [OF assms] show ?thesis by blast
qed

text \<open>
  C6. \<open>pmm_alloc_page\<close> is first fit and total: under the invariant it never reaches the undefined
  shift, it returns the frame of the first free slot in scanning order and takes exactly that slot,
  and it returns 0 and leaves the bitmap alone when no slot is free.
\<close>

theorem pmm_alloc_page_first_fit:
  assumes "pmm_inv m"
  shows "(\<exists>s m'. first_free m s \<and> pmm_alloc_page m = Inr (slot_paddr s, m') \<and>
            taken m' = insert s (taken m) \<and> num_pages m' = num_pages m \<and> pmm_inv m') \<or>
         (free_slots m = {} \<and> pmm_alloc_page m = Inr (0, m))"
proof (cases "free_slots m = {}")
  case True
  then have "pmm_alloc_page m = Inr (0, m)"
    unfolding pmm_alloc_page_def by (intro pmm_alloc_from_none assms) (auto simp: free_slots_def)
  with True show ?thesis by blast
next
  case False
  then obtain s where "first_free m s"
    using first_free_exists unfolding free_slots_def by blast
  with pmm_alloc_page_first [OF assms] show ?thesis by blast
qed

definition small_pmm :: pmm where
  "small_pmm = \<lparr>num_pages = 128, bitmap = [1, 0]\<rparr>"

lemma small_pmm_inv: "pmm_inv small_pmm"
  by (simp add: pmm_inv_def words_ok_def small_pmm_def sext32_def)

theorem pmm_alloc_page_first_fit_witness:
  "pmm_inv small_pmm \<and>
   ((\<exists>s m'. first_free small_pmm s \<and> pmm_alloc_page small_pmm = Inr (slot_paddr s, m') \<and>
            taken m' = insert s (taken small_pmm) \<and> num_pages m' = num_pages small_pmm \<and> pmm_inv m') \<or>
    (free_slots small_pmm = {} \<and> pmm_alloc_page small_pmm = Inr (0, small_pmm)))"
  using small_pmm_inv pmm_alloc_page_first_fit [OF small_pmm_inv] by blast

text \<open>
  C16. As long as free slots remain, \<open>n\<close> calls of \<open>pmm_alloc_page\<close> return \<open>n\<close> pairwise different
  frames, none of them in use before (for bitmaps of at most 0x8000 words: 4 GiB of frames).
\<close>

theorem pmm_alloc_page_distinct:
  assumes "pmm_inv m" and "length (bitmap m) \<le> 0x8000" and "n \<le> card (free_slots m)"
  shows "\<exists>xs m'. alloc_many pmm_alloc_page n m = Inr (xs, m') \<and> length xs = n \<and> distinct xs \<and>
    set xs \<inter> frames_in_use m = {} \<and> frames_in_use m' = frames_in_use m \<union> set xs \<and> pmm_inv m'"
  using frames.alloc_many_distinct [of m n] assms by blast

lemma small_pmm_room: "2 \<le> card (free_slots small_pmm)"
proof -
  have "{(0, 1), (1, 0)} \<subseteq> free_slots small_pmm"
    by (auto simp: free_slots_def free_slot_def taken_def small_pmm_def)
  then have "card {(0, 1), (1 :: nat, 0 :: nat)} \<le> card (free_slots small_pmm)"
    by (rule card_mono [OF finite_free_slots])
  then show ?thesis by simp
qed

theorem pmm_alloc_page_distinct_witness:
  "pmm_inv small_pmm \<and> length (bitmap small_pmm) \<le> 0x8000 \<and> 2 \<le> card (free_slots small_pmm) \<and>
   (\<exists>xs m'. alloc_many pmm_alloc_page 2 small_pmm = Inr (xs, m') \<and> length xs = 2 \<and> distinct xs \<and>
    set xs \<inter> frames_in_use small_pmm = {} \<and>
    frames_in_use m' = frames_in_use small_pmm \<union> set xs \<and> pmm_inv m')"
proof -
  have len: "length (bitmap small_pmm) \<le> 0x8000" by (simp add: small_pmm_def)
  show ?thesis
    using small_pmm_inv len small_pmm_room pmm_alloc_page_distinct [OF small_pmm_inv len small_pmm_room]
    by blast
qed

text \<open>
  For a page in the lower half of its bitmap word, \<open>pmm_check_page_taken\<close> reads, \<open>pmm_alloc_specific_page\<close>
  tests and sets, and \<open>pmm_free_page\<close> clears exactly the slot of that page.
\<close>

theorem pmm_page_operations:
  assumes "pmm_inv m" and "low_page m p"
  shows "pmm_check_page_taken m p = Inr (page_slot p \<in> taken m) \<and>
    (\<exists>m'. pmm_alloc_specific_page m p = Inr (page_slot p \<in> taken m, m') \<and>
       taken m' = insert (page_slot p) (taken m) \<and> pmm_inv m') \<and>
    (\<exists>m'. pmm_free_page m p = Inr m' \<and> taken m' = taken m - {page_slot p} \<and> pmm_inv m')"
proof -
  have inv: "pmm_inv m'" if "words_ok m'" "num_pages m' = num_pages m" "length (bitmap m') = length (bitmap m)" for m'
    using assms(1) that by (simp add: pmm_inv_def)
  have w: "words_ok m" using assms(1) by simp
  show ?thesis
    using pmm_check_page_taken_eq [OF w assms(2)] pmm_alloc_specific_page_eq [OF w assms(2)]
      pmm_free_page_eq [OF w assms(2)] inv by blast
qed

theorem pmm_page_operations_witness:
  "pmm_inv small_pmm \<and> low_page small_pmm 0x41000 \<and>
   pmm_check_page_taken small_pmm 0x41000 = Inr False \<and>
   (\<exists>m'. pmm_alloc_specific_page small_pmm 0x41000 = Inr (False, m') \<and>
       taken m' = insert (page_slot 0x41000) (taken small_pmm) \<and> pmm_inv m') \<and>
   (\<exists>m'. pmm_free_page small_pmm 0x41000 = Inr m' \<and>
       taken m' = taken small_pmm - {page_slot 0x41000} \<and> pmm_inv m')"
proof -
  have low: "low_page small_pmm 0x41000" by (simp add: low_page_def page_slot_def small_pmm_def)
  have "page_slot 0x41000 \<notin> taken small_pmm" by (simp add: taken_def page_slot_def small_pmm_def)
  with small_pmm_inv low pmm_page_operations [OF small_pmm_inv low] show ?thesis by simp
qed




text \<open>
  C19. Every state reached from a well-formed bitmap by any sequence of page operations, on any
  arguments, keeps the invariant (bits 31 to 63 of each word agree), so an allocation never hits
  the undefined shift or an unmapped bitmap word.
\<close>

theorem pmm_runs_keep_invariant:
  assumes "pmm_step\<^sup>*\<^sup>* m m'" and "pmm_inv m"
  shows "pmm_inv m' \<and> (\<exists>p m''. pmm_alloc_page m' = Inr (p, m''))"
proof -
  have "pmm_inv m'"
    using assms
  proof (induction rule: rtranclp_induct)
    case (step y z)
    then have "pmm_inv y" by simp
    with step.hyps(2) show ?case
    proof (cases rule: pmm_step.cases)
      case (alloc p)
      with pmm_alloc_page_total [OF \<open>pmm_inv y\<close>] show ?thesis by auto
    qed (simp_all add: pmm_inv_specific pmm_inv_free)
  qed
  with pmm_alloc_page_total show ?thesis by blast
qed

theorem pmm_runs_keep_invariant_witness:
  "\<exists>m'. pmm_step\<^sup>*\<^sup>* small_pmm m' \<and> m' \<noteq> small_pmm \<and> pmm_inv small_pmm \<and> pmm_inv m' \<and>
    (\<exists>p m''. pmm_alloc_page m' = Inr (p, m''))"
proof -
  have low: "low_page small_pmm 0x41000" by (simp add: low_page_def page_slot_def small_pmm_def)
  obtain m' where m': "pmm_alloc_specific_page small_pmm 0x41000 = Inr (page_slot 0x41000 \<in> taken small_pmm, m')"
      "taken m' = insert (page_slot 0x41000) (taken small_pmm)"
    using pmm_alloc_specific_page_eq [OF _ low] small_pmm_inv by auto
  have "page_slot 0x41000 \<notin> taken small_pmm" by (simp add: taken_def page_slot_def small_pmm_def)
  with m'(2) have "m' \<noteq> small_pmm" by blast
  moreover have "pmm_step\<^sup>*\<^sup>* small_pmm m'" using pmm_step.specific [OF m'(1)] by blast
  ultimately show ?thesis
    using small_pmm_inv pmm_runs_keep_invariant [OF \<open>pmm_step\<^sup>*\<^sup>* small_pmm m'\<close> small_pmm_inv] by blast
qed

text \<open>
  After \<open>pmm_init\<close> (with the bitmap page of the boot mapping, when \<open>vmm_lengthen\<close> returns false)
  the frame at 1 MiB, where the kernel image starts, is still handed out by \<open>pmm_alloc_page\<close>: the
  loop that protects the image marks slots of word 4, while the allocator takes that frame from word 8.
\<close>

theorem pmm_init_leaves_kernel_frame_free:
  assumes "plain_reserved l" and "length (bitmap m) = 512" and "k + 2 \<le> 32" and "k + 2 < n"
    and "\<And>s. lengthen KERNEL_PMM_START 0x117000 s = Inr (False, s)"
  shows "\<exists>m'. pmm_init n lengthen l 0x100000 (of_nat k * 0x1000) (m, e) = Inr (m', e) \<and> pmm_inv m' \<and>
    taken m' = {4} \<times> {..< k + 2} \<and>
    (\<exists>c xs m''. alloc_many pmm_alloc_page c m' = Inr (xs, m'') \<and> 0x100000 \<in> set xs)"
proof -
  obtain m3 where m3: "words_ok m3" "length (bitmap m3) = 512" "taken m3 = {4} \<times> {..< k + 2}"
      "pmm_init n lengthen l 0x100000 (of_nat k * 0x1000) (m, e) =
        bindE (lengthen KERNEL_PMM_START 0x117000 (m3, e))
          (\<lambda>(ok, m4, e4). if ok then Inr (m4, e4) else Inr (m4\<lparr>num_pages := 8 * 0x1000\<rparr>, e4))"
    using pmm_init_before_lengthen [OF assms(1-4), of lengthen e] by blast
  let ?m = "m3\<lparr>num_pages := 8 * 0x1000\<rparr>"
  have inv: "pmm_inv ?m" and tk: "taken ?m = {4} \<times> {..< k + 2}"
    using m3 by (simp_all add: pmm_inv_def words_ok_def taken_def)
  have "free_slot ?m (8, 0)" unfolding free_slot_def tk by simp
  then obtain c xs m'' where "alloc_many pmm_alloc_page c ?m = Inr (xs, m'')" "slot_paddr (8, 0) \<in> set xs"
    using free_slot_served [OF inv] by blast
  moreover have "slot_paddr (8, 0) = 0x100000" by (simp add: slot_paddr_def bitmap_to_paddr_def)
  ultimately show ?thesis using m3(4) assms(5) inv tk by auto
qed

theorem pmm_init_leaves_kernel_frame_free_witness:
  "plain_reserved empty_region_list \<and>
   (\<exists>m'. pmm_init 32 (\<lambda>_ _ s. Inr (False, s)) empty_region_list 0x100000 (of_nat 19 * 0x1000)
          (\<lparr>num_pages = 0, bitmap = replicate 512 0\<rparr>, ()) = Inr (m', ()) \<and> pmm_inv m' \<and>
    taken m' = {4} \<times> {..< 19 + 2} \<and>
    (\<exists>c xs m''. alloc_many pmm_alloc_page c m' = Inr (xs, m'') \<and> 0x100000 \<in> set xs))"
proof -
  have r: "plain_reserved empty_region_list"
    by (simp add: plain_reserved_def empty_region_list_def MAX_MMAP_ENTRIES_def zero_entry_def)
  show ?thesis
    using r pmm_init_leaves_kernel_frame_free [OF r, of "\<lparr>num_pages = 0, bitmap = replicate 512 0\<rparr>" 19 32
        "\<lambda>_ _ s. Inr (False, s)" "()"] by simp
qed

end
