(* ===== verification/Kheap.thy ===== *)
theory Kheap
  imports Pmm
begin

text \<open>
  The kernel heap of kernel/mm/kernel_heap_manager.c, at the level of bytes: every block is a
  packed five-byte header (one byte \<open>used\<close>, four bytes \<open>size\<close>) followed by its region, and \<open>kmalloc\<close>
  walks the headers. The lemmas relate the walk to first fit on a list of blocks, show what a
  successful allocation guarantees, and what happens when the heap is full.
\<close>

section \<open>State and header access\<close>

text \<open>
  \<open>heap_end\<close> is the variable of the source; \<open>mapped_end\<close> is the end of the pages that are mapped
  behind the heap: one page at boot. Only \<open>vmm_lengthen\<close> can move it.
\<close>

record heap =
  hmem :: mem
  heap_end :: u64
  mapped_end :: u64

definition heap_start :: u64 where
  "heap_start = KERNEL_HEAP_START"

definition heap_access :: "heap \<Rightarrow> u64 \<Rightarrow> nat \<Rightarrow> bool" where
  "heap_access h p n \<longleftrightarrow> unat (p - heap_start) + n \<le> unat (mapped_end h - heap_start)"

definition read_used :: "heap \<Rightarrow> u64 \<Rightarrow> bool result" where
  "read_used h p = (if heap_access h p 1 then Inr (hmem h p \<noteq> 0) else Inl Page_Fault)"

definition read_size :: "heap \<Rightarrow> u64 \<Rightarrow> u32 result" where
  "read_size h p = (if heap_access h (p + 1) 4 then Inr (load32 (hmem h) (p + 1)) else Inl Page_Fault)"

definition write_used :: "heap \<Rightarrow> u64 \<Rightarrow> bool \<Rightarrow> heap result" where
  "write_used h p u =
     (if heap_access h p 1 then Inr (h\<lparr>hmem := (hmem h)(p := (if u then 1 else 0))\<rparr>) else Inl Page_Fault)"

definition write_size :: "heap \<Rightarrow> u64 \<Rightarrow> u32 \<Rightarrow> heap result" where
  "write_size h p n =
     (if heap_access h (p + 1) 4 then Inr (h\<lparr>hmem := store32 (hmem h) (p + 1) n\<rparr>) else Inl Page_Fault)"

definition write_header :: "heap \<Rightarrow> u64 \<Rightarrow> bool \<Rightarrow> u32 \<Rightarrow> heap result" where
  "write_header h p u n = bindE (write_used h p u) (\<lambda>h'. write_size h' p n)"

definition add_void_ptr :: "u64 \<Rightarrow> u64 \<Rightarrow> u64" where
  "add_void_ptr ptr num = ptr + num"

definition go_to_next_memory_region :: "heap \<Rightarrow> u64 \<Rightarrow> u64 result" where
  "go_to_next_memory_region h p = bindE (read_size h p) (\<lambda>n. Inr (p + ucast n + 5))"

definition PAGE_ROUND :: "u64 \<Rightarrow> u64" where
  "PAGE_ROUND n = (n + 0xfff) div 0x1000"

section \<open>Operations\<close>

text \<open>
  \<open>vmm_lengthen\<close> is above this component and works on the heap (through \<open>alloc_pg_table\<close>) and on
  the rest \<open>'e\<close> of the kernel state.
\<close>

type_synonym 'e lengthen = "u64 \<Rightarrow> u64 \<Rightarrow> heap \<times> 'e \<Rightarrow> (bool \<times> heap \<times> 'e) result"

definition get_more_pages :: "'e lengthen \<Rightarrow> u32 \<Rightarrow> heap \<times> 'e \<Rightarrow> (bool \<times> heap \<times> 'e) result" where
  "get_more_pages vmm_lengthen n he =
     bindE (vmm_lengthen heap_start 0x1000 he) (\<lambda>(ok, h, e).
       if ok
       then Inr (True, h\<lparr>heap_end := heap_end h + signed (0x1000 * n)\<rparr>, e)
       else Inr (False, h, e))"

definition write_new_mem_reg :: "heap \<Rightarrow> u64 \<Rightarrow> heap result" where
  "write_new_mem_reg h p = write_header h p False (ucast (heap_end h - p))"

text \<open>
  The statement group of the third case: growing by the missing amount. The new header is built
  in a local variable of the source, so nothing is written to the heap.
\<close>

definition grow_by_missing :: "'e lengthen \<Rightarrow> u64 \<Rightarrow> u32 \<Rightarrow> heap \<times> 'e \<Rightarrow> (heap \<times> 'e) result" where
  "grow_by_missing vmm_lengthen sz mem_reg_size he =
     bindE (get_more_pages vmm_lengthen (ucast (PAGE_ROUND (sz - ucast mem_reg_size))) he)
       (\<lambda>(_, he'). Inr he')"

text \<open>The block at \<open>cur\<close> is taken after merging \<open>mem_reg_size\<close> bytes.\<close>

definition take_merged :: "u64 \<Rightarrow> u64 \<Rightarrow> u32 \<Rightarrow> heap \<Rightarrow> heap result" where
  "take_merged sz cur mem_reg_size h =
     bindE (write_used h cur True) (\<lambda>h1.
       if ucast (mem_reg_size - 5) > sz
       then bindE (write_size h1 cur (ucast sz)) (\<lambda>h2.
            bindE (go_to_next_memory_region h2 cur) (\<lambda>next.
              write_header h2 next False (ucast (ucast mem_reg_size - sz - 5))))
       else Inr h1)"

text \<open>
  The inner loop. It returns either the heap after a successful merge or the used region that
  stopped it.
\<close>

fun merge_loop :: "nat \<Rightarrow> 'e lengthen \<Rightarrow> u64 \<Rightarrow> u64 \<Rightarrow> u64 \<Rightarrow> u32 \<Rightarrow> heap \<times> 'e \<Rightarrow>
    (u64 option \<times> heap \<times> 'e) result" where
  "merge_loop 0 vmm_lengthen sz cur next mem_reg_size he = Inl Out_Of_Fuel"
| "merge_loop (Suc n) vmm_lengthen sz cur next mem_reg_size he =
     bindE (read_used (fst he) next) (\<lambda>used.
       if used then Inr (Some next, he)
       else bindE (read_size (fst he) next) (\<lambda>next_size.
         let mrs = mem_reg_size + (next_size + 5) in
         if ucast mrs \<ge> sz
         then bindE (take_merged sz cur mrs (fst he)) (\<lambda>h. Inr (None, h, snd he))
         else bindE (go_to_next_memory_region (fst he) next) (\<lambda>next'.
              bindE (if next' \<ge> heap_end (fst he) then grow_by_missing vmm_lengthen sz mrs he else Inr he)
                (\<lambda>he'. merge_loop n vmm_lengthen sz cur next' mrs he'))))"

text \<open>The second case: the block at \<open>cur\<close> is free and large enough.\<close>

definition take_block :: "u64 \<Rightarrow> u64 \<Rightarrow> heap \<Rightarrow> heap result" where
  "take_block sz cur h =
     bindE (write_used h cur True) (\<lambda>h1.
     bindE (read_size h1 cur) (\<lambda>curr_size.
       if ucast curr_size - 5 > sz
       then bindE (write_size h1 cur (ucast sz)) (\<lambda>h2.
            bindE (go_to_next_memory_region h2 cur) (\<lambda>next.
              write_header h2 next False (ucast (ucast curr_size - sz - 5))))
       else Inr h1))"

fun kmalloc_loop :: "nat \<Rightarrow> 'e lengthen \<Rightarrow> u64 \<Rightarrow> u64 \<Rightarrow> heap \<times> 'e \<Rightarrow> (u64 \<times> heap \<times> 'e) result" where
  "kmalloc_loop 0 vmm_lengthen sz cur he = Inl Out_Of_Fuel"
| "kmalloc_loop (Suc n) vmm_lengthen sz cur he0 =
     bindE (if cur \<ge> heap_end (fst he0)
            then bindE (get_more_pages vmm_lengthen 1 he0) (\<lambda>(_, h, e).
                 bindE (write_new_mem_reg h cur) (\<lambda>h'. Inr (h', e)))
            else Inr he0) (\<lambda>he.
     bindE (read_used (fst he) cur) (\<lambda>used.
       if used
       then bindE (go_to_next_memory_region (fst he) cur) (\<lambda>next. kmalloc_loop n vmm_lengthen sz next he)
       else bindE (read_size (fst he) cur) (\<lambda>curr_size.
         if ucast curr_size \<ge> sz
         then bindE (take_block sz cur (fst he)) (\<lambda>h. Inr (add_void_ptr cur 5, h, snd he))
         else bindE (go_to_next_memory_region (fst he) cur) (\<lambda>next.
              bindE (if next \<ge> heap_end (fst he) then grow_by_missing vmm_lengthen sz curr_size he else Inr he)
                (\<lambda>he1. bindE (merge_loop n vmm_lengthen sz cur next curr_size he1) (\<lambda>(stop, he2).
                   case stop of
                     None \<Rightarrow> Inr (add_void_ptr cur 5, he2)
                   | Some next' \<Rightarrow> bindE (go_to_next_memory_region (fst he2) next') (\<lambda>cur'.
                       kmalloc_loop n vmm_lengthen sz cur' he2)))))))"

definition kmalloc :: "nat \<Rightarrow> 'e lengthen \<Rightarrow> u64 \<Rightarrow> heap \<times> 'e \<Rightarrow> (u64 \<times> heap \<times> 'e) result" where
  "kmalloc n vmm_lengthen sz he = kmalloc_loop n vmm_lengthen sz heap_start he"

definition kfree :: "heap \<Rightarrow> u64 \<Rightarrow> heap result" where
  "kfree h ptr = write_used h (ptr - 5) False"

definition kheap_init :: "heap \<Rightarrow> heap result" where
  "kheap_init h =
     bindE (write_used h heap_start False) (\<lambda>h'.
       write_size h' heap_start (ucast (ucast (ucast (heap_end h') :: u32) - heap_start - 5)))"

definition boot_heap :: "mem \<Rightarrow> heap" where
  "boot_heap m = \<lparr>hmem = m, heap_end = heap_start + PAGE_SIZE, mapped_end = heap_start + PAGE_SIZE\<rparr>"


section \<open>The heap as a list of blocks\<close>

type_synonym block = "bool \<times> nat"

definition haddr :: "nat \<Rightarrow> u64" where
  "haddr k = heap_start + of_nat k"

definition blocks_len :: "block list \<Rightarrow> nat" where
  "blocks_len bs = (\<Sum>b \<leftarrow> bs. snd b + 5)"

fun tiles :: "mem \<Rightarrow> nat \<Rightarrow> block list \<Rightarrow> bool" where
  "tiles m off [] \<longleftrightarrow> True"
| "tiles m off ((u, s) # bs) \<longleftrightarrow>
     (m (haddr off) \<noteq> 0) = u \<and> unat (load32 m (haddr (Suc off))) = s \<and> tiles m (off + s + 5) bs"

definition heap_wf :: "heap \<Rightarrow> nat \<Rightarrow> bool" where
  "heap_wf h L \<longleftrightarrow> heap_end h = haddr L \<and> mapped_end h = haddr L \<and> L < 2 ^ 31"

definition heap_rep :: "heap \<Rightarrow> block list \<Rightarrow> bool" where
  "heap_rep h bs \<longleftrightarrow> heap_wf h (blocks_len bs) \<and> tiles (hmem h) 0 bs"

lemma blocks_len_simps [simp]:
  "blocks_len [] = 0"
  "blocks_len (b # bs) = snd b + 5 + blocks_len bs"
  "blocks_len (bs @ cs) = blocks_len bs + blocks_len cs"
  by (simp_all add: blocks_len_def)

subsection \<open>Addresses\<close>

lemma unat_haddr: "k < 2 ^ 32 \<Longrightarrow> unat (haddr k) = unat heap_start + k"
proof -
  assume k: "k < 2 ^ 32"
  have "unat (of_nat k :: u64) = k" using k by (intro unat_of_nat_small) simp
  moreover have "unat heap_start = 0xffffff8000200000"
    by (simp add: heap_start_def KERNEL_HEAP_START_def)
  ultimately show ?thesis using k by (simp add: haddr_def unat_word_ariths)
qed

lemma haddr_diff: "k < 2 ^ 32 \<Longrightarrow> unat (haddr k - heap_start) = k"
  by (simp add: haddr_def unat_of_nat_small)

lemma haddr_eq_iff: "j < 2 ^ 32 \<Longrightarrow> k < 2 ^ 32 \<Longrightarrow> haddr j = haddr k \<longleftrightarrow> j = k"
  by (metis haddr_diff)

lemma haddr_le_iff: "j < 2 ^ 32 \<Longrightarrow> k < 2 ^ 32 \<Longrightarrow> haddr j \<le> haddr k \<longleftrightarrow> j \<le> k"
  by (simp add: word_le_nat_alt unat_haddr)

lemma haddr_add: "haddr j + of_nat k = haddr (j + k)" "haddr j + 1 = haddr (Suc j)" "haddr j + 5 = haddr (j + 5)"
  by (simp_all add: haddr_def algebra_simps)

lemma haddr_0 [simp]: "haddr 0 = heap_start"
  by (simp add: haddr_def)

lemma haddr_next: "haddr k + ucast (w :: u32) + 5 = haddr (k + unat w + 5)"
proof -
  have "(ucast w :: u64) = of_nat (unat w)" by simp
  then show ?thesis by (simp only: haddr_add)
qed

subsection \<open>Header access on a well-formed heap\<close>

definition set_used :: "mem \<Rightarrow> nat \<Rightarrow> bool \<Rightarrow> mem" where
  "set_used m k u = m(haddr k := (if u then 1 else 0))"

definition set_header :: "mem \<Rightarrow> nat \<Rightarrow> bool \<Rightarrow> u32 \<Rightarrow> mem" where
  "set_header m k u n = store32 (set_used m k u) (haddr (Suc k)) n"

lemma heap_access_iff: "heap_wf h L \<Longrightarrow> k < 2 ^ 32 \<Longrightarrow> heap_access h (haddr k) n \<longleftrightarrow> k + n \<le> L"
  by (simp add: heap_access_def heap_wf_def haddr_diff)

lemma heap_wf_hmem [simp]: "heap_wf (h\<lparr>hmem := m\<rparr>) L = heap_wf h L"
  by (simp add: heap_wf_def)

lemma heap_reads:
  assumes "heap_wf h L" and "k + 5 \<le> L"
  shows "read_used h (haddr k) = Inr (hmem h (haddr k) \<noteq> 0)"
    and "read_size h (haddr k) = Inr (load32 (hmem h) (haddr (Suc k)))"
    and "go_to_next_memory_region h (haddr k) = Inr (haddr (k + unat (load32 (hmem h) (haddr (Suc k))) + 5))"
proof -
  have L: "L < 2 ^ 31" using assms(1) by (simp add: heap_wf_def)
  show u: "read_used h (haddr k) = Inr (hmem h (haddr k) \<noteq> 0)"
    using assms L by (simp add: read_used_def heap_access_iff)
  show sz: "read_size h (haddr k) = Inr (load32 (hmem h) (haddr (Suc k)))"
    using assms L by (simp only: read_size_def haddr_add) (simp add: heap_access_iff)
  show "go_to_next_memory_region h (haddr k) = Inr (haddr (k + unat (load32 (hmem h) (haddr (Suc k))) + 5))"
    by (simp add: go_to_next_memory_region_def sz haddr_next)
qed

lemma heap_writes:
  assumes "heap_wf h L" and "k + 5 \<le> L"
  shows "write_used h (haddr k) u = Inr (h\<lparr>hmem := set_used (hmem h) k u\<rparr>)"
    and "write_size h (haddr k) n = Inr (h\<lparr>hmem := store32 (hmem h) (haddr (Suc k)) n\<rparr>)"
    and "write_header h (haddr k) u n = Inr (h\<lparr>hmem := set_header (hmem h) k u n\<rparr>)"
proof -
  have L: "L < 2 ^ 31" using assms(1) by (simp add: heap_wf_def)
  have w: "write_used g (haddr k) u = Inr (g\<lparr>hmem := set_used (hmem g) k u\<rparr>)"
    if "heap_wf g L" for g :: heap and u
    using assms(2) L that by (simp add: write_used_def heap_access_iff set_used_def)
  have z: "write_size g (haddr k) n = Inr (g\<lparr>hmem := store32 (hmem g) (haddr (Suc k)) n\<rparr>)"
    if "heap_wf g L" for g :: heap and n
    using assms(2) L that by (simp only: write_size_def haddr_add) (simp add: heap_access_iff)
  show "write_used h (haddr k) u = Inr (h\<lparr>hmem := set_used (hmem h) k u\<rparr>)"
    and "write_size h (haddr k) n = Inr (h\<lparr>hmem := store32 (hmem h) (haddr (Suc k)) n\<rparr>)"
    and "write_header h (haddr k) u n = Inr (h\<lparr>hmem := set_header (hmem h) k u n\<rparr>)"
    using assms(1) by (simp_all add: write_header_def w z set_header_def)
qed

lemma heap_end_fault:
  assumes "heap_wf h L"
  shows "read_used h (haddr L) = Inl Page_Fault" and "write_header h (haddr L) u n = Inl Page_Fault"
proof -
  have L: "L < 2 ^ 31" using assms by (simp add: heap_wf_def)
  then show "read_used h (haddr L) = Inl Page_Fault" and "write_header h (haddr L) u n = Inl Page_Fault"
    using assms by (simp_all add: read_used_def write_header_def write_used_def heap_access_iff)
qed


subsection \<open>Changing headers\<close>

lemma set_used_other: "j < 2 ^ 32 \<Longrightarrow> k < 2 ^ 32 \<Longrightarrow> j \<noteq> k \<Longrightarrow> set_used m k u (haddr j) = m (haddr j)"
  by (simp add: set_used_def haddr_eq_iff)

lemma store32_haddr_other:
  assumes "j < 2 ^ 31" "k < 2 ^ 31" "j < k \<or> k + 4 \<le> j"
  shows "store32 m (haddr k) w (haddr j) = m (haddr j)"
proof (rule store32_other)
  show "4 \<le> unat (haddr j - haddr k)"
  proof (cases "j < k")
    case True
    have "unat (haddr j - haddr k) = unat (haddr j) + 2 ^ 64 - unat (haddr k)"
      using True assms by (simp add: unat_sub_if' unat_haddr)
    moreover have "unat (haddr k) < 2 ^ 63 * 2 - 2 ^ 32"
      using assms by (simp add: unat_haddr heap_start_def KERNEL_HEAP_START_def)
    ultimately show ?thesis by simp
  next
    case False
    then show ?thesis using assms by (simp add: unat_sub_if' unat_haddr)
  qed
qed

lemma set_header_other:
  "j < 2 ^ 31 \<Longrightarrow> Suc k < 2 ^ 31 \<Longrightarrow> j < k \<or> k + 5 \<le> j \<Longrightarrow> set_header m k u n (haddr j) = m (haddr j)"
  by (auto simp: set_header_def store32_haddr_other set_used_other)

lemma load32_haddr_cong:
  assumes "\<And>j. k \<le> j \<Longrightarrow> j < k + 4 \<Longrightarrow> m (haddr j) = m' (haddr j)"
  shows "load32 m (haddr k) = load32 m' (haddr k)"
  by (rule load32_cong) (simp add: haddr_add assms)

lemma tiles_cong:
  "(\<And>j. off \<le> j \<Longrightarrow> j < off + blocks_len bs \<Longrightarrow> m (haddr j) = m' (haddr j)) \<Longrightarrow>
     tiles m off bs = tiles m' off bs"
proof (induction bs arbitrary: off)
  case (Cons b bs)
  obtain u s where b: "b = (u, s)" by (cases b)
  have "m (haddr off) = m' (haddr off)" using Cons.prems [of off] b by simp
  moreover have "load32 m (haddr (Suc off)) = load32 m' (haddr (Suc off))"
    by (rule load32_haddr_cong) (use Cons.prems b in auto)
  moreover have "tiles m (off + s + 5) bs = tiles m' (off + s + 5) bs"
    by (rule Cons.IH) (use Cons.prems b in auto)
  ultimately show ?case by (simp add: b)
qed simp

lemma set_header_reads:
  assumes "Suc k < 2 ^ 31"
  shows "set_header m k u n (haddr k) \<noteq> 0 \<longleftrightarrow> u" and "load32 (set_header m k u n) (haddr (Suc k)) = n"
proof -
  have "set_header m k u n (haddr k) = set_used m k u (haddr k)"
    unfolding set_header_def using assms by (intro store32_haddr_other) simp_all
  then show "set_header m k u n (haddr k) \<noteq> 0 \<longleftrightarrow> u" by (simp add: set_used_def)
  show "load32 (set_header m k u n) (haddr (Suc k)) = n"
    by (simp add: set_header_def load32_store32)
qed

lemma tiles_set_header:
  assumes "k + 5 + unat n + blocks_len bs < 2 ^ 31"
  shows "tiles (set_header m k u n) k ((u, unat n) # bs) \<longleftrightarrow> tiles m (k + unat n + 5) bs"
proof -
  have "tiles (set_header m k u n) (k + unat n + 5) bs = tiles m (k + unat n + 5) bs"
    by (rule tiles_cong) (use assms in \<open>simp add: set_header_other\<close>)
  with set_header_reads [of k m u n] assms show ?thesis by simp
qed

lemma tiles_set_used:
  assumes "k + 5 + s + blocks_len bs < 2 ^ 31"
  shows "tiles m k ((u', s) # bs) \<Longrightarrow> tiles (set_used m k u) k ((u, s) # bs)"
proof -
  assume t: "tiles m k ((u', s) # bs)"
  have "tiles (set_used m k u) (k + s + 5) bs = tiles m (k + s + 5) bs"
    by (rule tiles_cong) (use assms in \<open>simp add: set_used_other\<close>)
  moreover have "load32 (set_used m k u) (haddr (Suc k)) = load32 m (haddr (Suc k))"
    by (rule load32_haddr_cong) (use assms in \<open>simp add: set_used_other\<close>)
  ultimately show ?thesis using t by (simp add: set_used_def)
qed

lemma tiles_append: "tiles m off (bs @ cs) \<longleftrightarrow> tiles m off bs \<and> tiles m (off + blocks_len bs) cs"
proof (induction bs arbitrary: off)
  case (Cons b bs)
  obtain u s where b: "b = (u, s)" by (cases b)
  have "off + s + 5 + blocks_len bs = off + blocks_len (b # bs)" by (simp add: b)
  with Cons.IH [of "off + s + 5"] show ?case by (simp add: b)
qed simp

lemma tiles_size: "tiles m off ((u, s) # bs) \<Longrightarrow> s < 2 ^ 32"
  using unsigned_less [of "load32 m (haddr (Suc off))", where 'a = nat] by auto


section \<open>First fit on lists of blocks\<close>

text \<open>
  The walk of \<open>kmalloc\<close> on the block list. \<open>absorb n t bs\<close> follows the inner loop: it adds up free
  blocks until \<open>n\<close> bytes are reached (\<open>Fits\<close>, with the rest of the list), a used block stops it
  (\<open>Blocked\<close>, with the blocks passed over) or the heap ends (\<open>Stuck\<close>).
\<close>

datatype absorbed = Stuck | Blocked "block list" block "block list" | Fits nat "block list"

fun absorb :: "nat \<Rightarrow> nat \<Rightarrow> block list \<Rightarrow> absorbed" where
  "absorb n t [] = Stuck"
| "absorb n t ((True, s) # bs) = Blocked [] (True, s) bs"
| "absorb n t ((False, s) # bs) =
     (if n \<le> t + s + 5 then Fits (t + s + 5) bs
      else case absorb n (t + s + 5) bs of
             Blocked p b r \<Rightarrow> Blocked ((False, s) # p) b r
           | x \<Rightarrow> x)"

lemma absorb_Blocked: "absorb n t bs = Blocked p b r \<Longrightarrow> bs = p @ b # r \<and> fst b \<and> (\<forall>x \<in> set p. \<not> fst x)"
  by (induction n t bs arbitrary: p rule: absorb.induct) (auto split: if_splits absorbed.splits)

lemma absorb_Fits:
  "absorb n t bs = Fits t' r \<Longrightarrow>
     \<exists>p. bs = p @ r \<and> t' = t + blocks_len p \<and> n \<le> t' \<and> (\<forall>x \<in> set p. \<not> fst x)"
proof (induction n t bs rule: absorb.induct)
  case (3 n t s bs)
  show ?case
  proof (cases "n \<le> t + s + 5")
    case True
    with "3.prems" show ?thesis by (intro exI [of _ "[(False, s)]"]) auto
  next
    case False
    with "3.prems" have "absorb n (t + s + 5) bs = Fits t' r" by (auto split: absorbed.splits)
    from "3.IH" [OF False this] obtain p where "bs = p @ r" "t' = t + s + 5 + blocks_len p" "n \<le> t'"
        "\<forall>x \<in> set p. \<not> fst x" by blast
    then show ?thesis by (intro exI [of _ "(False, s) # p"]) auto
  qed
qed auto

function kmalloc_abs :: "nat \<Rightarrow> nat \<Rightarrow> block list \<Rightarrow> (nat \<times> block list) option" where
  "kmalloc_abs n off [] = None"
| "kmalloc_abs n off ((True, s) # bs) =
     map_option (\<lambda>(p, bs'). (p, (True, s) # bs')) (kmalloc_abs n (off + s + 5) bs)"
| "kmalloc_abs n off ((False, s) # bs) =
     (if n \<le> s then Some (off, if n + 5 < s then (True, n) # (False, s - n - 5) # bs else (True, s) # bs)
      else case absorb n s bs of
             Stuck \<Rightarrow> None
           | Fits t r \<Rightarrow> Some (off, if n + 5 < t then (True, n) # (False, t - n - 5) # r else (True, s) # bs)
           | Blocked p b r \<Rightarrow>
               map_option (\<lambda>(q, bs'). (q, (False, s) # p @ b # bs'))
                 (kmalloc_abs n (off + s + 5 + blocks_len p + (snd b + 5)) r))"
  by pat_completeness auto
termination
  by (relation "measure (\<lambda>(n, off, bs). length bs)") (auto dest: absorb_Blocked)

fun used_bytes :: "nat \<Rightarrow> block list \<Rightarrow> nat set" where
  "used_bytes off [] = {}"
| "used_bytes off ((u, s) # bs) = (if u then {off ..< off + s + 5} else {}) \<union> used_bytes (off + s + 5) bs"

lemma used_bytes_append: "used_bytes off (bs @ cs) = used_bytes off bs \<union> used_bytes (off + blocks_len bs) cs"
proof (induction bs arbitrary: off)
  case (Cons b bs)
  obtain u s where b: "b = (u, s)" by (cases b)
  have "off + s + 5 + blocks_len bs = off + blocks_len (b # bs)" by (simp add: b)
  with Cons.IH [of "off + s + 5"] show ?case by (auto simp: b)
qed simp

lemma used_bytes_free: "(\<forall>x \<in> set bs. \<not> fst x) \<Longrightarrow> used_bytes off bs = {}"
proof (induction bs arbitrary: off)
  case (Cons b bs)
  then show ?case by (cases b) auto
qed simp

lemma used_bytes_bounds: "used_bytes off bs \<subseteq> {off ..< off + blocks_len bs}"
proof (induction bs arbitrary: off)
  case (Cons b bs)
  obtain u s where b: "b = (u, s)" by (cases b)
  show ?case using Cons.IH [of "off + s + 5"] by (auto simp: b)
qed simp

text \<open>\<open>vmm_lengthen\<close> finds no region that starts at the heap and returns false.\<close>

definition no_growth :: "'e lengthen \<Rightarrow> 'e \<Rightarrow> bool" where
  "no_growth vmm_lengthen e \<longleftrightarrow> (\<forall>h. vmm_lengthen heap_start 0x1000 (h, e) = Inr (False, h, e))"

lemma no_growth_simps:
  assumes "no_growth vl e"
  shows "get_more_pages vl n (h, e) = Inr (False, h, e)" and "grow_by_missing vl sz mrs (h, e) = Inr (h, e)"
proof -
  show g: "get_more_pages vl n (h, e) = Inr (False, h, e)" for n
    using assms by (simp add: get_more_pages_def no_growth_def)
  show "grow_by_missing vl sz mrs (h, e) = Inr (h, e)" by (simp add: grow_by_missing_def g)
qed

lemma merged_size:
  fixes mrs w :: u32 and sz :: u64
  assumes "unat w = s" and "unat mrs + s + 5 < 2 ^ 31"
  shows "unat (mrs + (w + 5)) = unat mrs + s + 5" and "mrs + (w + 5) = of_nat (unat mrs + s + 5)"
    and "ucast (mrs + (w + 5)) \<ge> sz \<longleftrightarrow> unat sz \<le> unat mrs + s + 5"
proof -
  show u: "unat (mrs + (w + 5)) = unat mrs + s + 5" using assms by (simp add: unat_word_ariths)
  have "of_nat (unat (mrs + (w + 5))) = mrs + (w + 5)" by simp
  then show "mrs + (w + 5) = of_nat (unat mrs + s + 5)" unfolding u by simp
  show "ucast (mrs + (w + 5)) \<ge> sz \<longleftrightarrow> unat sz \<le> unat mrs + s + 5" using u by (simp add: word_le_nat_alt)
qed

lemma merge_loop_refines:
  assumes "no_growth vl e"
  shows "heap_wf h L \<Longrightarrow> tiles (hmem h) off bs \<Longrightarrow> off + blocks_len bs = L \<Longrightarrow>
    unat mrs + blocks_len bs < 2 ^ 31 \<Longrightarrow> length bs < fuel \<Longrightarrow>
    merge_loop fuel vl sz cur (haddr off) mrs (h, e) =
      (case absorb (unat sz) (unat mrs) bs of
         Stuck \<Rightarrow> Inl Page_Fault
       | Blocked p b r \<Rightarrow> Inr (Some (haddr (off + blocks_len p)), h, e)
       | Fits t r \<Rightarrow> bindE (take_merged sz cur (of_nat t) h) (\<lambda>h'. Inr (None, h', e)))"
proof (induction bs arbitrary: off mrs fuel)
  case Nil
  then obtain f where "fuel = Suc f" by (cases fuel) auto
  with Nil show ?case by (simp add: heap_end_fault)
next
  case (Cons b bs)
  obtain u s where b: "b = (u, s)" by (cases b)
  obtain f where f: "fuel = Suc f" using Cons.prems by (cases fuel) auto
  have bound: "off + 5 \<le> L" using Cons.prems(3) by (simp add: b)
  let ?w = "load32 (hmem h) (haddr (Suc off))"
  have w: "unat ?w = s" "(hmem h (haddr off) \<noteq> 0) = u" and tl: "tiles (hmem h) (off + s + 5) bs"
    using Cons.prems(2) by (simp_all add: b)
  note rd = heap_reads [OF Cons.prems(1) bound]
  show ?case
  proof (cases u)
    case True
    then show ?thesis using rd w by (simp add: f b)
  next
    case False
    let ?mrs = "mrs + (?w + 5)"
    have um: "unat ?mrs = unat mrs + s + 5" and mrs_of_nat: "?mrs = of_nat (unat mrs + s + 5)"
      and ge: "ucast ?mrs \<ge> sz \<longleftrightarrow> unat sz \<le> unat mrs + s + 5"
      by (rule merged_size [OF w(1)]; use Cons.prems(4) in \<open>simp add: b\<close>)+
    show ?thesis
    proof (cases "unat sz \<le> unat mrs + s + 5")
      case True
      with False rd w ge mrs_of_nat show ?thesis by (simp add: f b Let_def add.assoc)
    next
      case nofit: False
      have "merge_loop f vl sz cur (haddr (off + s + 5)) ?mrs (h, e) =
         (case absorb (unat sz) (unat ?mrs) bs of
           Stuck \<Rightarrow> Inl Page_Fault
         | Blocked p b r \<Rightarrow> Inr (Some (haddr (off + s + 5 + blocks_len p)), h, e)
         | Fits t r \<Rightarrow> bindE (take_merged sz cur (of_nat t) h) (\<lambda>h'. Inr (None, h', e)))"
        using Cons.prems tl um f by (intro Cons.IH) (simp_all add: b)
      with False nofit rd w ge um show ?thesis
        by (simp add: f b Let_def no_growth_simps [OF assms] add.assoc split: absorbed.splits)
    qed
  qed
qed


lemma diff_ucast:
  "unat (w :: u32) = s \<Longrightarrow> unat (sz :: u64) + 5 \<le> s \<Longrightarrow>
     ucast (ucast w - sz - 5 :: u64) = (of_nat (s - unat sz - 5) :: u32)"
proof -
  assume *: "unat w = s" "unat sz + 5 \<le> s"
  have "unat (ucast w - sz :: u64) = s - unat sz"
    using * by (subst unat_sub) (simp_all add: word_le_nat_alt)
  then have "unat (ucast w - sz - 5 :: u64) = s - unat sz - 5"
    using * by (subst unat_sub) (simp_all add: word_le_nat_alt)
  then show ?thesis by (metis ucast_as_of_nat)
qed

lemma split_headers:
  assumes "heap_wf h L" and "k + n + 10 + z + blocks_len r \<le> L" and "tiles (hmem h) (k + n + 10 + z) r"
    and "n < 2 ^ 32" and "z < 2 ^ 32"
  shows "\<exists>m'. bindE (write_size (h\<lparr>hmem := set_used (hmem h) k True\<rparr>) (haddr k) (of_nat n)) (\<lambda>h2.
            bindE (go_to_next_memory_region h2 (haddr k)) (\<lambda>next.
              write_header h2 next False (of_nat z))) = Inr (h\<lparr>hmem := m'\<rparr>) \<and>
    tiles m' k ((True, n) # (False, z) # r) \<and>
    (\<forall>j. j < k \<or> k + n + 10 \<le> j \<longrightarrow> j < L \<longrightarrow> m' (haddr j) = hmem h (haddr j))"
proof -
  let ?m2 = "set_header (hmem h) k True (of_nat n)"
  let ?m3 = "set_header ?m2 (k + n + 5) False (of_nat z)"
  have L: "L < 2 ^ 31" using assms(1) by (simp add: heap_wf_def)
  have n: "unat (of_nat n :: u32) = n" "unat (of_nat z :: u32) = z"
    using assms(4,5) by (auto intro!: unat_of_nat_small)
  have wf: "heap_wf (h\<lparr>hmem := m\<rparr>) L" for m using assms(1) by simp
  have b: "k + 5 \<le> L" "k + n + 5 + 5 \<le> L" using assms(2) by auto
  have rd: "load32 ?m2 (haddr (Suc k)) = of_nat n" using set_header_reads [of k] b L by simp
  have eq: "bindE (write_size (h\<lparr>hmem := set_used (hmem h) k True\<rparr>) (haddr k) (of_nat n)) (\<lambda>h2.
            bindE (go_to_next_memory_region h2 (haddr k)) (\<lambda>next.
              write_header h2 next False (of_nat z))) = Inr (h\<lparr>hmem := ?m3\<rparr>)"
    using heap_writes(2) [OF wf b(1)] heap_reads(3) [OF wf b(1)] heap_writes(3) [OF wf b(2)] n
    by (simp add: set_header_def load32_store32)
  have t3: "tiles ?m3 (k + n + 5) ((False, z) # r)"
    using tiles_set_header [of "k + n + 5" "of_nat z" r ?m2 False] n assms(2,3) L
      tiles_cong [of "k + n + 10 + z" r "hmem h" ?m2]
    by (simp add: set_header_other algebra_simps)
  moreover have "?m3 (haddr k) \<noteq> 0" "unat (load32 ?m3 (haddr (Suc k))) = n"
  proof -
    have "?m3 (haddr k) = ?m2 (haddr k)" using b L by (intro set_header_other) auto
    then show "?m3 (haddr k) \<noteq> 0" using set_header_reads(1) [of k] b L by simp
    have "load32 ?m3 (haddr (Suc k)) = load32 ?m2 (haddr (Suc k))"
      by (rule load32_haddr_cong) (use b L in \<open>auto intro!: set_header_other\<close>)
    then show "unat (load32 ?m3 (haddr (Suc k))) = n" using rd n by simp
  qed
  ultimately have "tiles ?m3 k ((True, n) # (False, z) # r)" by simp
  moreover have "\<forall>j. j < k \<or> k + n + 10 \<le> j \<longrightarrow> j < L \<longrightarrow> ?m3 (haddr j) = hmem h (haddr j)"
    using b L by (auto simp: set_header_other)
  ultimately show ?thesis using eq by blast
qed

text \<open>What both ways to take a region have in common: mark it, and cut off the rest when it can hold a header.\<close>

definition cut_region :: "nat \<Rightarrow> nat \<Rightarrow> nat \<Rightarrow> heap \<Rightarrow> heap result" where
  "cut_region k n t h1 =
     (if n + 5 < t
      then bindE (write_size h1 (haddr k) (of_nat n)) (\<lambda>h2.
           bindE (go_to_next_memory_region h2 (haddr k)) (\<lambda>next. write_header h2 next False (of_nat (t - n - 5))))
      else Inr h1)"

lemma cut_region_refines:
  assumes "heap_wf h L" and "tiles (hmem h) k ((False, s) # p @ r)" and "t = s + blocks_len p" and "k + 5 + t + blocks_len r \<le> L"
  shows "\<exists>m'. bindE (write_used h (haddr k) True) (cut_region k n t) = Inr (h\<lparr>hmem := m'\<rparr>) \<and>
    tiles m' k (if n + 5 < t then (True, n) # (False, t - n - 5) # r else (True, s) # p @ r) \<and>
    (\<forall>j. j < k \<or> k + 5 + t \<le> j \<longrightarrow> j < L \<longrightarrow> m' (haddr j) = hmem h (haddr j))"
proof -
  let ?m1 = "set_used (hmem h) k True"
  have L: "L < 2 ^ 31" and b: "k + 5 \<le> L" using assms(1,4) by (simp_all add: heap_wf_def)
  have w: "bindE (write_used h (haddr k) True) (cut_region k n t) = cut_region k n t (h\<lparr>hmem := ?m1\<rparr>)"
    by (simp add: heap_writes(1) [OF assms(1) b])
  show ?thesis
  proof (cases "n + 5 < t")
    case False
    moreover have "tiles ?m1 k ((True, s) # p @ r)" by (rule tiles_set_used [OF _ assms(2)]) (use assms(3,4) L in simp)
    moreover have "\<forall>j. j < k \<or> k + 5 + t \<le> j \<longrightarrow> j < L \<longrightarrow> ?m1 (haddr j) = hmem h (haddr j)" using b L by (auto simp: set_used_other)
    ultimately show ?thesis unfolding w by (intro exI [of _ ?m1]) (simp add: cut_region_def)
  next
    case True
    have "tiles (hmem h) (k + 5 + t) r" using assms(2,3) by (simp add: tiles_append algebra_simps)
    moreover have e: "k + n + 10 + (t - n - 5) = k + 5 + t" and small: "n < 2 ^ 32" "t - n - 5 < 2 ^ 32" using True assms(4) L by simp_all
    ultimately have fit: "k + n + 10 + (t - n - 5) + blocks_len r \<le> L" "tiles (hmem h) (k + n + 10 + (t - n - 5)) r"
      using assms(4) by (simp_all only: e)
    obtain m' where m': "bindE (write_size (h\<lparr>hmem := ?m1\<rparr>) (haddr k) (of_nat n)) (\<lambda>h2.
        bindE (go_to_next_memory_region h2 (haddr k)) (\<lambda>next. write_header h2 next False (of_nat (t - n - 5)))) = Inr (h\<lparr>hmem := m'\<rparr>)"
        "tiles m' k ((True, n) # (False, t - n - 5) # r)" "\<forall>j. j < k \<or> k + n + 10 \<le> j \<longrightarrow> j < L \<longrightarrow> m' (haddr j) = hmem h (haddr j)"
      using split_headers [OF assms(1) fit small] by blast
    moreover have "cut_region k n t (h\<lparr>hmem := ?m1\<rparr>) = Inr (h\<lparr>hmem := m'\<rparr>)" unfolding cut_region_def using True m'(1) by simp
    ultimately show ?thesis unfolding w using True by (intro exI [of _ m']) auto
  qed
qed

lemma take_block_refines:
  assumes "heap_wf h L" and "tiles (hmem h) k ((False, s) # bs)" and "k + 5 + s + blocks_len bs \<le> L"
    and "unat sz \<le> s" and "5 \<le> unat sz"
  shows "\<exists>m'. take_block sz (haddr k) h = Inr (h\<lparr>hmem := m'\<rparr>) \<and>
    tiles m' k (if unat sz + 5 < s then (True, unat sz) # (False, s - unat sz - 5) # bs else (True, s) # bs) \<and>
    (\<forall>j. j < k \<or> k + 5 + s \<le> j \<longrightarrow> j < L \<longrightarrow> m' (haddr j) = hmem h (haddr j))"
proof -
  let ?m1 = "set_used (hmem h) k True"
  have L: "L < 2 ^ 31" and b: "k + 5 \<le> L" using assms(1,3) by (simp_all add: heap_wf_def)
  have "tiles ?m1 k ((True, s) # bs)" by (rule tiles_set_used [OF _ assms(2)]) (use assms(3) L in simp)
  then have "load32 ?m1 (haddr (Suc k)) = of_nat s" by (metis tiles.simps(2) of_nat_unat ucast_id)
  then have rd: "read_size (h\<lparr>hmem := ?m1\<rparr>) (haddr k) = Inr (of_nat s)"
    using heap_reads(2) [of "h\<lparr>hmem := ?m1\<rparr>" L k] assms(1) b by simp
  have su: "unat (of_nat s :: u32) = s" using assms(3) L by (intro unat_of_nat_small) simp
  have "unat (ucast (of_nat s :: u32) - 5 :: u64) = s - 5" using su assms(4,5) by (subst unat_sub) (simp_all add: word_le_nat_alt)
  then have gt: "ucast (of_nat s :: u32) - 5 > sz \<longleftrightarrow> unat sz + 5 < s" using assms(4,5) by (simp add: word_less_nat_alt) arith
  have z: "unat sz + 5 < s \<Longrightarrow> ucast (ucast (of_nat s :: u32) - sz - 5 :: u64) = (of_nat (s - unat sz - 5) :: u32)"
    by (rule diff_ucast) (use su in simp_all)
  have "take_block sz (haddr k) h = bindE (write_used h (haddr k) True) (cut_region k (unat sz) s)"
    using heap_writes(1) [OF assms(1) b, of True] rd gt z by (simp add: take_block_def cut_region_def)
  moreover have "tiles (hmem h) k ((False, s) # [] @ bs)" using assms(2) by simp
  ultimately show ?thesis using cut_region_refines [OF assms(1), of k s "[]" bs s "unat sz"] assms(3) by (simp only: append_Nil) simp
qed

lemma take_merged_refines:
  assumes "heap_wf h L" and "tiles (hmem h) k ((False, s) # p @ r)" and "p \<noteq> []"
    and "t = s + blocks_len p" and "k + 5 + t + blocks_len r \<le> L" and "unat sz \<le> t"
  shows "\<exists>m'. take_merged sz (haddr k) (of_nat t) h = Inr (h\<lparr>hmem := m'\<rparr>) \<and>
    tiles m' k (if unat sz + 5 < t then (True, unat sz) # (False, t - unat sz - 5) # r else (True, s) # p @ r) \<and>
    (\<forall>j. j < k \<or> k + 5 + t \<le> j \<longrightarrow> j < L \<longrightarrow> m' (haddr j) = hmem h (haddr j))"
proof -
  have L: "L < 2 ^ 31" and b: "k + 5 \<le> L" using assms(1,5) by (simp_all add: heap_wf_def)
  have t5: "5 \<le> t" using assms(3,4) by (cases p) auto
  have tu: "unat (of_nat t :: u32) = t" using assms(5) L by (intro unat_of_nat_small) simp
  have "unat (of_nat t - 5 :: u32) = t - 5" using tu t5 by (subst unat_sub) (simp_all add: word_le_nat_alt)
  then have gt: "ucast (of_nat t - 5 :: u32) > sz \<longleftrightarrow> unat sz + 5 < t" using t5 by (simp add: word_less_nat_alt) arith
  have z: "unat sz + 5 < t \<Longrightarrow> ucast (ucast (of_nat t :: u32) - sz - 5 :: u64) = (of_nat (t - unat sz - 5) :: u32)"
    by (rule diff_ucast) (use tu in simp_all)
  have "take_merged sz (haddr k) (of_nat t) h = bindE (write_used h (haddr k) True) (cut_region k (unat sz) t)"
    using heap_writes(1) [OF assms(1) b, of True] gt z by (simp add: take_merged_def cut_region_def)
  with cut_region_refines [OF assms(1,2,4,5), of "unat sz"] show ?thesis by simp
qed

lemma tiles_replace_suffix:
  assumes "tiles m off (pre @ bs)" and "\<And>j. j < off + blocks_len pre \<Longrightarrow> m' (haddr j) = m (haddr j)"
    and "tiles m' (off + blocks_len pre) bs'"
  shows "tiles m' off (pre @ bs')"
  using assms tiles_cong [of off pre m m'] by (simp add: tiles_append)

definition kmalloc_result :: "nat \<Rightarrow> nat \<Rightarrow> block list \<Rightarrow> heap \<Rightarrow> 'e \<Rightarrow> nat \<times> block list \<Rightarrow> (u64 \<times> heap \<times> 'e) result \<Rightarrow> bool" where
  "kmalloc_result L off bs h e pb r \<longleftrightarrow>
     (\<exists>m'. r = Inr (haddr (fst pb + 5), h\<lparr>hmem := m'\<rparr>, e) \<and> tiles m' off (snd pb) \<and>
       (\<forall>j < L. j \<in> used_bytes off bs \<or> j < off \<longrightarrow> m' (haddr j) = hmem h (haddr j)))"

lemma kmalloc_result_prefix:
  assumes "kmalloc_result L (off + blocks_len pre) bs h e (p, bs') r" and "tiles (hmem h) off (pre @ bs)"
    and "off + blocks_len pre \<le> L"
  shows "kmalloc_result L off (pre @ bs) h e (p, pre @ bs') r"
proof -
  from assms(1) obtain m' where m': "r = Inr (haddr (p + 5), h\<lparr>hmem := m'\<rparr>, e)"
      "tiles m' (off + blocks_len pre) bs'"
      "\<forall>j < L. j \<in> used_bytes (off + blocks_len pre) bs \<or> j < off + blocks_len pre \<longrightarrow>
        m' (haddr j) = hmem h (haddr j)"
    by (auto simp: kmalloc_result_def)
  have "tiles m' off (pre @ bs')"
    by (rule tiles_replace_suffix [OF assms(2) _ m'(2)]) (use m'(3) assms(3) in auto)
  moreover have "\<forall>j < L. j \<in> used_bytes off (pre @ bs) \<or> j < off \<longrightarrow> m' (haddr j) = hmem h (haddr j)"
    using m'(3) used_bytes_bounds [of off pre] by (auto simp: used_bytes_append)
  ultimately show ?thesis using m'(1) by (auto simp: kmalloc_result_def)
qed


lemma kmalloc_loop_step:
  assumes "heap_wf h L" and "off + 5 \<le> L" and "no_growth vl e"
  shows "kmalloc_loop (Suc f) vl sz (haddr off) (h, e) =
    (let w = load32 (hmem h) (haddr (Suc off)); next = haddr (off + unat w + 5) in
     if hmem h (haddr off) \<noteq> 0 then kmalloc_loop f vl sz next (h, e)
     else if unat sz \<le> unat w
     then bindE (take_block sz (haddr off) h) (\<lambda>h'. Inr (haddr (off + 5), h', e))
     else bindE (merge_loop f vl sz (haddr off) next w (h, e)) (\<lambda>(stop, he2).
                   case stop of
                     None \<Rightarrow> Inr (haddr (off + 5), he2)
                   | Some next' \<Rightarrow> bindE (go_to_next_memory_region (fst he2) next') (\<lambda>curr'.
                       kmalloc_loop f vl sz curr' he2)))"
proof -
  have L: "L < 2 ^ 31" using assms(1) by (simp add: heap_wf_def)
  then have ne: "\<not> heap_end h \<le> haddr off"
    using assms(1,2) by (simp add: heap_wf_def haddr_le_iff)
  have le: "sz \<le> ucast w \<longleftrightarrow> unat sz \<le> unat w" for w :: u32
    by (simp add: word_le_nat_alt)
  have av: "add_void_ptr (haddr off) 5 = haddr (off + 5)"
    by (simp add: add_void_ptr_def haddr_add)
  show ?thesis
    unfolding kmalloc_loop.simps av
    using heap_reads [OF assms(1,2)] ne
    by (simp add: Let_def le no_growth_simps [OF assms(3)])
qed

text \<open>
  The four ways a turn of the loop goes on, and what the loop as a whole has to do. \<open>loop_meets\<close> compares it with the answer for the blocks.
\<close>

definition loop_meets :: "nat \<Rightarrow> nat \<Rightarrow> block list \<Rightarrow> heap \<Rightarrow> 'e \<Rightarrow> (nat \<times> block list) option \<Rightarrow> (u64 \<times> heap \<times> 'e) result \<Rightarrow> bool" where
  "loop_meets L off bs h e ans r \<longleftrightarrow> (case ans of None \<Rightarrow> r = Inl Page_Fault | Some pb \<Rightarrow> kmalloc_result L off bs h e pb r)"

lemma loop_meets_prefix:
  assumes "loop_meets L (off + blocks_len pre) bs h e ans r" and "tiles (hmem h) off (pre @ bs)" and "off + blocks_len pre \<le> L"
  shows "loop_meets L off (pre @ bs) h e (map_option (\<lambda>(p, bs'). (p, pre @ bs')) ans) r"
  using assms kmalloc_result_prefix [OF _ assms(2,3)] by (auto simp: loop_meets_def split: option.splits)

lemma kmalloc_fits:
  assumes "heap_wf h L" and "tiles (hmem h) off ((False, s) # bs)" and "off + blocks_len ((False, s) # bs) = L" and "unat sz \<le> s" and "5 \<le> unat sz"
  shows "kmalloc_result L off ((False, s) # bs) h e
    (off, if unat sz + 5 < s then (True, unat sz) # (False, s - unat sz - 5) # bs else (True, s) # bs)
    (bindE (take_block sz (haddr off) h) (\<lambda>h'. Inr (haddr (off + 5), h', e)))"
proof -
  have "\<exists>m'. take_block sz (haddr off) h = Inr (h\<lparr>hmem := m'\<rparr>) \<and>
    tiles m' off (if unat sz + 5 < s then (True, unat sz) # (False, s - unat sz - 5) # bs else (True, s) # bs) \<and>
    (\<forall>j. j < off \<or> off + 5 + s \<le> j \<longrightarrow> j < L \<longrightarrow> m' (haddr j) = hmem h (haddr j))"
    using assms by (intro take_block_refines) auto
  then show ?thesis using used_bytes_bounds [of "off + s + 5" bs] by (fastforce simp: kmalloc_result_def)
qed

lemma kmalloc_merges:
  assumes "heap_wf h L" and "tiles (hmem h) off ((False, s) # bs)" and "off + blocks_len ((False, s) # bs) = L" and "\<not> unat sz \<le> s"
    and "absorb (unat sz) s bs = Fits t r"
  shows "kmalloc_result L off ((False, s) # bs) h e
    (off, if unat sz + 5 < t then (True, unat sz) # (False, t - unat sz - 5) # r else (True, s) # bs)
    (bindE (take_merged sz (haddr off) (of_nat t) h) (\<lambda>h'. Inr (haddr (off + 5), h', e)))"
proof -
  obtain p where p: "bs = p @ r" "t = s + blocks_len p" "unat sz \<le> t" "\<forall>x \<in> set p. \<not> fst x" using absorb_Fits [OF assms(5)] by blast
  with assms(4) have "p \<noteq> []" by auto
  then obtain m' where m': "take_merged sz (haddr off) (of_nat t) h = Inr (h\<lparr>hmem := m'\<rparr>)"
      "tiles m' off (if unat sz + 5 < t then (True, unat sz) # (False, t - unat sz - 5) # r else (True, s) # p @ r)"
      "\<forall>j. j < off \<or> off + 5 + t \<le> j \<longrightarrow> j < L \<longrightarrow> m' (haddr j) = hmem h (haddr j)"
    using take_merged_refines [OF assms(1), of off s p r t sz] assms(2,3) p by auto
  have "used_bytes off ((False, s) # bs) \<subseteq> {off + 5 + t ..}"
    using used_bytes_free [OF p(4)] used_bytes_bounds [of "off + s + 5 + blocks_len p" r] p(1,2) by (auto simp: used_bytes_append algebra_simps)
  then show ?thesis unfolding kmalloc_result_def using m' p(1) by (intro exI [of _ m']) auto
qed

lemma kmalloc_loop_free:
  assumes "no_growth vl e" and "heap_wf h L" and "tiles (hmem h) off ((False, s) # bs)" and "off + blocks_len ((False, s) # bs) = L"
    and "length bs < f" and "\<not> unat sz \<le> s"
  shows "kmalloc_loop (Suc f) vl sz (haddr off) (h, e) =
    (case absorb (unat sz) s bs of
       Stuck \<Rightarrow> Inl Page_Fault
     | Fits t r \<Rightarrow> bindE (take_merged sz (haddr off) (of_nat t) h) (\<lambda>h'. Inr (haddr (off + 5), h', e))
     | Blocked p b r \<Rightarrow> kmalloc_loop f vl sz (haddr (off + s + 5 + blocks_len p + (snd b + 5))) (h, e))"
proof -
  let ?w = "load32 (hmem h) (haddr (Suc off))"
  have t: "hmem h (haddr off) = 0" "unat ?w = s" "tiles (hmem h) (off + s + 5) bs" using assms(3) by simp_all
  have L: "L < 2 ^ 31" "off + 5 \<le> L" using assms(2,4) by (simp_all add: heap_wf_def)
  have ml: "merge_loop f vl sz (haddr off) (haddr (off + s + 5)) ?w (h, e) =
    (case absorb (unat sz) s bs of
       Stuck \<Rightarrow> Inl Page_Fault
     | Blocked p b r \<Rightarrow> Inr (Some (haddr (off + s + 5 + blocks_len p)), h, e)
     | Fits t r \<Rightarrow> bindE (take_merged sz (haddr off) (of_nat t) h) (\<lambda>h'. Inr (None, h', e)))"
    using merge_loop_refines [OF assms(1,2) t(3), of ?w f sz "haddr off"] assms(4,5) t L by simp
  have nx: "go_to_next_memory_region h (haddr (off + s + 5 + blocks_len p)) = Inr (haddr (off + s + 5 + blocks_len p + (snd b + 5)))"
    if "absorb (unat sz) s bs = Blocked p b r" for p b r
  proof -
    have p: "bs = p @ b # r" using absorb_Blocked [OF that] by blast
    obtain u z where b: "b = (u, z)" by (cases b)
    have "tiles (hmem h) (off + s + 5 + blocks_len p) (b # r)" using t(3) p by (simp add: tiles_append)
    then show ?thesis
      using heap_reads(3) [OF assms(2), of "off + s + 5 + blocks_len p"] assms(4) p b by (simp add: algebra_simps)
  qed
  show ?thesis
    using kmalloc_loop_step [OF assms(2) L(2) assms(1), of f sz] t assms(6) ml nx
    by (auto simp: Let_def bindE_assoc split: absorbed.split)
qed

lemma kmalloc_skips:
  assumes tl: "tiles (hmem h) off ((False, s) # bs)" "off + blocks_len ((False, s) # bs) = L" and nofit: "\<not> n \<le> s"
    and abs: "absorb n s bs = Blocked p b r"
    and ih: "tiles (hmem h) q r \<Longrightarrow> q + blocks_len r = L \<Longrightarrow> length r < length bs \<Longrightarrow> loop_meets L q r h e (kmalloc_abs n q r) res"
    and q: "q = off + s + 5 + blocks_len p + (snd b + 5)"
  shows "loop_meets L off ((False, s) # bs) h e (kmalloc_abs n off ((False, s) # bs)) res"
proof -
  have p: "bs = p @ b # r" using absorb_Blocked [OF abs] by blast
  have pre: "((False, s) # p @ [b]) @ r = (False, s) # bs" "off + blocks_len ((False, s) # p @ [b]) = q" by (simp_all add: p q)
  have tl': "tiles (hmem h) off (((False, s) # p @ [b]) @ r)" "q + blocks_len r = L" using tl by (simp_all add: p q)
  then have "tiles (hmem h) q r" by (simp only: tiles_append pre(2))
  then have "loop_meets L q r h e (kmalloc_abs n q r) res" using ih tl'(2) p by simp
  from loop_meets_prefix [of L off "(False, s) # p @ [b]" r, unfolded pre, OF this] tl' tl(1)
  show ?thesis using nofit abs by (simp add: q)
qed

lemma kmalloc_loop_refines:
  assumes "no_growth vl e" and "5 \<le> unat sz"
  shows "heap_wf h L \<Longrightarrow> tiles (hmem h) off bs \<Longrightarrow> off + blocks_len bs = L \<Longrightarrow> length bs < fuel \<Longrightarrow>
    loop_meets L off bs h e (kmalloc_abs (unat sz) off bs) (kmalloc_loop fuel vl sz (haddr off) (h, e))"
proof (induction "unat sz" off bs arbitrary: fuel rule: kmalloc_abs.induct)
  case (1 off)
  then obtain f where "fuel = Suc f" by (cases fuel) auto
  with 1 show ?case
    by (simp add: loop_meets_def no_growth_simps [OF assms(1)] write_new_mem_reg_def heap_end_fault heap_wf_def)
next
  case (2 off s bs)
  obtain f where f: "fuel = Suc f" using 2 by (cases fuel) auto
  have t: "hmem h (haddr off) \<noteq> 0" "unat (load32 (hmem h) (haddr (Suc off))) = s" "tiles (hmem h) (off + s + 5) bs" using "2.prems"(2) by simp_all
  have "kmalloc_loop fuel vl sz (haddr off) (h, e) = kmalloc_loop f vl sz (haddr (off + s + 5)) (h, e)"
    using kmalloc_loop_step [OF "2.prems"(1) _ assms(1), of off f sz] "2.prems"(3) t by (simp add: f Let_def)
  moreover have "loop_meets L (off + s + 5) bs h e (kmalloc_abs (unat sz) (off + s + 5) bs) (kmalloc_loop f vl sz (haddr (off + s + 5)) (h, e))"
    using "2.prems" t f by (intro "2.hyps") simp_all
  ultimately show ?case using loop_meets_prefix [of L off "[(True, s)]" bs h e] "2.prems" by (simp add: add.assoc)
next
  case (3 off s bs)
  obtain f where f: "fuel = Suc f" using 3 by (cases fuel) auto
  show ?case
  proof (cases "unat sz \<le> s")
    case True
    then show ?thesis
      using kmalloc_loop_step [OF "3.prems"(1) _ assms(1), of off f sz] kmalloc_fits [OF "3.prems"(1-3) True assms(2), of e] "3.prems"(2,3)
      by (simp add: f Let_def loop_meets_def)
  next
    case nofit: False
    have step: "kmalloc_loop fuel vl sz (haddr off) (h, e) = (case absorb (unat sz) s bs of
         Stuck \<Rightarrow> Inl Page_Fault
       | Fits t r \<Rightarrow> bindE (take_merged sz (haddr off) (of_nat t) h) (\<lambda>h'. Inr (haddr (off + 5), h', e))
       | Blocked p b r \<Rightarrow> kmalloc_loop f vl sz (haddr (off + s + 5 + blocks_len p + (snd b + 5))) (h, e))"
      unfolding f by (rule kmalloc_loop_free [OF assms(1) "3.prems"(1-3) _ nofit]) (use "3.prems"(4) f in simp)
    show ?thesis
    proof (cases "absorb (unat sz) s bs")
      case Stuck
      then show ?thesis using nofit by (simp add: step loop_meets_def)
    next
      case (Fits t r)
      then show ?thesis using nofit kmalloc_merges [OF "3.prems"(1-3) nofit Fits, of e] by (simp add: step loop_meets_def)
    next
      case (Blocked p b r)
      let ?q = "off + s + 5 + blocks_len p + (snd b + 5)"
      have "loop_meets L off ((False, s) # bs) h e (kmalloc_abs (unat sz) off ((False, s) # bs)) (kmalloc_loop f vl sz (haddr ?q) (h, e))"
        by (rule kmalloc_skips [OF "3.prems"(2,3) nofit Blocked _ refl]) (use "3.hyps" [OF nofit Blocked "3.prems"(1)] "3.prems"(4) f in simp)
      then show ?thesis by (simp only: step Blocked absorbed.case)
    qed
  qed
qed


section \<open>What an allocation guarantees\<close>

fun block_at :: "nat \<Rightarrow> block list \<Rightarrow> nat \<Rightarrow> block option" where
  "block_at off [] p = None"
| "block_at off (b # bs) p = (if p = off then Some b else block_at (off + snd b + 5) bs p)"

lemma block_at_append:
  "block_at off (bs @ cs) p =
     (case block_at off bs p of Some b \<Rightarrow> Some b | None \<Rightarrow> block_at (off + blocks_len bs) cs p)"
proof (induction bs arbitrary: off)
  case (Cons b bs)
  show ?case using Cons.IH [of "off + snd b + 5"] by (simp add: add.assoc split: option.split)
qed simp

lemma block_at_bounds: "block_at off bs p = Some b \<Longrightarrow> off \<le> p \<and> p + snd b + 5 \<le> off + blocks_len bs"
  by (induction bs arbitrary: off) (fastforce split: if_splits)+

lemma block_at_free: "block_at off bs p = Some b \<Longrightarrow> \<forall>x \<in> set bs. \<not> fst x \<Longrightarrow> \<not> fst b"
  by (induction bs arbitrary: off) (auto split: if_splits)

text \<open>
  What the list-level allocator does: the heap keeps its length, every used block stays where it
  is with its size, the returned block was free and is used now, and nothing else becomes used.
\<close>

definition alloc_safe :: "nat \<Rightarrow> block list \<Rightarrow> nat \<Rightarrow> block list \<Rightarrow> bool" where
  "alloc_safe off bs p bs' \<longleftrightarrow>
     blocks_len bs' = blocks_len bs \<and>
     (\<exists>s. block_at off bs p = Some (False, s)) \<and> (\<exists>s. block_at off bs' p = Some (True, s)) \<and>
     (\<forall>q s. q \<noteq> p \<longrightarrow> block_at off bs' q = Some (True, s) \<longleftrightarrow> block_at off bs q = Some (True, s))"

lemma block_at_below: "p < off \<Longrightarrow> block_at off bs p = None"
  using block_at_bounds [of off bs p] by (cases "block_at off bs p") auto

lemma block_at_above: "off + blocks_len bs \<le> p \<Longrightarrow> block_at off bs p = None"
  using block_at_bounds [of off bs p] by (cases "block_at off bs p") auto

lemma alloc_safe_prefix:
  assumes "alloc_safe (off + blocks_len pre) bs p bs'"
  shows "alloc_safe off (pre @ bs) p (pre @ bs')"
proof -
  from assms have "off + blocks_len pre \<le> p"
    unfolding alloc_safe_def using block_at_bounds by blast
  then have "block_at off pre p = None" by (rule block_at_above)
  with assms show ?thesis by (auto simp: alloc_safe_def block_at_append split: option.splits)
qed

lemma alloc_safe_split:
  assumes "\<forall>x \<in> set fr. \<not> fst x" and "t = s + blocks_len fr" and "n + 5 < t"
  shows "alloc_safe off ((False, s) # fr @ r) off ((True, n) # (False, t - n - 5) # r)"
proof -
  have "off + n + 5 + (t - n - 5) + 5 = off + t + 5" using assms(3) by simp
  moreover have "block_at off ((False, s) # fr @ r) q = Some (True, z) \<longleftrightarrow>
      block_at (off + t + 5) r q = Some (True, z)" if "q \<noteq> off" for q z
  proof (cases "block_at (off + s + 5) fr q")
    case None
    then show ?thesis using that assms(2) by (simp add: block_at_append add.assoc add.commute add.left_commute)
  next
    case (Some b)
    with assms(1) have "\<not> fst b" by (rule block_at_free [rotated])
    moreover have "q < off + t + 5" using block_at_bounds [OF Some] assms(2) by simp
    ultimately show ?thesis using Some that block_at_below [of q "off + t + 5" r] by (cases b) (auto simp: block_at_append)
  qed
  moreover have "block_at (off + t + 5) r (off + n + 5) = None"
    using assms(3) by (intro block_at_below) simp
  ultimately show ?thesis using assms(2,3) by (auto simp: alloc_safe_def)
qed

lemma alloc_safe_whole: "alloc_safe off ((False, s) # bs) off ((True, s) # bs)"
  by (auto simp: alloc_safe_def)

lemma kmalloc_abs_safe: "kmalloc_abs n off bs = Some (p, bs') \<Longrightarrow> alloc_safe off bs p bs'"
proof (induction n off bs arbitrary: bs' rule: kmalloc_abs.induct)
  case (2 n off s bs)
  then obtain cs where cs: "kmalloc_abs n (off + s + 5) bs = Some (p, cs)" "bs' = (True, s) # cs"
    by (auto split: option.splits)
  with alloc_safe_prefix [of off "[(True, s)]" bs p cs] "2.IH" [OF cs(1)] show ?case
    by (simp add: add.assoc)
next
  case (3 n off s bs)
  show ?case
  proof (cases "n \<le> s")
    case True
    with "3.prems" alloc_safe_split [of "[]" s s n off bs] alloc_safe_whole [of off s bs] show ?thesis
      by (auto split: if_splits)
  next
    case nofit: False
    show ?thesis
    proof (cases "absorb n s bs")
      case (Fits t r)
      from absorb_Fits [OF this] obtain fr where "bs = fr @ r" "t = s + blocks_len fr" "\<forall>x \<in> set fr. \<not> fst x"
        by blast
      with "3.prems" nofit Fits alloc_safe_split [of fr t s n off r] alloc_safe_whole [of off s bs] show ?thesis
        by (auto split: if_splits)
    next
      case (Blocked q b r)
      then have bs: "bs = q @ b # r" using absorb_Blocked by blast
      have len: "off + blocks_len ((False, s) # q @ [b]) = off + s + 5 + blocks_len q + (snd b + 5)" by simp
      from "3.prems" nofit Blocked obtain cs where
        cs: "kmalloc_abs n (off + blocks_len ((False, s) # q @ [b])) r = Some (p, cs)" "bs' = ((False, s) # q @ [b]) @ cs"
        unfolding len by (auto split: option.splits)
      from "3.IH" [OF nofit Blocked] cs(1) have "alloc_safe (off + blocks_len ((False, s) # q @ [b])) r p cs"
        unfolding len by blast
      from alloc_safe_prefix [OF this] bs cs(2) show ?thesis by simp
    qed (use "3.prems" nofit in simp)
  qed
qed simp


lemma kmalloc_abs_size:
  "kmalloc_abs n off bs = Some (p, bs') \<Longrightarrow> block_at off bs p = Some (False, s) \<Longrightarrow> n \<le> s \<Longrightarrow>
     \<exists>z. block_at off bs' p = Some (True, z) \<and> n \<le> z"
proof (induction n off bs arbitrary: bs' rule: kmalloc_abs.induct)
  case (2 n off z bs)
  then obtain cs where cs: "kmalloc_abs n (off + z + 5) bs = Some (p, cs)" "bs' = (True, z) # cs"
    by (auto split: option.splits)
  with "2.IH" [OF cs(1)] "2.prems" show ?case by (auto split: if_splits)
next
  case (3 n off z bs)
  show ?case
  proof (cases "n \<le> z")
    case True
    with "3.prems" show ?thesis by (auto split: if_splits)
  next
    case nofit: False
    show ?thesis
    proof (cases "absorb n z bs")
      case (Fits t r)
      with "3.prems" nofit show ?thesis by (auto split: if_splits)
    next
      case (Blocked q b r)
      then have bs: "bs = q @ b # r" using absorb_Blocked by blast
      let ?pre = "(False, z) # q @ [b]"
      have len: "off + blocks_len ?pre = off + z + 5 + blocks_len q + (snd b + 5)" by simp
      from "3.prems"(1) nofit Blocked obtain cs where
        cs: "kmalloc_abs n (off + blocks_len ?pre) r = Some (p, cs)" "bs' = ?pre @ cs"
        unfolding len by (auto split: option.splits)
      then have ge: "off + blocks_len ?pre \<le> p"
        using kmalloc_abs_safe [OF cs(1)] block_at_bounds unfolding alloc_safe_def by blast
      then have none: "block_at off ?pre p = None" by (rule block_at_above)
      then have "block_at (off + blocks_len ?pre) r p = Some (False, s)"
        using "3.prems"(2) bs block_at_append [of off ?pre r p] by simp
      then have "\<exists>z. block_at (off + blocks_len ?pre) cs p = Some (True, z) \<and> n \<le> z"
        using "3.IH" [OF nofit Blocked] cs(1) "3.prems"(3) unfolding len by blast
      then show ?thesis using none cs(2) block_at_append [of off ?pre cs p] by simp
    qed (use "3.prems" nofit in simp)
  qed
qed simp

lemma kmalloc_refines:
  assumes "heap_rep h bs" and "no_growth vl e" and "5 \<le> unat sz" and "length bs < fuel"
  shows "case kmalloc_abs (unat sz) 0 bs of
      None \<Rightarrow> kmalloc fuel vl sz (h, e) = Inl Page_Fault
    | Some (p, bs') \<Rightarrow> \<exists>m'. kmalloc fuel vl sz (h, e) = Inr (haddr (p + 5), h\<lparr>hmem := m'\<rparr>, e) \<and>
        heap_rep (h\<lparr>hmem := m'\<rparr>) bs' \<and> (\<forall>j \<in> used_bytes 0 bs. m' (haddr j) = hmem h (haddr j))"
proof (cases "kmalloc_abs (unat sz) 0 bs")
  case None
  with kmalloc_loop_refines [OF assms(2,3), of h "blocks_len bs" 0 bs fuel] assms(1,4) show ?thesis
    by (simp add: heap_rep_def kmalloc_def loop_meets_def)
next
  case (Some pb)
  obtain p bs' where pb: "pb = (p, bs')" by (cases pb)
  from kmalloc_loop_refines [OF assms(2,3), of h "blocks_len bs" 0 bs fuel] assms(1,4) Some pb
  obtain m' where m': "kmalloc fuel vl sz (h, e) = Inr (haddr (p + 5), h\<lparr>hmem := m'\<rparr>, e)" "tiles m' 0 bs'"
      "\<forall>j < blocks_len bs. j \<in> used_bytes 0 bs \<longrightarrow> m' (haddr j) = hmem h (haddr j)"
    by (auto simp: heap_rep_def kmalloc_def kmalloc_result_def loop_meets_def)
  moreover have "blocks_len bs' = blocks_len bs"
    using kmalloc_abs_safe [of "unat sz" 0 bs p bs'] Some pb by (simp add: alloc_safe_def)
  moreover have "\<forall>j \<in> used_bytes 0 bs. j < blocks_len bs" using used_bytes_bounds [of 0 bs] by auto
  ultimately show ?thesis using assms(1) Some pb by (auto simp: heap_rep_def)
qed

lemma kfree_block:
  assumes "heap_rep h (pre @ (u, s) # post)"
  shows "kfree h (haddr (blocks_len pre + 5)) = Inr (h\<lparr>hmem := set_used (hmem h) (blocks_len pre) False\<rparr>)"
    and "heap_rep (h\<lparr>hmem := set_used (hmem h) (blocks_len pre) False\<rparr>) (pre @ (False, s) # post)"
proof -
  let ?k = "blocks_len pre" and ?L = "blocks_len (pre @ (u, s) # post)"
  have wf: "heap_wf h ?L" and t: "tiles (hmem h) 0 (pre @ (u, s) # post)"
    using assms by (simp_all only: heap_rep_def)
  have L: "?L < 2 ^ 31" using wf by (simp add: heap_wf_def)
  have "haddr (?k + 5) - 5 = haddr ?k" by (simp add: haddr_def)
  then show "kfree h (haddr (?k + 5)) = Inr (h\<lparr>hmem := set_used (hmem h) ?k False\<rparr>)"
    using heap_writes(1) [OF wf, of ?k False] by (simp add: kfree_def)
  have "tiles (set_used (hmem h) ?k False) 0 (pre @ (False, s) # post)"
  proof (rule tiles_replace_suffix [OF t])
    show "set_used (hmem h) ?k False (haddr j) = hmem h (haddr j)" if "j < 0 + ?k" for j
      using that L by (simp add: set_used_other)
    show "tiles (set_used (hmem h) ?k False) (0 + ?k) ((False, s) # post)"
      using t L tiles_set_used [of ?k s post "hmem h" u False] by (simp only: tiles_append) simp
  qed
  with wf show "heap_rep (h\<lparr>hmem := set_used (hmem h) ?k False\<rparr>) (pre @ (False, s) # post)"
    by (simp add: heap_rep_def)
qed


definition fresh_heap :: "mem \<Rightarrow> heap" where
  "fresh_heap m = (boot_heap m)\<lparr>hmem := set_header m 0 False 4091\<rparr>"

lemma kheap_init_boot: "kheap_init (boot_heap m) = Inr (fresh_heap m)"
  and fresh_heap_rep: "heap_rep (fresh_heap m) [(False, 4091)]"
proof -
  have wf: "heap_wf (boot_heap m) 0x1000"
    by (simp add: heap_wf_def boot_heap_def haddr_def PAGE_SIZE_def)
  have sz: "ucast (ucast (ucast (heap_start + 0x1000) :: u32) - heap_start - 5 :: u64) = (4091 :: u32)"
    by (simp add: heap_start_def KERNEL_HEAP_START_def)
  let ?h1 = "(boot_heap m)\<lparr>hmem := set_used m 0 False\<rparr>"
  have w1: "write_used (boot_heap m) heap_start False = Inr ?h1"
    using heap_writes(1) [OF wf, of 0 False] by (simp add: boot_heap_def)
  have w2: "write_size ?h1 heap_start 4091 = Inr (fresh_heap m)"
    using heap_writes(2) [where h = ?h1 and L = "0x1000" and k = 0 and n = 4091] wf
    by (simp add: set_header_def fresh_heap_def)
  have "heap_end ?h1 = heap_start + 0x1000" by (simp add: boot_heap_def PAGE_SIZE_def)
  with w1 w2 sz show "kheap_init (boot_heap m) = Inr (fresh_heap m)" by (simp add: kheap_init_def)
  show "heap_rep (fresh_heap m) [(False, 4091)]"
    using wf set_header_reads [of 0 m False 4091] by (simp add: heap_rep_def fresh_heap_def)
qed

subsection \<open>The heap as a source of objects\<close>

lemma tiles_unique:
  "tiles m off bs \<Longrightarrow> tiles m off cs \<Longrightarrow> blocks_len bs = blocks_len cs \<Longrightarrow> bs = cs"
proof (induction bs arbitrary: off cs)
  case Nil
  then show ?case by (cases cs) auto
next
  case (Cons b bs)
  then obtain c cs' where cs: "cs = c # cs'" by (cases cs) auto
  with Cons.prems have "b = c" by (cases b; cases c) auto
  with Cons cs show ?case by (cases b) auto
qed

lemma heap_rep_unique: "heap_rep h bs \<Longrightarrow> heap_rep h cs \<Longrightarrow> bs = cs"
proof (rule tiles_unique)
  assume *: "heap_rep h bs" "heap_rep h cs"
  then have "haddr (blocks_len bs) = haddr (blocks_len cs)" "blocks_len bs < 2 ^ 31" "blocks_len cs < 2 ^ 31"
    by (auto simp: heap_rep_def heap_wf_def)
  then show "blocks_len bs = blocks_len cs" using haddr_eq_iff by simp
qed (auto simp: heap_rep_def)

lemma merge_loop_mono: "res_le (merge_loop n vl sz cur nxt mrs he) (merge_loop (Suc n) vl sz cur nxt mrs he)"
proof (induction n arbitrary: nxt mrs he)
  case (Suc n)
  show ?case
    unfolding merge_loop.simps(2) [of n vl sz cur nxt mrs he] merge_loop.simps(2) [of "Suc n" vl sz cur nxt mrs he]
    by (intro res_mono Suc.IH)
qed simp

lemma kmalloc_loop_mono: "res_le (kmalloc_loop n vl sz cur he) (kmalloc_loop (Suc n) vl sz cur he)"
proof (induction n arbitrary: cur he)
  case (Suc n)
  show ?case
    unfolding kmalloc_loop.simps(2) [of n vl sz cur he] kmalloc_loop.simps(2) [of "Suc n" vl sz cur he]
    by (intro res_mono Suc.IH merge_loop_mono)
qed simp

lemma kmalloc_more_fuel: "kmalloc n vl sz he = Inr r \<Longrightarrow> kmalloc (n + k) vl sz he = Inr r"
proof (induction k)
  case (Suc k)
  then show ?case
    unfolding kmalloc_def add_Suc_right by (intro res_leD [OF kmalloc_loop_mono]) simp
qed simp

definition live_objects :: "heap \<times> 'e \<Rightarrow> u64 set" where
  "live_objects he = {haddr (p + 5) | p s bs. heap_rep (fst he) bs \<and> block_at 0 bs p = Some (True, s)}"

lemma live_objects_eq:
  "heap_rep h bs \<Longrightarrow> live_objects (h, e) = {haddr (p + 5) | p s. block_at 0 bs p = Some (True, s)}"
  by (auto simp: live_objects_def dest: heap_rep_unique)

text \<open>A safe allocation at offset \<open>k\<close> makes one new object.\<close>

lemma alloc_safe_object:
  assumes rep: "heap_rep h bs" "heap_rep h' bs'" and safe: "alloc_safe 0 bs k bs'"
  shows "haddr (k + 5) \<notin> live_objects (h, e)" and "haddr (k + 5) \<noteq> 0"
    and "live_objects (h', e') = insert (haddr (k + 5)) (live_objects (h, e))"
proof -
  obtain s z where s: "block_at 0 bs k = Some (False, s)" "block_at 0 bs' k = Some (True, z)"
      "\<And>q x. q \<noteq> k \<Longrightarrow> block_at 0 bs' q = Some (True, x) \<longleftrightarrow> block_at 0 bs q = Some (True, x)"
    using safe by (auto simp: alloc_safe_def)
  have small: "q + 5 < 2 ^ 32" if "block_at 0 bs q = Some b" for q b
    using block_at_bounds [OF that] rep(1) by (simp add: heap_rep_def heap_wf_def)
  have "haddr (q + 5) \<noteq> haddr (k + 5)" if "block_at 0 bs q = Some (True, x)" for q x
    using haddr_eq_iff [OF small [OF that] small [OF s(1)]] that s(1) by auto
  then show "haddr (k + 5) \<notin> live_objects (h, e)" unfolding live_objects_eq [OF rep(1)] by force
  have "unat (haddr (k + 5)) \<noteq> 0"
    using unat_haddr [OF small [OF s(1)]] by (simp add: heap_start_def KERNEL_HEAP_START_def)
  then show "haddr (k + 5) \<noteq> 0" by auto
  have "block_at 0 bs' q = Some (True, x) \<Longrightarrow> q = k \<or> block_at 0 bs q = Some (True, x)"
    "block_at 0 bs q = Some (True, x) \<Longrightarrow> block_at 0 bs' q = Some (True, x)" for q x
    using s by (cases "q = k"; simp)+
  then show "live_objects (h', e') = insert (haddr (k + 5)) (live_objects (h, e))"
    unfolding live_objects_eq [OF rep(1)] live_objects_eq [OF rep(2)] using s(2) by blast
qed

lemma kmalloc_new_object:
  assumes "heap_rep h bs" and "no_growth vl e" and "5 \<le> unat sz" and "kmalloc n vl sz (h, e) = Inr (p, h', e')"
  shows "p \<notin> live_objects (h, e) \<and> p \<noteq> 0 \<and> live_objects (h', e') = insert p (live_objects (h, e)) \<and>
    (\<exists>bs'. heap_rep h' bs') \<and> e' = e"
proof -
  have "kmalloc (n + Suc (length bs)) vl sz (h, e) = Inr (p, h', e')"
    by (rule kmalloc_more_fuel [OF assms(4)])
  moreover have "length bs < n + Suc (length bs)" by simp
  ultimately obtain k bs' where k: "kmalloc_abs (unat sz) 0 bs = Some (k, bs')" "p = haddr (k + 5)"
      "heap_rep h' bs'" "e' = e"
    using kmalloc_refines [OF assms(1,2,3), of "n + Suc (length bs)"]
    by (auto simp del: add_Suc_right split: option.splits)
  note new = alloc_safe_object [OF assms(1) k(3) kmalloc_abs_safe [OF k(1)]]
  show ?thesis unfolding k(2,4) by (intro conjI new exI [of _ bs'] k(3) refl)
qed


interpretation kernel_heap: object_heap "kmalloc fuel vl sz" live_objects
    "\<lambda>he. no_growth vl (snd he) \<and> 5 \<le> unat sz \<and> (\<exists>bs. heap_rep (fst he) bs)" for fuel vl sz
proof
  fix he he' :: "heap \<times> 'a" and p
  assume "no_growth vl (snd he) \<and> 5 \<le> unat sz \<and> (\<exists>bs. heap_rep (fst he) bs)" "kmalloc fuel vl sz he = Inr (p, he')"
  then show "p \<notin> live_objects he \<and> p \<noteq> 0 \<and> live_objects he' = insert p (live_objects he) \<and>
      no_growth vl (snd he') \<and> 5 \<le> unat sz \<and> (\<exists>bs. heap_rep (fst he') bs)"
    using kmalloc_new_object [of "fst he" _ vl "snd he" sz fuel p "fst he'" "snd he'"] by auto
qed

section \<open>Properties\<close>

text \<open>The growth function of a kernel whose heap has no \<open>vm_object\<close>: it reports failure.\<close>

definition no_lengthen :: "'e lengthen" where
  "no_lengthen addr len he = Inr (False, he)"

lemma no_growth_no_lengthen [simp]: "no_growth no_lengthen e"
  by (simp add: no_growth_def no_lengthen_def)




lemma kmalloc_fresh_32:
  "\<exists>h'. kmalloc 2 no_lengthen 32 (fresh_heap m, ()) = Inr (haddr 5, h', ())"
  using kmalloc_refines [OF fresh_heap_rep [of m] no_growth_no_lengthen, where sz = 32 and fuel = 2 and e = "()"] by auto




text \<open>
  \<open>kheap_init\<close> on the boot page produces one free block that fills the page, and \<open>kfree\<close> of the address of a
  block marks exactly that block free: the list of blocks is otherwise unchanged and no byte but the
  \<open>used\<close> flag is written.\<close>

theorem kfree_releases:
  assumes "heap_rep h (pre @ (u, s) # post)"
  shows "\<exists>h'. kfree h (haddr (blocks_len pre + 5)) = Inr h' \<and> heap_rep h' (pre @ (False, s) # post) \<and>
     (\<forall>a. a \<noteq> haddr (blocks_len pre) \<longrightarrow> hmem h' a = hmem h a)"
  using kfree_block [OF assms] by (auto simp: set_used_def)

theorem kfree_releases_witness:
  "\<exists>h0 h'. kheap_init (boot_heap (\<lambda>_. 0)) = Inr h0 \<and> kfree h0 (haddr 5) = Inr h' \<and> heap_rep h' [(False, 4091)]"
  using kfree_releases [of "fresh_heap (\<lambda>_. 0)" "[]" False 4091 "[]"] fresh_heap_rep [of "\<lambda>_. 0"]
  by (auto simp: kheap_init_boot)


lemma overlap_heap_rep:
  "heap_rep \<lparr>hmem = set_header (set_header (\<lambda>_. 0) 0 False 8) 13 False 8, heap_end = haddr 26, mapped_end = haddr 26\<rparr>
     [(False, 8), (False, 8)]"
proof -
  have "tiles (set_header (set_header (\<lambda>_. 0) 0 False 8) 13 False 8) 13 [(False, unat (8 :: u32))]"
    by (subst tiles_set_header) simp_all
  moreover have "load32 (set_header (set_header (\<lambda>_. 0) 0 False 8) 13 False 8) (haddr 1) =
      load32 (set_header (\<lambda>_. 0) 0 False 8) (haddr 1)"
    by (rule load32_haddr_cong) (simp add: set_header_other)
  moreover have "set_header (set_header (\<lambda>_. 0) 0 False 8) 13 False 8 (haddr 0) = set_header (\<lambda>_. 0) 0 False 8 (haddr 0)"
    by (rule set_header_other) simp_all
  ultimately show ?thesis
    using set_header_reads [of 0 "\<lambda>_. 0" False 8] by (simp add: heap_rep_def heap_wf_def)
qed


end
