(* ===== verification/Vmm_hashmap.thy ===== *)
theory Vmm_hashmap
  imports Kheap
begin

text \<open>
  The hash map of page tables of kernel/mm/vmm_hashmap.c: 20 buckets of singly linked nodes that
  take the physical address of a page table to the virtual address it is mapped at, and the list of freed
  nodes. Nodes are objects of the kernel heap and are kept in a typed store by address. The lemmas
  describe every operation on the chains of a well-formed map, and show which inserted tables are found again.
  \<open>alloc_pg_table\<close>, the last function of the file, calls \<open>mmap\<close> and is part of the theory Vmm.
\<close>

section \<open>State and operations\<close>

definition HASH_MAP_BUCKETS :: nat where
  "HASH_MAP_BUCKETS = 20"

text \<open>\<open>vmm_hashmap_put\<close> does not write \<open>level\<close>: it is \<open>None\<close> until some code does.\<close>

record page_table_t =
  pt_level :: "u8 option"
  pt_vaddr :: u64
  pt_paddr :: u64
  pt_used :: bool
  pt_next :: u64

text \<open>
  \<open>hm_ptr\<close> is the global \<open>vmm_hashmap\<close> (\<open>NULL\<close> before initialisation) and \<open>hm_buckets\<close> the array it points to;
  \<open>tables\<close> is the head of the list of freed nodes.
\<close>

record hashmap =
  hm_ptr :: u64
  hm_buckets :: "u64 list"
  hm_nodes :: "u64 \<rightharpoonup> page_table_t"
  tables :: u64

definition hash_function :: "u64 \<Rightarrow> nat" where
  "hash_function paddr = unat paddr mod HASH_MAP_BUCKETS"

definition get_node :: "hashmap \<Rightarrow> u64 \<Rightarrow> page_table_t result" where
  "get_node hm p = (case hm_nodes hm p of None \<Rightarrow> Inl Null_Deref | Some nd \<Rightarrow> Inr nd)"

definition set_node :: "hashmap \<Rightarrow> u64 \<Rightarrow> page_table_t \<Rightarrow> hashmap" where
  "set_node hm p nd = hm\<lparr>hm_nodes := (hm_nodes hm)(p \<mapsto> nd)\<rparr>"

text \<open>
  The walk of \<open>pg_tbl_insert\<close> from a node that exists. It stops with the node that has the same physical address
  (the first node of the bucket is never compared) or with the last node.
\<close>

fun insert_walk :: "nat \<Rightarrow> hashmap \<Rightarrow> u64 \<Rightarrow> u64 \<Rightarrow> (bool \<times> u64) result" where
  "insert_walk 0 hm cur paddr = Inl Out_Of_Fuel"
| "insert_walk (Suc n) hm cur paddr =
     bindE (get_node hm cur) (\<lambda>c.
       if pt_next c \<noteq> 0
       then bindE (get_node hm (pt_next c)) (\<lambda>nx.
              if pt_paddr nx = paddr then Inr (True, pt_next c) else insert_walk n hm (pt_next c) paddr)
       else Inr (False, cur))"

definition pg_tbl_insert :: "nat \<Rightarrow> u64 \<Rightarrow> hashmap \<Rightarrow> (bool \<times> hashmap) result" where
  "pg_tbl_insert n table hm =
     bindE (get_node hm table) (\<lambda>t.
     if hm_ptr hm = 0 then Inl Null_Deref
     else
       let bucket_index = hash_function (pt_paddr t);
           first = hm_buckets hm ! bucket_index
       in if first = 0
          then Inr (True, hm\<lparr>hm_buckets := (hm_buckets hm)[bucket_index := table]\<rparr>)
          else bindE (insert_walk n hm first (pt_paddr t)) (\<lambda>(found, p).
               bindE (get_node hm p) (\<lambda>nd.
                 if found then Inr (False, set_node hm p (nd\<lparr>pt_vaddr := pt_vaddr t\<rparr>))
                 else Inr (True, set_node hm p (nd\<lparr>pt_next := table\<rparr>)))))"

text \<open>The comment says the first node is popped; the code returns the second one and pops nothing.\<close>

definition get_freed_pg_tbl :: "hashmap \<Rightarrow> u64 result" where
  "get_freed_pg_tbl hm =
     (if tables hm = 0 then Inr 0 else bindE (get_node hm (tables hm)) (\<lambda>t. Inr (pt_next t)))"

text \<open>\<open>vmm_hashmap_init\<close> and \<open>vmm_hashmap_put\<close> behind their call of \<open>kmalloc\<close>, which returned \<open>p\<close>.\<close>

definition hashmap_init_at :: "u64 \<Rightarrow> hashmap \<Rightarrow> hashmap" where
  "hashmap_init_at p hm = hm\<lparr>hm_ptr := p, hm_buckets := replicate HASH_MAP_BUCKETS 0\<rparr>"

definition put_node_at :: "nat \<Rightarrow> u64 \<Rightarrow> u64 \<Rightarrow> u64 \<Rightarrow> hashmap \<Rightarrow> (bool \<times> hashmap) result" where
  "put_node_at n p vaddr paddr hm =
     pg_tbl_insert n p
       (set_node hm p \<lparr>pt_level = None, pt_vaddr = vaddr, pt_paddr = paddr, pt_used = True, pt_next = 0\<rparr>)"

fun lookup_walk :: "nat \<Rightarrow> hashmap \<Rightarrow> u64 \<Rightarrow> u64 \<Rightarrow> u64 result" where
  "lookup_walk 0 hm cur paddr = Inl Out_Of_Fuel"
| "lookup_walk (Suc n) hm cur paddr =
     (if cur = 0 then Inr 0
      else bindE (get_node hm cur) (\<lambda>c.
             if pt_paddr c = paddr then Inr (pt_vaddr c) else lookup_walk n hm (pt_next c) paddr))"

definition get_ptbl_vaddr :: "nat \<Rightarrow> hashmap \<Rightarrow> u64 \<Rightarrow> u64 result" where
  "get_ptbl_vaddr n hm paddr =
     (if hm_ptr hm = 0 then Inr 0
      else lookup_walk n hm (hm_buckets hm ! hash_function paddr) paddr)"

fun remove_walk :: "nat \<Rightarrow> hashmap \<Rightarrow> u64 \<Rightarrow> u64 \<Rightarrow> (bool \<times> hashmap) result" where
  "remove_walk 0 hm cur paddr = Inl Out_Of_Fuel"
| "remove_walk (Suc n) hm cur paddr =
     bindE (get_node hm cur) (\<lambda>c.
       if pt_next c = 0 then Inr (False, hm)
       else bindE (get_node hm (pt_next c)) (\<lambda>nx.
         if pt_paddr nx = paddr
         then let to_be_freed = pt_next c;
                  hm1 = set_node hm cur (c\<lparr>pt_next := pt_next nx\<rparr>);
                  hm2 = set_node hm1 to_be_freed (nx\<lparr>pt_next := tables hm\<rparr>)
              in Inr (True, hm2\<lparr>tables := to_be_freed\<rparr>)
         else remove_walk n hm (pt_next c) paddr))"

definition vmm_hashmap_remove :: "nat \<Rightarrow> u64 \<Rightarrow> hashmap \<Rightarrow> (bool \<times> hashmap) result" where
  "vmm_hashmap_remove n paddr hm =
     (if hm_ptr hm = 0 then Inr (False, hm)
      else let first = hm_buckets hm ! hash_function paddr
           in if first = 0 then Inr (False, hm) else remove_walk n hm first paddr)"

section \<open>Chains\<close>

text \<open>\<open>chain N p ps\<close>: following \<open>next\<close> from \<open>p\<close> visits the nodes \<open>ps\<close> and ends in \<open>NULL\<close>.\<close>

fun chain :: "(u64 \<rightharpoonup> page_table_t) \<Rightarrow> u64 \<Rightarrow> u64 list \<Rightarrow> bool" where
  "chain N p [] \<longleftrightarrow> p = 0"
| "chain N p (q # qs) \<longleftrightarrow> p = q \<and> q \<noteq> 0 \<and> (\<exists>nd. N q = Some nd \<and> chain N (pt_next nd) qs)"

lemma chain_dom: "chain N p ps \<Longrightarrow> set ps \<subseteq> dom N"
  by (induction ps arbitrary: p) auto

lemma chain_nonzero: "chain N p ps \<Longrightarrow> 0 \<notin> set ps"
  by (induction ps arbitrary: p) auto

lemma chain_cong:
  "(\<And>q. q \<in> set ps \<Longrightarrow> map_option pt_next (N q) = map_option pt_next (N' q)) \<Longrightarrow> chain N p ps \<longleftrightarrow> chain N' p ps"
proof (induction ps arbitrary: p)
  case (Cons q qs)
  have "map_option pt_next (N q) = map_option pt_next (N' q)" by (rule Cons.prems) simp
  moreover have "chain N r qs \<longleftrightarrow> chain N' r qs" for r by (rule Cons.IH) (simp add: Cons.prems)
  ultimately show ?case by (cases "N q"; cases "N' q") auto
qed simp

lemma chain_unique: "chain N p ps \<Longrightarrow> chain N p qs \<Longrightarrow> ps = qs"
proof (induction ps arbitrary: p qs)
  case Nil
  then show ?case by (cases qs) auto
next
  case (Cons a ps)
  then show ?case by (cases qs) auto
qed

lemma chain_append:
  "chain N p (ps @ q # qs) \<Longrightarrow> chain N q (q # qs)"
  by (induction ps arbitrary: p) auto

lemma chain_distinct: "chain N p ps \<Longrightarrow> distinct ps"
proof (induction ps arbitrary: p)
  case (Cons q qs)
  have "q \<notin> set qs"
  proof
    assume "q \<in> set qs"
    then obtain us vs where qs: "qs = us @ q # vs" by (meson split_list)
    obtain nd where nd: "N q = Some nd" "chain N (pt_next nd) qs" "q \<noteq> 0" using Cons.prems by auto
    then have "chain N q (q # qs)" by simp
    moreover have "chain N q (q # vs)" using nd(2) chain_append unfolding qs by blast
    ultimately have "qs = vs" using chain_unique by blast
    with qs show False by simp
  qed
  with Cons show ?case by auto
qed simp

text \<open>The contents of a chain: pairs of physical and virtual address, in order.\<close>

definition entry_of :: "(u64 \<rightharpoonup> page_table_t) \<Rightarrow> u64 \<Rightarrow> u64 \<times> u64" where
  "entry_of N q = (case N q of None \<Rightarrow> (0, 0) | Some nd \<Rightarrow> (pt_paddr nd, pt_vaddr nd))"

text \<open>
  A well-formed map: 20 buckets, each a chain of nodes that hash to it, no node in two chains, none of the
  freed nodes in a chain.
\<close>

definition bucket_chains :: "hashmap \<Rightarrow> (nat \<Rightarrow> u64 list) \<Rightarrow> bool" where
  "bucket_chains hm B \<longleftrightarrow>
     hm_ptr hm \<noteq> 0 \<and> length (hm_buckets hm) = HASH_MAP_BUCKETS \<and>
     (\<forall>i < HASH_MAP_BUCKETS. chain (hm_nodes hm) (hm_buckets hm ! i) (B i) \<and>
        (\<forall>q \<in> set (B i). hash_function (fst (entry_of (hm_nodes hm) q)) = i))"

definition bucket_entries :: "hashmap \<Rightarrow> (nat \<Rightarrow> u64 list) \<Rightarrow> nat \<Rightarrow> (u64 \<times> u64) list" where
  "bucket_entries hm B i = map (entry_of (hm_nodes hm)) (B i)"

lemma hash_less: "hash_function p < HASH_MAP_BUCKETS"
  by (simp add: hash_function_def HASH_MAP_BUCKETS_def)


lemma entry_of_simps [simp]: "N q = Some nd \<Longrightarrow> entry_of N q = (pt_paddr nd, pt_vaddr nd)"
  by (simp add: entry_of_def)

lemma get_node_simp [simp]: "hm_nodes hm q = Some nd \<Longrightarrow> get_node hm q = Inr nd"
  by (simp add: get_node_def)

lemma set_node_simps [simp]:
  "hm_nodes (set_node hm p nd) = (hm_nodes hm)(p \<mapsto> nd)" "hm_ptr (set_node hm p nd) = hm_ptr hm"
  "hm_buckets (set_node hm p nd) = hm_buckets hm" "tables (set_node hm p nd) = tables hm"
  by (simp_all add: set_node_def)

lemma lookup_walk_chain:
  "chain (hm_nodes hm) p ps \<Longrightarrow> length ps < n \<Longrightarrow>
     lookup_walk n hm p k = Inr (case map_of (map (entry_of (hm_nodes hm)) ps) k of None \<Rightarrow> 0 | Some v \<Rightarrow> v)"
proof (induction ps arbitrary: p n)
  case Nil
  then show ?case by (cases n) simp_all
next
  case (Cons q qs)
  then obtain m nd where "n = Suc m" "hm_nodes hm q = Some nd" "chain (hm_nodes hm) (pt_next nd) qs"
    by (cases n) auto
  with Cons show ?case by auto
qed

lemma insert_walk_chain:
  "chain (hm_nodes hm) c (c # qs) \<Longrightarrow> length qs < n \<Longrightarrow>
     insert_walk n hm c k =
       Inr (case find (\<lambda>q. fst (entry_of (hm_nodes hm) q) = k) qs of
              Some q \<Rightarrow> (True, q) | None \<Rightarrow> (False, last (c # qs)))"
proof (induction qs arbitrary: c n)
  case Nil
  then show ?case by (cases n) auto
next
  case (Cons q qs)
  then obtain m cd nd where "n = Suc m" "hm_nodes hm c = Some cd" "pt_next cd = q" "q \<noteq> 0"
      "hm_nodes hm q = Some nd" "chain (hm_nodes hm) q (q # qs)"
    by (cases n) auto
  with Cons show ?case by (auto split: option.split)
qed

lemma chain_snoc:
  assumes "chain N c ps" and "ps \<noteq> []" and "t \<noteq> 0" and "t \<notin> set ps" and "N t = Some td" and "pt_next td = 0"
    and "N (last ps) = Some ld"
  shows "chain (N(last ps \<mapsto> ld\<lparr>pt_next := t\<rparr>)) c (ps @ [t])"
  using assms
proof (induction ps arbitrary: c)
  case (Cons q qs)
  show ?case
  proof (cases "qs = []")
    case True
    with Cons.prems show ?thesis by auto
  next
    case False
    then have "last qs \<noteq> q" using chain_distinct [OF Cons.prems(1)] by auto
    with Cons False show ?thesis by auto
  qed
qed simp

text \<open>What the walk does to the contents of a bucket.\<close>

fun update_first :: "u64 \<Rightarrow> u64 \<Rightarrow> (u64 \<times> u64) list \<Rightarrow> (u64 \<times> u64) list" where
  "update_first k v [] = []"
| "update_first k v (e # es) = (if fst e = k then (k, v) # es else e # update_first k v es)"

fun insert_entry_list :: "u64 \<Rightarrow> u64 \<Rightarrow> (u64 \<times> u64) list \<Rightarrow> bool \<times> (u64 \<times> u64) list" where
  "insert_entry_list k v [] = (True, [(k, v)])"
| "insert_entry_list k v (e # es) =
     (if k \<in> fst ` set es then (False, e # update_first k v es) else (True, e # es @ [(k, v)]))"

lemma update_first_map:
  assumes "distinct qs" and "find (\<lambda>q. fst (f q) = k) qs = Some q" and "\<And>r. r \<noteq> q \<Longrightarrow> g r = f r" and "g q = (k, v)"
  shows "map g qs = update_first k v (map f qs)"
  using assms(1,2)
proof (induction qs)
  case (Cons r qs)
  show ?case
  proof (cases "fst (f r) = k")
    case True
    with Cons.prems have "q = r" by simp
    moreover have "map g qs = map f qs"
      using Cons.prems(1) \<open>q = r\<close> by (intro map_cong [OF refl] assms(3)) auto
    ultimately show ?thesis using True assms(4) by simp
  next
    case False
    with Cons.prems have f: "find (\<lambda>q. fst (f q) = k) qs = Some q" by simp
    then have "q \<in> set qs" by (auto simp: find_Some_iff)
    then have "r \<noteq> q" using Cons.prems by auto
    with False f Cons show ?thesis by (simp add: assms(3))
  qed
qed simp

lemma bucket_chains_update:
  assumes "bucket_chains hm B" and "hm_ptr hm' = hm_ptr hm" and "i < HASH_MAP_BUCKETS"
    and "hm_buckets hm' = (hm_buckets hm)[i := f]"
    and "chain (hm_nodes hm') f ps" and "\<forall>q \<in> set ps. hash_function (fst (entry_of (hm_nodes hm') q)) = i"
    and "\<And>j q. j < HASH_MAP_BUCKETS \<Longrightarrow> j \<noteq> i \<Longrightarrow> q \<in> set (B j) \<Longrightarrow> hm_nodes hm' q = hm_nodes hm q"
  shows "bucket_chains hm' (B(i := ps))"
    and "j < HASH_MAP_BUCKETS \<Longrightarrow> j \<noteq> i \<Longrightarrow> bucket_entries hm' (B(i := ps)) j = bucket_entries hm B j"
proof -
  have other: "chain (hm_nodes hm') (hm_buckets hm' ! j) (B j) \<and>
      (\<forall>q \<in> set (B j). hash_function (fst (entry_of (hm_nodes hm') q)) = j)" if "j < HASH_MAP_BUCKETS" "j \<noteq> i" for j
  proof -
    have "chain (hm_nodes hm') (hm_buckets hm ! j) (B j) = chain (hm_nodes hm) (hm_buckets hm ! j) (B j)"
      by (rule chain_cong) (simp add: assms(7) [OF that])
    moreover have "entry_of (hm_nodes hm') q = entry_of (hm_nodes hm) q" if "q \<in> set (B j)" for q
      by (simp add: entry_of_def assms(7) [OF \<open>j < HASH_MAP_BUCKETS\<close> \<open>j \<noteq> i\<close> that])
    ultimately show ?thesis using assms(1,4) that by (simp add: bucket_chains_def)
  qed
  then show "bucket_chains hm' (B(i := ps))"
    using assms(1-6) by (auto simp: bucket_chains_def)
  show "j < HASH_MAP_BUCKETS \<Longrightarrow> j \<noteq> i \<Longrightarrow> bucket_entries hm' (B(i := ps)) j = bucket_entries hm B j"
    by (simp add: bucket_entries_def entry_of_def assms(7))
qed

lemma bucket_chain: "bucket_chains hm B \<Longrightarrow> i < HASH_MAP_BUCKETS \<Longrightarrow> chain (hm_nodes hm) (hm_buckets hm ! i) (B i)"
  and bucket_hash: "bucket_chains hm B \<Longrightarrow> i < HASH_MAP_BUCKETS \<Longrightarrow> q \<in> set (B i) \<Longrightarrow>
    hash_function (fst (entry_of (hm_nodes hm) q)) = i"
  by (simp_all add: bucket_chains_def)

lemma bucket_disjoint:
  "bucket_chains hm B \<Longrightarrow> i < HASH_MAP_BUCKETS \<Longrightarrow> j < HASH_MAP_BUCKETS \<Longrightarrow> i \<noteq> j \<Longrightarrow> q \<in> set (B i) \<Longrightarrow> q \<notin> set (B j)"
  using bucket_hash by blast


subsection \<open>Insertion\<close>

lemma find_None_keys: "find (\<lambda>q. fst (f q) = k) qs = None \<longleftrightarrow> k \<notin> fst ` set (map f qs)"
  by (auto simp: find_None_iff image_image)

text \<open>
  \<open>hm'\<close> is \<open>hm\<close> with the chain of bucket \<open>i\<close> replaced by \<open>ps\<close>, which holds the entries \<open>es\<close>; the other buckets hold what
  they held and no node is created or lost.
\<close>

definition bucket_becomes ::
    "hashmap \<Rightarrow> (nat \<Rightarrow> u64 list) \<Rightarrow> nat \<Rightarrow> u64 list \<Rightarrow> (u64 \<times> u64) list \<Rightarrow> hashmap \<Rightarrow> bool" where
  "bucket_becomes hm B i ps es hm' \<longleftrightarrow>
     bucket_chains hm' (B(i := ps)) \<and> bucket_entries hm' (B(i := ps)) i = es \<and>
     (\<forall>j < HASH_MAP_BUCKETS. j \<noteq> i \<longrightarrow> bucket_entries hm' (B(i := ps)) j = bucket_entries hm B j) \<and>
     dom (hm_nodes hm') = dom (hm_nodes hm)"

lemma bucket_becomesI:
  assumes "bucket_chains hm B" and "hm_ptr hm' = hm_ptr hm" and "i < HASH_MAP_BUCKETS"
    and "hm_buckets hm' = (hm_buckets hm)[i := f]"
    and "chain (hm_nodes hm') f ps" and "\<forall>q \<in> set ps. hash_function (fst (entry_of (hm_nodes hm') q)) = i"
    and "\<And>j q. j < HASH_MAP_BUCKETS \<Longrightarrow> j \<noteq> i \<Longrightarrow> q \<in> set (B j) \<Longrightarrow> hm_nodes hm' q = hm_nodes hm q"
    and "map (entry_of (hm_nodes hm')) ps = es" and "dom (hm_nodes hm') = dom (hm_nodes hm)"
  shows "bucket_becomes hm B i ps es hm'"
proof -
  have "bucket_chains hm' (B(i := ps))" by (rule bucket_chains_update(1) [OF assms(1-7)])
  moreover have "bucket_entries hm' (B(i := ps)) j = bucket_entries hm B j" if "j < HASH_MAP_BUCKETS" "j \<noteq> i" for j
    by (rule bucket_chains_update(2) [OF assms(1-7) that])
  ultimately show ?thesis
    using assms(8,9) by (simp add: bucket_becomes_def bucket_entries_def [of hm' "B(i := ps)" i])
qed

lemma bucket_becomes_set_node:
  assumes B: "bucket_chains hm B" and i: "i < HASH_MAP_BUCKETS" and p: "p \<in> set (B i)"
    and "chain (hm_nodes (set_node hm p nd)) (hm_buckets hm ! i) ps"
    and "\<forall>q \<in> set ps. hash_function (fst (entry_of (hm_nodes (set_node hm p nd)) q)) = i"
    and "map (entry_of (hm_nodes (set_node hm p nd))) ps = es"
  shows "bucket_becomes hm B i ps es (set_node hm p nd)"
proof (rule bucket_becomesI [OF B _ i _ assms(4,5) _ assms(6)])
  show "hm_nodes (set_node hm p nd) q = hm_nodes hm q" if "j < HASH_MAP_BUCKETS" "j \<noteq> i" "q \<in> set (B j)" for j q
    using bucket_disjoint [OF B i that(1)] that p by auto
  show "dom (hm_nodes (set_node hm p nd)) = dom (hm_nodes hm)"
    using chain_dom [OF bucket_chain [OF B i]] p by auto
qed simp_all

text \<open>The three ways an insertion ends: into an empty bucket, behind the last node, over the address of a later node.\<close>

lemma pg_tbl_insert_first:
  assumes B: "bucket_chains hm B" and t: "hm_nodes hm t = Some td" "pt_next td = 0" "t \<noteq> 0"
    and i: "i = hash_function (pt_paddr td)" and e: "B i = []"
  shows "\<exists>hm'. pg_tbl_insert n t hm = Inr (True, hm') \<and> bucket_becomes hm B i [t] [(pt_paddr td, pt_vaddr td)] hm'"
proof (intro exI conjI)
  let ?hm = "hm\<lparr>hm_buckets := (hm_buckets hm)[i := t]\<rparr>"
  have i20: "i < HASH_MAP_BUCKETS" unfolding i by (rule hash_less)
  show "pg_tbl_insert n t hm = Inr (True, ?hm)"
    using e bucket_chain [OF B i20] t B by (simp add: pg_tbl_insert_def bucket_chains_def i)
  show "bucket_becomes hm B i [t] [(pt_paddr td, pt_vaddr td)] ?hm"
    by (rule bucket_becomesI [OF B _ i20]) (use t i in simp_all)
qed

lemma pg_tbl_insert_walk:
  assumes B: "bucket_chains hm B" and t: "hm_nodes hm t = Some td"
    and i: "i = hash_function (pt_paddr td)" and c: "B i = c # qs" and n: "length qs < n"
  shows "pg_tbl_insert n t hm =
    (case find (\<lambda>q. fst (entry_of (hm_nodes hm) q) = pt_paddr td) qs of
       Some q \<Rightarrow> Inr (False, set_node hm q ((the (hm_nodes hm q))\<lparr>pt_vaddr := pt_vaddr td\<rparr>))
     | None \<Rightarrow> Inr (True, set_node hm (last (c # qs)) ((the (hm_nodes hm (last (c # qs))))\<lparr>pt_next := t\<rparr>)))"
proof -
  have i20: "i < HASH_MAP_BUCKETS" unfolding i by (rule hash_less)
  have ch: "chain (hm_nodes hm) (hm_buckets hm ! i) (c # qs)" using bucket_chain [OF B i20] c by simp
  then have first: "hm_buckets hm ! i = c" "c \<noteq> 0" by simp_all
  have node: "get_node hm q = Inr (the (hm_nodes hm q))" if "q \<in> set (c # qs)" for q
    using chain_dom [OF ch] that by (fastforce simp: get_node_def)
  have walk: "insert_walk n hm c (pt_paddr td) = Inr (case find (\<lambda>q. fst (entry_of (hm_nodes hm) q) = pt_paddr td) qs of
      Some q \<Rightarrow> (True, q) | None \<Rightarrow> (False, last (c # qs)))"
    by (rule insert_walk_chain) (use ch first n in simp_all)
  have ptr: "hm_ptr hm \<noteq> 0" using B by (simp add: bucket_chains_def)
  have ins: "pg_tbl_insert n t hm = bindE (insert_walk n hm c (pt_paddr td)) (\<lambda>(found, p).
      bindE (get_node hm p) (\<lambda>nd.
        if found then Inr (False, set_node hm p (nd\<lparr>pt_vaddr := pt_vaddr td\<rparr>))
        else Inr (True, set_node hm p (nd\<lparr>pt_next := t\<rparr>))))"
    using ptr t first by (simp add: pg_tbl_insert_def Let_def i [symmetric])
  show ?thesis
  proof (cases "find (\<lambda>q. fst (entry_of (hm_nodes hm) q) = pt_paddr td) qs")
    case None
    have "last (c # qs) \<in> set (c # qs)" by (rule last_in_set) simp
    with None show ?thesis unfolding ins walk by (simp add: node del: last.simps)
  next
    case (Some q)
    then have "q \<in> set (c # qs)" by (auto simp: find_Some_iff)
    with Some show ?thesis unfolding ins walk by (simp add: node del: list.set)
  qed
qed

lemma append_becomes:
  assumes B: "bucket_chains hm B" and t: "hm_nodes hm t = Some td" "pt_next td = 0" "t \<noteq> 0" "t \<notin> set (B i)"
    and i: "i = hash_function (pt_paddr td)" and c: "B i \<noteq> []"
  shows "bucket_becomes hm B i (B i @ [t]) (bucket_entries hm B i @ [(pt_paddr td, pt_vaddr td)])
    (set_node hm (last (B i)) ((the (hm_nodes hm (last (B i))))\<lparr>pt_next := t\<rparr>))"
proof -
  have i20: "i < HASH_MAP_BUCKETS" unfolding i by (rule hash_less)
  note ch = bucket_chain [OF B i20]
  have l: "last (B i) \<in> set (B i)" using c by simp
  then obtain ld where ld: "hm_nodes hm (last (B i)) = Some ld" using chain_dom [OF ch] by blast
  let ?N = "hm_nodes (set_node hm (last (B i)) (ld\<lparr>pt_next := t\<rparr>))"
  have ent: "entry_of ?N q = entry_of (hm_nodes hm) q" for q using ld by (simp add: entry_of_def)
  have "chain ?N (hm_buckets hm ! i) (B i @ [t])"
    using chain_snoc [OF ch c t(3,4,1,2) ld] by simp
  moreover have "\<forall>q \<in> set (B i @ [t]). hash_function (fst (entry_of ?N q)) = i"
    unfolding ent using bucket_hash [OF B i20] t(1) i by auto
  moreover have "map (entry_of ?N) (B i @ [t]) = bucket_entries hm B i @ [(pt_paddr td, pt_vaddr td)]"
    unfolding bucket_entries_def using ent t(1) by simp
  ultimately show ?thesis unfolding ld option.sel by (rule bucket_becomes_set_node [OF B i20 l])
qed

lemma overwrite_becomes:
  assumes B: "bucket_chains hm B" and i: "i < HASH_MAP_BUCKETS" and c: "B i = c # qs"
    and q: "find (\<lambda>q. fst (entry_of (hm_nodes hm) q) = k) qs = Some q"
  shows "bucket_becomes hm B i (c # qs) (entry_of (hm_nodes hm) c # update_first k v (map (entry_of (hm_nodes hm)) qs))
    (set_node hm q ((the (hm_nodes hm q))\<lparr>pt_vaddr := v\<rparr>))"
proof -
  have ch: "chain (hm_nodes hm) (hm_buckets hm ! i) (c # qs)" using bucket_chain [OF B i] c by simp
  have dist: "distinct (c # qs)" by (rule chain_distinct [OF ch])
  have qin: "q \<in> set qs" and qk: "fst (entry_of (hm_nodes hm) q) = k" using q by (auto simp: find_Some_iff)
  then obtain nd where nd: "hm_nodes hm q = Some nd" using chain_dom [OF ch] by auto
  let ?N = "hm_nodes (set_node hm q (nd\<lparr>pt_vaddr := v\<rparr>))"
  have ent: "entry_of ?N r = (if r = q then (k, v) else entry_of (hm_nodes hm) r)" for r
    using nd qk by (simp add: entry_of_def)
  have "chain ?N (hm_buckets hm ! i) (c # qs)"
    using ch nd chain_cong [of "c # qs" "hm_nodes hm" ?N "hm_buckets hm ! i"] by auto
  moreover have "\<forall>r \<in> set (c # qs). hash_function (fst (entry_of ?N r)) = i"
    unfolding ent using bucket_hash [OF B i] c qin qk by auto
  moreover have "map (entry_of ?N) qs = update_first k v (map (entry_of (hm_nodes hm)) qs)"
    by (rule update_first_map [OF _ q]) (use dist ent in auto)
  then have "map (entry_of ?N) (c # qs) = entry_of (hm_nodes hm) c # update_first k v (map (entry_of (hm_nodes hm)) qs)"
    using ent [of c] dist qin by auto
  moreover have "q \<in> set (B i)" using c qin by simp
  ultimately show ?thesis unfolding nd option.sel by (intro bucket_becomes_set_node [OF B i])
qed

lemma pg_tbl_insert_chain:
  assumes B: "bucket_chains hm B" and t: "hm_nodes hm t = Some td" "pt_next td = 0" "t \<noteq> 0"
    and fresh: "\<forall>j < HASH_MAP_BUCKETS. t \<notin> set (B j)" and i: "i = hash_function (pt_paddr td)" and n: "length (B i) < n"
    and r: "insert_entry_list (pt_paddr td) (pt_vaddr td) (bucket_entries hm B i) = (added, es)"
  shows "\<exists>hm' ps. pg_tbl_insert n t hm = Inr (added, hm') \<and> bucket_becomes hm B i ps es hm'"
proof (cases "B i")
  case Nil
  with r pg_tbl_insert_first [OF B t i Nil, of n] show ?thesis by (auto simp: bucket_entries_def)
next
  case (Cons c qs)
  let ?k = "pt_paddr td" and ?f = "entry_of (hm_nodes hm)"
  have i20: "i < HASH_MAP_BUCKETS" unfolding i by (rule hash_less)
  have be: "bucket_entries hm B i = ?f c # map ?f qs" by (simp add: bucket_entries_def Cons)
  note w = pg_tbl_insert_walk [OF B t(1) i Cons, of n]
  show ?thesis
  proof (cases "find (\<lambda>q. fst (?f q) = ?k) qs")
    case None
    then have "added" "es = bucket_entries hm B i @ [(?k, pt_vaddr td)]" using r unfolding find_None_keys be by auto
    moreover have "t \<notin> set (B i)" using fresh i20 by blast
    ultimately show ?thesis
      using w None n Cons append_becomes [OF B t _ i] by (intro exI [of _ "set_node _ _ _"] exI [of _ "B i @ [t]"]) simp
  next
    case (Some q)
    then have "?k \<in> fst ` set (map ?f qs)" using find_None_keys [of ?f ?k qs] by (metis option.distinct(1))
    then have "\<not> added" "es = ?f c # update_first ?k (pt_vaddr td) (map ?f qs)" using r unfolding be by auto
    with w Some n Cons overwrite_becomes [OF B i20 Cons Some] show ?thesis by auto
  qed
qed


subsection \<open>Removal\<close>

fun remove_tail :: "u64 \<Rightarrow> (u64 \<times> u64) list \<Rightarrow> (u64 \<times> u64) list" where
  "remove_tail k [] = []"
| "remove_tail k (e # es) = (if fst e = k then es else e # remove_tail k es)"

text \<open>\<open>hm'\<close> is \<open>hm\<close> with the node \<open>q\<close> of the chain \<open>ps\<close> unlinked and pushed on the list of freed nodes.\<close>

definition unlinks :: "hashmap \<Rightarrow> u64 list \<Rightarrow> u64 \<Rightarrow> hashmap \<Rightarrow> bool" where
  "unlinks hm ps q hm' \<longleftrightarrow>
     (\<exists>us p vs pd qd. ps = us @ p # q # vs \<and> hm_nodes hm p = Some pd \<and> hm_nodes hm q = Some qd \<and>
        hm' = (set_node (set_node hm p (pd\<lparr>pt_next := pt_next qd\<rparr>)) q (qd\<lparr>pt_next := tables hm\<rparr>))\<lparr>tables := q\<rparr>)"

lemma unlinks_head: "hm_nodes hm c = Some cd \<Longrightarrow> hm_nodes hm q = Some qd \<Longrightarrow>
    unlinks hm (c # q # qs) q ((set_node (set_node hm c (cd\<lparr>pt_next := pt_next qd\<rparr>)) q (qd\<lparr>pt_next := tables hm\<rparr>))\<lparr>tables := q\<rparr>)"
  unfolding unlinks_def by (rule exI [of _ "[]"]) auto

lemma unlinks_Cons: "unlinks hm ps q hm' \<Longrightarrow> unlinks hm (c # ps) q hm'"
  unfolding unlinks_def by (metis append_Cons)

lemma remove_walk_chain:
  "chain (hm_nodes hm) c (c # qs) \<Longrightarrow> length qs < n \<Longrightarrow>
     (case find (\<lambda>q. fst (entry_of (hm_nodes hm) q) = k) qs of
        None \<Rightarrow> remove_walk n hm c k = Inr (False, hm)
      | Some q \<Rightarrow> \<exists>hm'. remove_walk n hm c k = Inr (True, hm') \<and> unlinks hm (c # qs) q hm')"
proof (induction qs arbitrary: c n)
  case Nil
  then show ?case by (cases n) auto
next
  case (Cons q qs)
  then obtain m cd nd where *: "n = Suc m" "hm_nodes hm c = Some cd" "pt_next cd = q" "q \<noteq> 0"
      "hm_nodes hm q = Some nd" "chain (hm_nodes hm) q (q # qs)"
    by (cases n) auto
  show ?case
  proof (cases "pt_paddr nd = k")
    case True
    with * unlinks_head [OF *(2,5)] show ?thesis by (simp add: Let_def)
  next
    case False
    with * have walk: "remove_walk n hm c k = remove_walk m hm q k" by simp
    have "case find (\<lambda>q. fst (entry_of (hm_nodes hm) q) = k) qs of
        None \<Rightarrow> remove_walk m hm q k = Inr (False, hm)
      | Some r \<Rightarrow> \<exists>hm'. remove_walk m hm q k = Inr (True, hm') \<and> unlinks hm (q # qs) r hm'"
      by (rule Cons.IH) (use * Cons.prems(2) in simp_all)
    with walk False * unlinks_Cons [of hm "q # qs" _ _ c] show ?thesis by (auto split: option.splits)
  qed
qed

lemma remove1_map:
  "distinct qs \<Longrightarrow> find (\<lambda>q. fst (f q) = k) qs = Some q \<Longrightarrow> map f (remove1 q qs) = remove_tail k (map f qs)"
proof (induction qs)
  case (Cons r qs)
  then show ?case by (cases "fst (f r) = k") (auto simp: find_Some_iff)
qed simp

lemma chain_unlink:
  assumes "chain N c (us @ p # q # vs)" and "N p = Some pd" and "N q = Some qd"
  shows "chain (N(p \<mapsto> pd\<lparr>pt_next := pt_next qd\<rparr>, q \<mapsto> qd\<lparr>pt_next := x\<rparr>)) c (us @ p # vs)"
  using assms
proof (induction us arbitrary: c)
  case Nil
  have d: "distinct (p # q # vs)" using chain_distinct [of N c "p # q # vs"] Nil.prems(1) by simp
  have "chain N (pt_next qd) vs" using Nil.prems by auto
  moreover have "chain (N(p \<mapsto> pd\<lparr>pt_next := pt_next qd\<rparr>, q \<mapsto> qd\<lparr>pt_next := x\<rparr>)) (pt_next qd) vs = chain N (pt_next qd) vs"
    by (rule chain_cong) (use d in auto)
  ultimately show ?case using Nil.prems d by (auto simp del: fun_upd_apply simp: fun_upd_same fun_upd_other)
next
  case (Cons u us)
  have "u \<noteq> p" "u \<noteq> q" using chain_distinct [OF Cons.prems(1)] by auto
  with Cons show ?case by auto
qed

text \<open>
  The map that a well-formed hash map stands for, when no bucket holds a key twice.
\<close>

definition hm_rep :: "hashmap \<Rightarrow> (u64 \<rightharpoonup> u64) \<Rightarrow> bool" where
  "hm_rep hm M \<longleftrightarrow>
     (\<exists>B. bucket_chains hm B \<and> (\<forall>i < HASH_MAP_BUCKETS. distinct (map fst (bucket_entries hm B i))) \<and>
        M = (\<lambda>k. map_of (bucket_entries hm B (hash_function k)) k))"

lemma bucket_keys:
  "bucket_chains hm B \<Longrightarrow> i < HASH_MAP_BUCKETS \<Longrightarrow> k \<in> fst ` set (bucket_entries hm B i) \<Longrightarrow> hash_function k = i"
  unfolding bucket_entries_def set_map image_image using bucket_hash by blast

lemma bucket_length:
  assumes "bucket_chains hm B" "i < HASH_MAP_BUCKETS" "distinct (map fst (bucket_entries hm B i))"
    and M: "M = (\<lambda>k. map_of (bucket_entries hm B (hash_function k)) k)"
  shows "length (B i) \<le> card (dom M)" and "finite (dom M)"
proof -
  have sub: "fst ` set (bucket_entries hm B i) \<subseteq> dom M"
  proof
    fix k
    assume k: "k \<in> fst ` set (bucket_entries hm B i)"
    then have "hash_function k = i" by (rule bucket_keys [OF assms(1,2)])
    with k show "k \<in> dom M" by (simp add: M domIff map_of_eq_None_iff)
  qed
  have "dom M \<subseteq> (\<Union>i < HASH_MAP_BUCKETS. fst ` set (bucket_entries hm B i))"
  proof
    fix k
    assume "k \<in> dom M"
    then have "k \<in> fst ` set (bucket_entries hm B (hash_function k))" by (simp add: M domIff map_of_eq_None_iff)
    then show "k \<in> (\<Union>i < HASH_MAP_BUCKETS. fst ` set (bucket_entries hm B i))" using hash_less by blast
  qed
  then show fin: "finite (dom M)" by (rule finite_subset) simp
  have "length (B i) = card (fst ` set (bucket_entries hm B i))"
    using distinct_card [OF assms(3)] by (simp add: bucket_entries_def image_image)
  also have "\<dots> \<le> card (dom M)" by (rule card_mono [OF fin sub])
  finally show "length (B i) \<le> card (dom M)" .
qed

lemma hm_rep_update:
  assumes B: "\<forall>i < HASH_MAP_BUCKETS. distinct (map fst (bucket_entries hm B i))"
      "M = (\<lambda>k. map_of (bucket_entries hm B (hash_function k)) k)"
    and b: "bucket_becomes hm B (hash_function k) ps es hm'"
    and es: "distinct (map fst es)" "map_of es = (map_of (bucket_entries hm B (hash_function k)))(k := r)"
  shows "hm_rep hm' (M(k := r))"
proof -
  let ?i = "hash_function k" and ?B = "B(hash_function k := ps)"
  have new: "bucket_entries hm' ?B j = (if j = ?i then es else bucket_entries hm B j)" if "j < HASH_MAP_BUCKETS" for j
    using b that by (auto simp: bucket_becomes_def)
  have "map_of (bucket_entries hm' ?B (hash_function x)) x = (M(k := r)) x" for x
    using es(2) by (auto simp: new [OF hash_less] B(2))
  then show ?thesis
    unfolding hm_rep_def using b B(1) es(1) new by (intro exI [of _ ?B]) (auto simp: bucket_becomes_def)
qed

definition or_null :: "u64 option \<Rightarrow> u64" where
  "or_null r = (case r of None \<Rightarrow> 0 | Some v \<Rightarrow> v)"

lemma get_ptbl_vaddr_rep:
  assumes "hm_rep hm M" and "card (dom M) < n"
  shows "get_ptbl_vaddr n hm k = Inr (or_null (M k))"
proof -
  obtain B where B: "bucket_chains hm B" "\<forall>i < HASH_MAP_BUCKETS. distinct (map fst (bucket_entries hm B i))"
      "M = (\<lambda>k. map_of (bucket_entries hm B (hash_function k)) k)"
    using assms(1) by (auto simp: hm_rep_def)
  let ?i = "hash_function k"
  have "length (B ?i) < n" using bucket_length(1) [OF B(1) hash_less _ B(3)] B(2) hash_less assms(2) by (meson le_less_trans)
  then show ?thesis
    using lookup_walk_chain [OF bucket_chain [OF B(1) hash_less], of k n k] B(1,3)
    by (simp add: get_ptbl_vaddr_def bucket_chains_def bucket_entries_def or_null_def)
qed


lemma insert_entry_list_new:
  "k \<notin> fst ` set es \<Longrightarrow> insert_entry_list k v es = (True, es @ [(k, v)])"
  by (cases es) auto

lemma map_of_snoc: "k \<notin> fst ` set es \<Longrightarrow> map_of (es @ [(k, v)]) = (map_of es)(k \<mapsto> v)"
  by (induction es) (auto simp: fun_eq_iff)

lemma bucket_chains_new_node:
  assumes "bucket_chains hm B" and "hm_nodes hm p = None"
  shows "bucket_chains (set_node hm p nd) B" and "i < HASH_MAP_BUCKETS \<Longrightarrow> bucket_entries (set_node hm p nd) B i = bucket_entries hm B i"
    and "j < HASH_MAP_BUCKETS \<Longrightarrow> p \<notin> set (B j)"
proof -
  have notin: "p \<notin> set (B j)" if "j < HASH_MAP_BUCKETS" for j
    using chain_dom [OF bucket_chain [OF assms(1) that]] assms(2) by auto
  have same: "hm_nodes (set_node hm p nd) q = hm_nodes hm q" if "q \<in> set (B j)" "j < HASH_MAP_BUCKETS" for q j
    using notin that by auto
  have "chain (hm_nodes (set_node hm p nd)) (hm_buckets hm ! j) (B j) = chain (hm_nodes hm) (hm_buckets hm ! j) (B j)"
    if "j < HASH_MAP_BUCKETS" for j
    by (rule chain_cong) (simp add: same that del: set_node_simps(1))
  moreover have ent: "entry_of (hm_nodes (set_node hm p nd)) q = entry_of (hm_nodes hm) q"
    if "q \<in> set (B j)" "j < HASH_MAP_BUCKETS" for q j
    using same [OF that] by (simp add: entry_of_def del: set_node_simps(1))
  ultimately show "bucket_chains (set_node hm p nd) B"
    using assms(1) by (simp add: bucket_chains_def del: set_node_simps(1))
  show "i < HASH_MAP_BUCKETS \<Longrightarrow> bucket_entries (set_node hm p nd) B i = bucket_entries hm B i"
    by (simp add: bucket_entries_def ent del: set_node_simps(1))
  show "j < HASH_MAP_BUCKETS \<Longrightarrow> p \<notin> set (B j)" by (rule notin)
qed

lemma pg_tbl_insert_new:
  assumes rep: "hm_rep hm M" and new: "hm_nodes hm p = None" "p \<noteq> 0" and key: "M (pt_paddr td) = None"
    and nx: "pt_next td = 0" and n: "card (dom M) < n"
  shows "\<exists>hm'. pg_tbl_insert n p (set_node hm p td) = Inr (True, hm') \<and> hm_rep hm' (M(pt_paddr td \<mapsto> pt_vaddr td)) \<and>
    dom (hm_nodes hm') = insert p (dom (hm_nodes hm))"
proof -
  obtain B where B: "bucket_chains hm B" "\<forall>i < HASH_MAP_BUCKETS. distinct (map fst (bucket_entries hm B i))"
      "M = (\<lambda>k. map_of (bucket_entries hm B (hash_function k)) k)"
    using rep by (auto simp: hm_rep_def)
  let ?k = "pt_paddr td" and ?v = "pt_vaddr td" and ?hm = "set_node hm p td"
  let ?i = "hash_function ?k"
  let ?es = "bucket_entries hm B ?i"
  have k: "?k \<notin> fst ` set ?es" using key by (simp add: B(3) map_of_eq_None_iff)
  have len: "length (B ?i) < n"
    using bucket_length(1) [OF B(1) hash_less _ B(3)] B(2) hash_less n by (meson le_less_trans)
  note nn = bucket_chains_new_node [OF B(1) new(1)]
  obtain hm' ps where r: "pg_tbl_insert n p ?hm = Inr (True, hm')" "bucket_becomes ?hm B ?i ps (?es @ [(?k, ?v)]) hm'"
    using pg_tbl_insert_chain [OF nn(1) _ nx new(2) _ refl len, of td True] nn insert_entry_list_new [OF k, of ?v]
    by (auto simp: nn(2) [OF hash_less])
  have "hm_rep hm' (M(?k \<mapsto> ?v))"
    by (rule hm_rep_update [OF _ _ r(2)]) (use B k nn(2) hash_less map_of_snoc [OF k] in auto)
  with r show ?thesis by (auto simp: bucket_becomes_def)
qed


lemma remove_tail_absent: "k \<notin> fst ` set es \<Longrightarrow> remove_tail k es = es"
  by (induction es) auto

lemma map_of_remove_tail: "distinct (map fst es) \<Longrightarrow> map_of (remove_tail k es) = (map_of es)(k := None)"
proof (induction es)
  case (Cons e es)
  show ?case
  proof (cases "fst e = k")
    case True
    then have "map_of es k = None" using Cons.prems by (auto simp: map_of_eq_None_iff)
    with True show ?thesis by (auto simp: fun_eq_iff)
  next
    case False
    with Cons show ?thesis by (auto simp: fun_eq_iff)
  qed
qed simp

lemma remove_tail_keys: "set (remove_tail k es) \<subseteq> set es" "distinct (map fst es) \<Longrightarrow> distinct (map fst (remove_tail k es))"
proof -
  show sub: "set (remove_tail k es) \<subseteq> set es" for es by (induction es) auto
  show "distinct (map fst es) \<Longrightarrow> distinct (map fst (remove_tail k es))"
  proof (induction es)
    case (Cons e es)
    then show ?case using sub [of es] by (auto dest: subsetD)
  qed simp
qed

text \<open>The key of the first node of the bucket of \<open>k\<close>: the one the walks of insertion and removal skip.\<close>

definition first_in_bucket :: "hashmap \<Rightarrow> u64 \<Rightarrow> bool" where
  "first_in_bucket hm k \<longleftrightarrow> hm_buckets hm ! hash_function k \<noteq> 0 \<and>
     (case hm_nodes hm (hm_buckets hm ! hash_function k) of None \<Rightarrow> False | Some nd \<Rightarrow> pt_paddr nd = k)"

lemma unlinks_bucket:
  assumes B: "bucket_chains hm B" and i: "i < HASH_MAP_BUCKETS" "B i = c # qs"
    and f: "find (\<lambda>q. fst (entry_of (hm_nodes hm) q) = k) qs = Some q" and u: "unlinks hm (c # qs) q hm'"
  shows "bucket_becomes hm B i (c # remove1 q qs) (entry_of (hm_nodes hm) c # remove_tail k (map (entry_of (hm_nodes hm)) qs)) hm'"
proof -
  obtain us p vs pd qd where s: "c # qs = us @ p # q # vs" and pd: "hm_nodes hm p = Some pd" and qd: "hm_nodes hm q = Some qd"
    and hm': "hm' = (set_node (set_node hm p (pd\<lparr>pt_next := pt_next qd\<rparr>)) q (qd\<lparr>pt_next := tables hm\<rparr>))\<lparr>tables := q\<rparr>"
    using u by (auto simp: unlinks_def)
  have ch: "chain (hm_nodes hm) (hm_buckets hm ! i) (c # qs)" using bucket_chain [OF B i(1)] i(2) by simp
  then have first: "hm_buckets hm ! i = c" by simp
  have dist: "distinct (c # qs)" by (rule chain_distinct [OF ch])
  have nodes': "hm_nodes hm' = (hm_nodes hm)(p \<mapsto> pd\<lparr>pt_next := pt_next qd\<rparr>, q \<mapsto> qd\<lparr>pt_next := tables hm\<rparr>)"
    by (simp add: hm')
  have "c # remove1 q qs = remove1 q (c # qs)" using dist f by (auto simp: find_Some_iff)
  also have "\<dots> = us @ p # vs" using dist unfolding s by (simp add: remove1_append)
  finally have ps: "c # remove1 q qs = us @ p # vs" .
  have ch': "chain (hm_nodes hm') c (c # remove1 q qs)"
    unfolding ps nodes' using chain_unlink [OF _ pd qd] ch s first by simp
  have ent: "entry_of (hm_nodes hm') r = entry_of (hm_nodes hm) r" for r
    unfolding nodes' using pd qd dist s by (auto simp: entry_of_def)
  have hash: "\<forall>r \<in> set (c # remove1 q qs). hash_function (fst (entry_of (hm_nodes hm') r)) = i"
    unfolding ent using bucket_hash [OF B i(1)] i(2) by (auto dest: set_remove1_subset [THEN subsetD])
  have pq: "p \<in> set (B i)" "q \<in> set (B i)" using s i(2) by auto
  have other: "hm_nodes hm' r = hm_nodes hm r" if "j < HASH_MAP_BUCKETS" "j \<noteq> i" "r \<in> set (B j)" for j r
    unfolding nodes' using bucket_disjoint [OF B i(1) that(1)] that pq by auto
  have bk: "hm_buckets hm' = (hm_buckets hm)[i := c]" "hm_ptr hm' = hm_ptr hm"
    unfolding hm' first [symmetric] by simp_all
  show ?thesis
  proof (rule bucket_becomesI [OF B bk(2) i(1) bk(1) ch' hash other])
    show "map (entry_of (hm_nodes hm')) (c # remove1 q qs) =
        entry_of (hm_nodes hm) c # remove_tail k (map (entry_of (hm_nodes hm)) qs)"
      using remove1_map [OF _ f] dist by (simp add: ext [OF ent])
    show "dom (hm_nodes hm') = dom (hm_nodes hm)" using pd qd by (auto simp: nodes')
  qed
qed


lemma first_in_bucket_iff:
  assumes "bucket_chains hm B"
  shows "first_in_bucket hm k \<longleftrightarrow> (\<exists>c qs. B (hash_function k) = c # qs \<and> fst (entry_of (hm_nodes hm) c) = k)"
  using bucket_chain [OF assms hash_less, of k] assms
  by (cases "B (hash_function k)") (auto simp: first_in_bucket_def)

lemma remove_later_node:
  assumes B: "bucket_chains hm B" "\<forall>i < HASH_MAP_BUCKETS. distinct (map fst (bucket_entries hm B i))"
      "M = (\<lambda>k. map_of (bucket_entries hm B (hash_function k)) k)"
    and c: "B (hash_function k) = c # qs" "fst (entry_of (hm_nodes hm) c) \<noteq> k"
    and q: "find (\<lambda>q. fst (entry_of (hm_nodes hm) q) = k) qs = Some q" "unlinks hm (c # qs) q hm'"
  shows "hm_rep hm' (M(k := None)) \<and> dom (hm_nodes hm') = dom (hm_nodes hm)"
proof -
  let ?e = "entry_of (hm_nodes hm)"
  note ub = unlinks_bucket [OF B(1) hash_less c(1) q]
  have dk: "distinct (map fst (map ?e (c # qs)))" using B(2) hash_less [of k] c(1) by (auto simp: bucket_entries_def)
  have es: "?e c # remove_tail k (map ?e qs) = remove_tail k (map ?e (c # qs))" using c(2) by simp
  have "hm_rep hm' (M(k := None))"
  proof (rule hm_rep_update [OF B(2,3) ub])
    show "distinct (map fst (?e c # remove_tail k (map ?e qs)))" unfolding es by (rule remove_tail_keys(2) [OF dk])
    show "map_of (?e c # remove_tail k (map ?e qs)) = (map_of (bucket_entries hm B (hash_function k)))(k := None)"
      unfolding es map_of_remove_tail [OF dk] by (simp add: bucket_entries_def c(1))
  qed
  with ub show ?thesis by (simp add: bucket_becomes_def)
qed

lemma remove_rep:
  assumes rep: "hm_rep hm M" and n: "card (dom M) < n"
  shows "if M k = None \<or> first_in_bucket hm k then vmm_hashmap_remove n k hm = Inr (False, hm)
    else \<exists>hm'. vmm_hashmap_remove n k hm = Inr (True, hm') \<and> hm_rep hm' (M(k := None)) \<and>
      dom (hm_nodes hm') = dom (hm_nodes hm)"
proof -
  obtain B where B: "bucket_chains hm B" "\<forall>i < HASH_MAP_BUCKETS. distinct (map fst (bucket_entries hm B i))"
      "M = (\<lambda>k. map_of (bucket_entries hm B (hash_function k)) k)"
    using rep by (auto simp: hm_rep_def)
  let ?i = "hash_function k" and ?e = "entry_of (hm_nodes hm)"
  have ptr: "hm_ptr hm \<noteq> 0" using B(1) by (simp add: bucket_chains_def)
  have ch: "chain (hm_nodes hm) (hm_buckets hm ! ?i) (B ?i)" by (rule bucket_chain [OF B(1) hash_less])
  have len: "length (B ?i) < n"
    using bucket_length(1) [OF B(1) hash_less _ B(3)] B(2) hash_less n by (meson le_less_trans)
  show ?thesis
  proof (cases "B ?i")
    case Nil
    then have "M k = None" by (simp add: B(3) bucket_entries_def)
    with Nil ch ptr show ?thesis by (simp add: vmm_hashmap_remove_def)
  next
    case (Cons c qs)
    then have c: "hm_buckets hm ! ?i = c" "c \<noteq> 0" "chain (hm_nodes hm) c (c # qs)" "length qs < n" using ch len by auto
    then have rem: "vmm_hashmap_remove n k hm = remove_walk n hm c k" using ptr by (simp add: vmm_hashmap_remove_def)
    have dk: "distinct (map fst (map ?e (c # qs)))" using B(2) hash_less [of k] Cons by (auto simp: bucket_entries_def)
    have skip: "M k = None \<or> first_in_bucket hm k \<longleftrightarrow> k \<notin> fst ` set (map ?e qs)"
      using first_in_bucket_iff [OF B(1), of k] Cons dk
      by (auto simp: B(3) bucket_entries_def map_of_eq_None_iff image_image)
    note walk = remove_walk_chain [OF c(3,4), of k]
    show ?thesis
    proof (cases "find (\<lambda>q. fst (?e q) = k) qs")
      case None
      with rem walk skip show ?thesis using find_None_keys [of ?e k qs] by simp
    next
      case (Some q)
      then have kin: "k \<in> fst ` set (map ?e qs)" by (force simp: find_Some_iff)
      then have "fst (?e c) \<noteq> k" using dk by (auto simp: image_image)
      with rem walk skip kin Some remove_later_node [OF B Cons _ Some] show ?thesis by auto
    qed
  qed
qed

lemma hm_rep_init: "p \<noteq> 0 \<Longrightarrow> hm_rep (hashmap_init_at p hm) Map.empty"
  unfolding hm_rep_def
  by (rule exI [of _ "\<lambda>_. []"]) (simp add: bucket_chains_def hashmap_init_at_def bucket_entries_def)

section \<open>The interface of the map\<close>

text \<open>
  What a client of a keyed store relies on: inserting a new key adds exactly that key, and lookups read the map. Every
  sequence of insertions of different keys can then be read back.
\<close>

fun put_all :: "('x \<Rightarrow> 'k \<Rightarrow> 'v \<Rightarrow> 's \<Rightarrow> 's result) \<Rightarrow> ('x \<times> 'k \<times> 'v) list \<Rightarrow> 's \<Rightarrow> 's result" where
  "put_all put [] s = Inr s"
| "put_all put ((x, k, v) # ps) s = bindE (put x k v s) (put_all put ps)"

locale keyed_store =
  fixes rep :: "'s \<Rightarrow> ('k \<rightharpoonup> 'v) \<Rightarrow> bool"
    and put :: "'x \<Rightarrow> 'k \<Rightarrow> 'v \<Rightarrow> 's \<Rightarrow> 's result"
    and fresh :: "'s \<Rightarrow> 'x set"
    and get :: "'s \<Rightarrow> 'k \<Rightarrow> 'r result"
    and out :: "'v option \<Rightarrow> 'r"
    and room :: "'s \<Rightarrow> ('k \<rightharpoonup> 'v) \<Rightarrow> nat"
  assumes put_new: "rep s M \<Longrightarrow> x \<in> fresh s \<Longrightarrow> M k = None \<Longrightarrow> 0 < room s M \<Longrightarrow>
      \<exists>s'. put x k v s = Inr s' \<and> rep s' (M(k \<mapsto> v)) \<and> fresh s' = fresh s - {x} \<and> room s' (M(k \<mapsto> v)) = room s M - 1"
    and get_rep: "rep s M \<Longrightarrow> 0 < room s M \<Longrightarrow> get s k = Inr (out (M k))"
begin

lemma put_all_rep:
  "rep s M \<Longrightarrow> distinct (map fst ps) \<Longrightarrow> fst ` set ps \<subseteq> fresh s \<Longrightarrow> distinct (map (fst \<circ> snd) ps) \<Longrightarrow>
    (\<forall>p \<in> set ps. M (fst (snd p)) = None) \<Longrightarrow> length ps \<le> room s M \<Longrightarrow>
     \<exists>s'. put_all put ps s = Inr s' \<and> rep s' (M ++ map_of (map snd ps)) \<and>
       room s' (M ++ map_of (map snd ps)) = room s M - length ps"
proof (induction ps arbitrary: s M)
  case Nil
  then show ?case by simp
next
  case (Cons p ps)
  obtain x k v where p: "p = (x, k, v)" by (cases p)
  obtain s1 where s1: "put x k v s = Inr s1" "rep s1 (M(k \<mapsto> v))" "fresh s1 = fresh s - {x}"
      "room s1 (M(k \<mapsto> v)) = room s M - 1"
    using put_new [OF Cons.prems(1), of x k v] Cons.prems p by auto
  have "\<forall>q \<in> set ps. (M(k \<mapsto> v)) (fst (snd q)) = None"
    using Cons.prems(4,5) p by (force simp: image_iff)
  moreover have "fst ` set ps \<subseteq> fresh s1" using Cons.prems(2,3) p s1(3) by (auto simp: image_iff)
  moreover have "length ps \<le> room s1 (M(k \<mapsto> v))" using s1(4) Cons.prems(6) by simp
  ultimately obtain s' where "put_all put ps s1 = Inr s'" "rep s' (M(k \<mapsto> v) ++ map_of (map snd ps))"
      "room s' (M(k \<mapsto> v) ++ map_of (map snd ps)) = room s1 (M(k \<mapsto> v)) - length ps"
    using Cons.IH [OF s1(2)] Cons.prems p s1(4) by (auto simp del: fun_upd_apply)
  moreover have "M(k \<mapsto> v) ++ map_of (map snd ps) = M ++ map_of (map snd (p # ps))"
  proof -
    have "map_of (map snd ps) k = None" using Cons.prems(4) p by (simp add: map_of_eq_None_iff image_image)
    then show ?thesis by (auto simp: p map_add_def fun_eq_iff split: option.split)
  qed
  moreover have "put_all put (p # ps) s = put_all put ps s1" using s1(1) p by simp
  ultimately show ?case using s1(4) by (intro exI [of _ s']) (simp del: fun_upd_apply)
qed

lemma put_all_get:
  assumes "rep s M" "distinct (map fst ps)" "fst ` set ps \<subseteq> fresh s" "distinct (map (fst \<circ> snd) ps)"
    "\<forall>p \<in> set ps. M (fst (snd p)) = None" "length ps < room s M" "(x, k, v) \<in> set ps"
  shows "\<exists>s'. put_all put ps s = Inr s' \<and> get s' k = Inr (out (Some v))"
proof -
  obtain s' where s': "put_all put ps s = Inr s'" "rep s' (M ++ map_of (map snd ps))"
      "room s' (M ++ map_of (map snd ps)) = room s M - length ps"
    using put_all_rep [OF assms(1-5)] assms(6) by auto
  have "distinct (map fst (map snd ps))" using assms(4) by simp
  moreover have "(k, v) \<in> set (map snd ps)" using assms(7) by force
  ultimately have "map_of (map snd ps) k = Some v" by (rule map_of_is_SomeI)
  with get_rep [OF s'(2), of k] s' assms(6) show ?thesis by auto
qed

end


lemma put_node_at_new:
  assumes "hm_rep hm M" and "hm_nodes hm p = None" "p \<noteq> 0" and "M k = None" and "card (dom M) < n"
  shows "\<exists>hm'. put_node_at n p v k hm = Inr (True, hm') \<and> hm_rep hm' (M(k \<mapsto> v)) \<and>
    dom (hm_nodes hm') = insert p (dom (hm_nodes hm))"
  using pg_tbl_insert_new [OF assms(1-3),
      of "\<lparr>pt_level = None, pt_vaddr = v, pt_paddr = k, pt_used = True, pt_next = 0\<rparr>" n] assms(4,5)
  by (simp add: put_node_at_def)

lemma hm_rep_finite: "hm_rep hm M \<Longrightarrow> finite (dom M)"
  unfolding hm_rep_def using bucket_length(2) hash_less by blast

definition hm_put :: "nat \<Rightarrow> u64 \<Rightarrow> u64 \<Rightarrow> u64 \<Rightarrow> hashmap \<Rightarrow> hashmap result" where
  "hm_put n p k v hm = bindE (put_node_at n p v k hm) (\<lambda>(_, hm'). Inr hm')"

definition fresh_nodes :: "hashmap \<Rightarrow> u64 set" where
  "fresh_nodes hm = - insert 0 (dom (hm_nodes hm))"

interpretation page_tables: keyed_store hm_rep "hm_put n" fresh_nodes "get_ptbl_vaddr n" or_null
    "\<lambda>_ M. n - card (dom M)" for n
proof
  fix s :: hashmap and M x k v
  assume rep: "hm_rep s M" and x: "x \<in> fresh_nodes s" and k: "M k = None" and n: "0 < n - card (dom M)"
  obtain hm' where "put_node_at n x v k s = Inr (True, hm')" "hm_rep hm' (M(k \<mapsto> v))"
      "dom (hm_nodes hm') = insert x (dom (hm_nodes s))"
    using put_node_at_new [OF rep _ _ k, of x n v] x n by (auto simp: fresh_nodes_def)
  moreover from this(3) have "fresh_nodes hm' = fresh_nodes s - {x}" by (auto simp: fresh_nodes_def)
  moreover have "card (dom (M(k \<mapsto> v))) = Suc (card (dom M))" using hm_rep_finite [OF rep] k by (auto simp: domIff)
  ultimately show "\<exists>s'. hm_put n x k v s = Inr s' \<and> hm_rep s' (M(k \<mapsto> v)) \<and> fresh_nodes s' = fresh_nodes s - {x} \<and>
      n - card (dom (M(k \<mapsto> v))) = n - card (dom M) - 1"
    by (simp add: hm_put_def)
next
  fix s :: hashmap and M k
  assume "hm_rep s M" and "0 < n - card (dom M)"
  then show "get_ptbl_vaddr n s k = Inr (or_null (M k))" by (intro get_ptbl_vaddr_rep) simp_all
qed

section \<open>Properties\<close>

text \<open>
  C13. Insert and look up: entering any list of tables with pairwise different physical addresses into an initialised map (with fresh
  nodes) makes \<open>get_ptbl_vaddr\<close> return, for each of them, the virtual address it was entered with. The step
  budget \<open>n\<close> only has to exceed the number of tables.\<close>

theorem hashmap_put_then_get:
  assumes "hm_rep hm Map.empty" and "distinct (map fst ps)" and "fst ` set ps \<subseteq> fresh_nodes hm"
    and "distinct (map (fst \<circ> snd) ps)" and "length ps < n" and "(p, paddr, vaddr) \<in> set ps"
  shows "\<exists>hm'. put_all (hm_put n) ps hm = Inr hm' \<and> get_ptbl_vaddr n hm' paddr = Inr vaddr"
  using page_tables.put_all_get [OF assms(1-4), of n p paddr vaddr] assms(5,6) by (simp add: or_null_def)

definition empty_hashmap :: hashmap where
  "empty_hashmap = \<lparr>hm_ptr = 0, hm_buckets = [], hm_nodes = Map.empty, tables = 0\<rparr>"

theorem hashmap_put_then_get_witness:
  "\<exists>hm'. put_all (hm_put 3) [(0x100, 0x1000, 0x7000), (0x200, 0x6000, 0x8000)] (hashmap_init_at 0x80 empty_hashmap) = Inr hm' \<and>
     get_ptbl_vaddr 3 hm' 0x6000 = Inr 0x8000"
proof (rule hashmap_put_then_get [where p = "0x200"])
  show "hm_rep (hashmap_init_at 0x80 empty_hashmap) Map.empty" by (rule hm_rep_init) simp
qed (auto simp: fresh_nodes_def empty_hashmap_def hashmap_init_at_def)

text \<open>
  C29. Removal, completely: on a map that represents \<open>M\<close>, \<open>vmm_hashmap_remove\<close> of a key that is absent or that belongs to the first
  node of its bucket returns false and changes nothing; of any other key it returns true and the map then
  represents \<open>M\<close> without that key. In particular a table that is alone in its bucket can never be removed.\<close>

theorem hashmap_remove_exact:
  assumes "hm_rep hm M" and "card (dom M) < n"
  shows "if M k = None \<or> first_in_bucket hm k then vmm_hashmap_remove n k hm = Inr (False, hm)
    else \<exists>hm'. vmm_hashmap_remove n k hm = Inr (True, hm') \<and> hm_rep hm' (M(k := None))"
  using remove_rep [OF assms, of k] by (auto split: if_splits)

theorem hashmap_remove_exact_witness:
  "vmm_hashmap_remove 1 0x1000 (hashmap_init_at 0x80 empty_hashmap) = Inr (False, hashmap_init_at 0x80 empty_hashmap)"
  using hashmap_remove_exact [OF hm_rep_init [of "0x80" empty_hashmap], of 1 "0x1000"] by simp

text \<open>
  Re-entering a table that is first in its bucket is not noticed: \<open>vmm_hashmap_put\<close> reports success and appends a second node, and
  lookups keep returning the old virtual address. (For every other node of the bucket the address is updated in place and
  the result is false.)\<close>

theorem hashmap_stale_entry:
  assumes "hm_rep hm M" and "M k = Some old" and "first_in_bucket hm k" and "hm_nodes hm p = None" and "p \<noteq> 0"
    and "card (dom M) + 1 < n"
  shows "\<exists>hm'. put_node_at n p vaddr k hm = Inr (True, hm') \<and> get_ptbl_vaddr n hm' k = Inr old"
proof -
  obtain B where B: "bucket_chains hm B" "\<forall>i < HASH_MAP_BUCKETS. distinct (map fst (bucket_entries hm B i))"
      "M = (\<lambda>k. map_of (bucket_entries hm B (hash_function k)) k)"
    using assms(1) by (auto simp: hm_rep_def)
  let ?i = "hash_function k" and ?td = "\<lparr>pt_level = None, pt_vaddr = vaddr, pt_paddr = k, pt_used = True, pt_next = 0\<rparr>"
  obtain c qs where c: "B ?i = c # qs" "fst (entry_of (hm_nodes hm) c) = k"
    using assms(3) first_in_bucket_iff [OF B(1)] by blast
  obtain es where es: "bucket_entries hm B ?i = (k, old) # es" "k \<notin> fst ` set es"
  proof
    have "bucket_entries hm B ?i = entry_of (hm_nodes hm) c # map (entry_of (hm_nodes hm)) qs" by (simp add: bucket_entries_def c)
    moreover have "entry_of (hm_nodes hm) c = (k, old)" using calculation assms(2) c(2) B(3) by (cases "entry_of (hm_nodes hm) c") auto
    ultimately show "bucket_entries hm B ?i = (k, old) # map (entry_of (hm_nodes hm)) qs" by simp
    show "k \<notin> fst ` set (map (entry_of (hm_nodes hm)) qs)"
      using B(2) hash_less [of k] c by (auto simp: bucket_entries_def image_image)
  qed
  have len: "length (B ?i) \<le> card (dom M)"
    using bucket_length(1) [OF B(1) hash_less _ B(3)] B(2) hash_less by blast
  note nn = bucket_chains_new_node [OF B(1) assms(4)]
  obtain hm' ps where r': "pg_tbl_insert n p (set_node hm p ?td) = Inr (True, hm')"
      "bucket_becomes (set_node hm p ?td) B ?i ps ((k, old) # es @ [(k, vaddr)]) hm'"
    using pg_tbl_insert_chain [OF nn(1) _ _ assms(5) _ refl, of ?td ?td n True] nn es len assms(6)
    by (auto simp: nn(2) [OF hash_less])
  then have r: "pg_tbl_insert n p (set_node hm p ?td) = Inr (True, hm')" "bucket_chains hm' (B(?i := ps))"
      "bucket_entries hm' (B(?i := ps)) ?i = (k, old) # es @ [(k, vaddr)]"
    by (simp_all add: bucket_becomes_def)
  have "length ps = Suc (Suc (length es))" using arg_cong [OF r(3), of length] by (simp add: bucket_entries_def)
  moreover have "length (B ?i) = Suc (length es)" using arg_cong [OF es(1), of length] by (simp add: bucket_entries_def)
  ultimately have "length ps < n" using len assms(6) by simp
  then have "get_ptbl_vaddr n hm' k = Inr old"
    using lookup_walk_chain [OF bucket_chain [OF r(2) hash_less], of k n k] r(2,3)
    by (simp add: get_ptbl_vaddr_def bucket_chains_def bucket_entries_def)
  with r(1) show ?thesis by (simp add: put_node_at_def)
qed


lemma one_table:
  "\<exists>hm. put_node_at 1 0x100 0x7000 0x1000 (hashmap_init_at 0x80 empty_hashmap) = Inr (True, hm) \<and>
     hm_rep hm [0x1000 \<mapsto> 0x7000] \<and> dom (hm_nodes hm) = {0x100} \<and> first_in_bucket hm 0x1000"
proof -
  let ?h = "hashmap_init_at 0x80 empty_hashmap"
  obtain hm where hm: "put_node_at 1 0x100 0x7000 0x1000 ?h = Inr (True, hm)" "hm_rep hm [0x1000 \<mapsto> 0x7000]"
      "dom (hm_nodes hm) = insert 0x100 (dom (hm_nodes ?h))"
    using put_node_at_new [OF hm_rep_init [of "0x80" empty_hashmap], where p = "0x100" and k = "0x1000" and n = 1 and v = "0x7000"]
    by (auto simp: hashmap_init_at_def empty_hashmap_def)
  have "first_in_bucket hm 0x1000"
    using hm(1)
    by (auto simp: put_node_at_def pg_tbl_insert_def hashmap_init_at_def empty_hashmap_def first_in_bucket_def
        hash_function_def HASH_MAP_BUCKETS_def set_node_def)
  with hm show ?thesis by (simp add: hashmap_init_at_def empty_hashmap_def)
qed

theorem hashmap_stale_entry_witness:
  "\<exists>hm hm'. put_node_at 1 0x100 0x7000 0x1000 (hashmap_init_at 0x80 empty_hashmap) = Inr (True, hm) \<and>
     put_node_at 3 0x200 0x9000 0x1000 hm = Inr (True, hm') \<and> get_ptbl_vaddr 3 hm' 0x1000 = Inr 0x7000"
proof -
  obtain hm where hm: "put_node_at 1 0x100 0x7000 0x1000 (hashmap_init_at 0x80 empty_hashmap) = Inr (True, hm)"
      "hm_rep hm [0x1000 \<mapsto> 0x7000]" "dom (hm_nodes hm) = {0x100}" "first_in_bucket hm 0x1000"
    using one_table by blast
  from hm(3) have "hm_nodes hm 0x200 = None" using domI [of "hm_nodes hm" "0x200"] by (cases "hm_nodes hm 0x200") auto
  with hashmap_stale_entry [OF hm(2) _ hm(4), where old = "0x7000" and p = "0x200" and n = 3 and vaddr = "0x9000"] hm(1)
  show ?thesis by auto
qed

end
