(* ===== verification/Vmm.thy ===== *)
theory Vmm
  imports Vmm_hashmap "HOL-Library.Signed_Division"
begin

text \<open>
  Virtual memory: kernel/mm/vmm.c and \<open>alloc_pg_table\<close> of kernel/mm/vmm_hashmap.c. The state is the
  kernel heap, the frames, the hash map of page tables, the words of the page tables and the
  lists of \<open>vm_object\<close>s. \<open>kmalloc\<close>, \<open>vmm_lengthen\<close>, \<open>mmap\<close> and \<open>alloc_pg_table\<close> call each other, so they
  are written over the table allocator they call and tied together by its recursion depth.
\<close>

section \<open>State\<close>

definition VM_FLAG_NONE :: u64 where "VM_FLAG_NONE = 0"
definition VM_FLAG_READ_WRITE :: u64 where "VM_FLAG_READ_WRITE = 1"
definition VM_FLAG_USER :: u64 where "VM_FLAG_USER = 2"
definition VM_FLAG_MMIO :: u64 where "VM_FLAG_MMIO = 16"
definition KERNEL_PAGE_TBL_START :: u64 where "KERNEL_PAGE_TBL_START = 0xffffff8000300000"
definition KERNEL_STACK_START :: u64 where "KERNEL_STACK_START = 0xffffff80002fe000"
definition KERNEL_TEXT_START :: u64 where "KERNEL_TEXT_START = 0xffffff8000000000"
definition KERNEL_STACK_SIZE :: u64 where "KERNEL_STACK_SIZE = 0x2000"
definition USER_STACK_START :: u64 where "USER_STACK_START = 0xc0000000"

text \<open>
  A pointer to a \<open>vm_object\<close>: one of the four static objects, the head inside a \<open>vmm_t\<close> (by the address
  of the \<open>vmm_t\<close>) or an object of the heap.
\<close>

datatype objref = Kernel_page_tbls_obj | Kernel_pmm_obj | Vga_text_buffer_obj | Kernel_text_obj
  | Head u64 | Heap_obj u64

record vm_object =
  vo_base :: u64
  vo_length :: u64
  vo_flags :: u64
  vo_next :: "objref option"

record vmm_t =
  current_vmm_epoch :: u32
  previous_vmm_epoch :: u32
  pml4t :: u64

text \<open>
  \<open>ptw\<close> holds the words of the page tables by the (page-aligned) virtual address of the table. \<open>data\<close>
  holds the bytes of the other mapped pages by virtual address: user addresses per address space (by the value of
  \<open>cr3\<close>), kernel addresses once. \<open>phys_init\<close> is what a physical frame contains when it is first mapped.
\<close>

record vmem =
  frames :: pmm
  hmap :: hashmap
  ptw :: "u64 \<Rightarrow> nat \<Rightarrow> u64"
  data :: "u64 \<Rightarrow> mem"
  phys_init :: "u64 \<Rightarrow> nat \<Rightarrow> u64"
  objs :: "objref \<rightharpoonup> vm_object"
  vmms :: "u64 \<rightharpoonup> vmm_t"
  current_vmm :: u64
  current_pml4t_ptr :: u64
  cr3 :: u64
  mmio_region :: u64
  kernel_stack_ptr :: u64

type_synonym mm = "heap \<times> vmem"
type_synonym pg_alloc = "mm \<Rightarrow> (u64 \<times> mm) result"

definition boot_objs :: "objref \<rightharpoonup> vm_object" where
  "boot_objs =
     [Kernel_page_tbls_obj \<mapsto> \<lparr>vo_base = KERNEL_PAGE_TBL_START, vo_length = 0x6000, vo_flags = VM_FLAG_READ_WRITE, vo_next = None\<rparr>,
      Kernel_pmm_obj \<mapsto> \<lparr>vo_base = KERNEL_PMM_START, vo_length = 0x1000, vo_flags = VM_FLAG_READ_WRITE, vo_next = Some Kernel_page_tbls_obj\<rparr>,
      Vga_text_buffer_obj \<mapsto> \<lparr>vo_base = VGA_TEXT_BUFFER_BASE, vo_length = 0x1000, vo_flags = VM_FLAG_MMIO, vo_next = Some Kernel_pmm_obj\<rparr>,
      Kernel_text_obj \<mapsto> \<lparr>vo_base = KERNEL_TEXT_START, vo_length = 0x13000, vo_flags = VM_FLAG_READ_WRITE, vo_next = Some Vga_text_buffer_obj\<rparr>]"

definition upd :: "(vmem \<Rightarrow> vmem) \<Rightarrow> mm \<Rightarrow> mm" where
  "upd f s = (fst s, f (snd s))"

lemma snd_upd [simp]: "snd (upd f s) = f (snd s)" "fst (upd f s) = fst s"
  by (simp_all add: upd_def)

definition get_obj :: "mm \<Rightarrow> objref \<Rightarrow> vm_object result" where
  "get_obj s r = (case objs (snd s) r of None \<Rightarrow> Inl Null_Deref | Some ob \<Rightarrow> Inr ob)"

definition set_obj :: "objref \<Rightarrow> vm_object \<Rightarrow> mm \<Rightarrow> mm" where
  "set_obj r ob = upd (\<lambda>v. v\<lparr>objs := (objs v)(r \<mapsto> ob)\<rparr>)"

definition read_entry :: "mm \<Rightarrow> u64 \<Rightarrow> nat \<Rightarrow> u64 result" where
  "read_entry s t i = (if t = 0 then Inl Null_Deref else Inr (ptw (snd s) t i))"

definition write_entry :: "u64 \<Rightarrow> nat \<Rightarrow> u64 \<Rightarrow> mm \<Rightarrow> mm result" where
  "write_entry t i w s =
     (if t = 0 then Inl Null_Deref
      else Inr (upd (\<lambda>v. v\<lparr>ptw := (ptw v)(t := (ptw v t)(i := w))\<rparr>) s))"

text \<open>The table that holds the bytes at \<open>a\<close>: kernel addresses are shared by all address spaces.\<close>

definition space :: "vmem \<Rightarrow> u64 \<Rightarrow> u64" where
  "space v a = (if a < 0x8000000000000000 then cr3 v else 0)"

definition set_data :: "(mem \<Rightarrow> mem) \<Rightarrow> u64 \<Rightarrow> mm \<Rightarrow> mm" where
  "set_data f a = upd (\<lambda>v. v\<lparr>data := (data v)(space v a := f (data v (space v a)))\<rparr>)"

text \<open>
  A new page can extend the mapped part of the heap or of the frame bitmap, which the lower components track.
\<close>

definition note_mapping :: "u64 \<Rightarrow> u64 \<Rightarrow> mm \<Rightarrow> mm" where
  "note_mapping paddr vaddr s =
     (let h = fst s; v = snd s; m = frames v
      in (if vaddr = mapped_end h then h\<lparr>mapped_end := mapped_end h + PAGE_SIZE\<rparr> else h,
          if vaddr = KERNEL_PMM_START + 8 * of_nat (length (bitmap m))
          then v\<lparr>frames := m\<lparr>bitmap := bitmap m @ map (phys_init v (PAGE_ALIGN_DOWN paddr)) [0 ..< 512]\<rparr>\<rparr> else v))"

section \<open>Indices and address spaces\<close>

definition get_index :: "u64 \<Rightarrow> nat \<Rightarrow> nat" where
  "get_index addr table_level = unat (drop_bit (9 * table_level + 12) addr AND 0x1ff)"

text \<open>\<open>table_index << (9 * table_level + 12)\<close> is a shift of an \<open>int\<close>.\<close>

definition get_block_vaddr :: "u64 \<Rightarrow> nat \<Rightarrow> nat \<Rightarrow> u64 result" where
  "get_block_vaddr table_virt_addr table_index table_level =
     (if 9 * table_level + 12 < 32
      then Inr (table_virt_addr + signed (push_bit (9 * table_level + 12) (of_nat table_index :: u32)))
      else Inl Undefined_Shift)"

definition switch_vm_space :: "nat \<Rightarrow> u64 \<Rightarrow> mm \<Rightarrow> mm result" where
  "switch_vm_space n vmm s =
     (case vmms (snd s) vmm of
        None \<Rightarrow> Inl Null_Deref
      | Some vm \<Rightarrow>
          bindE (get_ptbl_vaddr n (hmap (snd s)) (pml4t vm)) (\<lambda>t.
            Inr (upd (\<lambda>v. v\<lparr>cr3 := pml4t vm, current_pml4t_ptr := t, current_vmm := vmm\<rparr>) s)))"

section \<open>Unmapping\<close>

text \<open>\<open>end_index\<close> is computed from the start address, as in the source.\<close>

definition umap_indices :: "u64 \<Rightarrow> u64 \<Rightarrow> nat \<Rightarrow> nat list" where
  "umap_indices region_start_addr region_end_addr table_level =
     (let start_index = get_index region_start_addr table_level;
          end_index = get_index region_start_addr table_level
      in [start_index ..< end_index])"

definition umap_leaf :: "u64 \<Rightarrow> nat \<Rightarrow> mm \<Rightarrow> mm result" where
  "umap_leaf table_ptr i s =
     bindE (read_entry s table_ptr i) (\<lambda>w.
     bindE (pmm_free_page (frames (snd s)) (PAGE_ALIGN_DOWN w)) (\<lambda>m.
       write_entry table_ptr i 0 (upd (\<lambda>v. v\<lparr>frames := m\<rparr>) s)))"

primrec umap :: "nat \<Rightarrow> nat \<Rightarrow> u64 \<Rightarrow> u64 \<Rightarrow> u64 \<Rightarrow> u64 \<Rightarrow> mm \<Rightarrow> mm result" where
  "umap 0 = (\<lambda>n table_ptr table_virt_addr region_start_addr region_end_addr s.
     for_each (umap_leaf table_ptr) (umap_indices region_start_addr region_end_addr 0) s)"
| "umap (Suc l) = (\<lambda>n table_ptr table_virt_addr region_start_addr region_end_addr s.
     for_each (\<lambda>i s.
       bindE (read_entry s table_ptr i) (\<lambda>w.
       bindE (get_block_vaddr table_virt_addr i (Suc l)) (\<lambda>block_start_addr.
       bindE (get_block_vaddr table_virt_addr (i + 1) (Suc l)) (\<lambda>block_end_addr.
         let start_addr =
               (if region_start_addr \<le> block_start_addr \<or> region_end_addr \<ge> block_end_addr
                then block_start_addr else region_start_addr)
         in bindE (get_ptbl_vaddr n (hmap (snd s)) (PAGE_ALIGN_DOWN w)) (\<lambda>sub.
            bindE (umap l n sub block_start_addr start_addr region_end_addr s) (\<lambda>s1.
              if region_start_addr \<le> block_start_addr \<and> region_end_addr \<ge> block_end_addr
              then bindE (read_entry s1 table_ptr i) (\<lambda>w1.
                   bindE (vmm_hashmap_remove n (PAGE_ALIGN_DOWN w1) (hmap (snd s1))) (\<lambda>(_, hm).
                     write_entry table_ptr i 0 (upd (\<lambda>v. v\<lparr>hmap := hm\<rparr>) s1)))
              else Inr s1))))))
     (umap_indices region_start_addr region_end_addr (Suc l)) s)"

section \<open>Mapping\<close>

text \<open>
  The levels of \<open>mmap\<close>, over the table allocator \<open>alloc\<close>: the result is the lowest table, or \<open>None\<close> when a
  present table is not in the hash map and the function returns false.
\<close>

primrec mmap_walk :: "pg_alloc \<Rightarrow> nat \<Rightarrow> nat \<Rightarrow> u64 \<Rightarrow> u64 \<Rightarrow> mm \<Rightarrow> (u64 option \<times> mm) result" where
  "mmap_walk alloc n 0 tbl vaddr s = Inr (Some tbl, s)"
| "mmap_walk alloc n (Suc l) tbl vaddr s =
     (let pt_offset = get_index vaddr (Suc l)
      in bindE (read_entry s tbl pt_offset) (\<lambda>pt_value.
         if pt_value AND 1 \<noteq> 0
         then bindE (get_ptbl_vaddr n (hmap (snd s)) (pt_value AND 0xfffffffffffff000)) (\<lambda>t.
                if t = 0 then Inr (None, s) else mmap_walk alloc n l t vaddr s)
         else bindE (alloc s) (\<lambda>(new_paddr, s1).
              bindE (write_entry tbl pt_offset (new_paddr OR 7) s1) (\<lambda>s2.
              bindE (get_ptbl_vaddr n (hmap (snd s2)) new_paddr) (\<lambda>t.
                mmap_walk alloc n l t vaddr s2)))))"

definition mmap_with :: "pg_alloc \<Rightarrow> nat \<Rightarrow> u64 \<Rightarrow> u64 \<Rightarrow> u64 \<Rightarrow> u64 \<Rightarrow> mm \<Rightarrow> (bool \<times> mm) result" where
  "mmap_with alloc n root_table paddr vaddr flags s =
     bindE (mmap_walk alloc n 3 root_table vaddr s) (\<lambda>(r, s1).
       case r of
         None \<Rightarrow> Inr (False, s1)
       | Some pt \<Rightarrow>
           bindE (write_entry pt (get_index vaddr 0) (paddr OR flags OR 7) s1) (\<lambda>s2.
             Inr (True, note_mapping paddr vaddr s2)))"

section \<open>Regions\<close>

text \<open>\<open>&current_vmm->head\<close> is \<open>NULL\<close> when \<open>current_vmm\<close> is.\<close>

definition current_head :: "mm \<Rightarrow> objref option" where
  "current_head s = (if current_vmm (snd s) = 0 then None else Some (Head (current_vmm (snd s))))"

fun find_region :: "nat \<Rightarrow> mm \<Rightarrow> objref option \<Rightarrow> u64 \<Rightarrow> objref option result" where
  "find_region 0 s r start_region = Inl Out_Of_Fuel"
| "find_region (Suc n) s None start_region = Inr None"
| "find_region (Suc n) s (Some r) start_region =
     bindE (get_obj s r) (\<lambda>ob.
       if vo_base ob = start_region then Inr (Some r) else find_region n s (vo_next ob) start_region)"

definition alloc_frame :: "mm \<Rightarrow> (u64 \<times> mm) result" where
  "alloc_frame s = bindE (pmm_alloc_page (frames (snd s))) (\<lambda>(p, m). Inr (p, upd (\<lambda>v. v\<lparr>frames := m\<rparr>) s))"

fun lengthen_loop :: "pg_alloc \<Rightarrow> nat \<Rightarrow> nat \<Rightarrow> objref \<Rightarrow> u64 \<Rightarrow> mm \<Rightarrow> (bool \<times> mm) result" where
  "lengthen_loop alloc n 0 r va s = Inl Out_Of_Fuel"
| "lengthen_loop alloc n (Suc k) r va s =
     bindE (get_obj s r) (\<lambda>ob.
       if va < vo_base ob + vo_length ob
       then if vo_flags ob AND VM_FLAG_MMIO \<noteq> 0 then Inr (False, s)
            else bindE (alloc_frame s) (\<lambda>(pa, s1).
                 bindE (mmap_with alloc n (current_pml4t_ptr (snd s1)) pa va (vo_flags ob) s1) (\<lambda>(ok, s2).
                   if ok then lengthen_loop alloc n k r (va + 0x1000) s2 else Inr (False, s2)))
       else Inr (True, s))"

text \<open>\<open>inc\<close> is an \<open>int\<close>; \<open>PAGE_ALIGN(inc)\<close> divides with truncation.\<close>

definition align_inc :: "u64 \<Rightarrow> u64" where
  "align_inc inc = of_int (sint ((ucast inc :: u32) + 0xfff) sdiv 0x1000 * 0x1000)"

definition vmm_lengthen_with :: "pg_alloc \<Rightarrow> nat \<Rightarrow> u64 \<Rightarrow> u64 \<Rightarrow> mm \<Rightarrow> (bool \<times> mm) result" where
  "vmm_lengthen_with alloc n start_region inc0 s =
     (let inc = align_inc inc0
      in bindE (find_region n s (current_head s) start_region) (\<lambda>found.
         case found of
           None \<Rightarrow> Inr (False, s)
         | Some r \<Rightarrow>
             bindE (get_obj s r) (\<lambda>ob.
             bindE (case vo_next ob of
                      None \<Rightarrow> Inr True
                    | Some nx \<Rightarrow> bindE (get_obj s nx) (\<lambda>nob.
                        Inr (vo_base ob + vo_length ob + inc \<le> vo_base nob))) (\<lambda>fits.
               if \<not> fits then Inr (False, s)
               else lengthen_loop alloc n n r (vo_base ob + vo_length ob)
                      (set_obj r (ob\<lparr>vo_length := vo_length ob + inc\<rparr>) s)))))"

section \<open>Page table allocation (vmm_hashmap.c)\<close>

definition set_hmap :: "(hashmap \<Rightarrow> hashmap) \<Rightarrow> mm \<Rightarrow> mm" where
  "set_hmap f = upd (\<lambda>v. v\<lparr>hmap := f (hmap v)\<rparr>)"

definition finish_pg_table :: "nat \<Rightarrow> u64 \<Rightarrow> mm \<Rightarrow> (u64 \<times> mm) result" where
  "finish_pg_table n table s =
     bindE (get_node (hmap (snd s)) table) (\<lambda>t.
       if pt_vaddr t = 0 then Inl Null_Deref
       else let s1 = upd (\<lambda>v. v\<lparr>ptw := (ptw v)(pt_vaddr t := (\<lambda>_. 0))\<rparr>) s
            in bindE (pg_tbl_insert n table (hmap (snd s1))) (\<lambda>(ok, hm).
                 Inr (if ok then pt_paddr t else 0, set_hmap (\<lambda>_. hm) s1)))"

definition alloc_pg_table_with :: "pg_alloc \<Rightarrow> nat \<Rightarrow> mm \<Rightarrow> (u64 \<times> mm) result" where
  "alloc_pg_table_with alloc n s =
     bindE (get_freed_pg_tbl (hmap (snd s))) (\<lambda>freed.
       if freed \<noteq> 0 then finish_pg_table n freed s
       else bindE (kmalloc n (vmm_lengthen_with alloc n) 40 s) (\<lambda>(table, s1).
            bindE (alloc_frame s1) (\<lambda>(paddr, s2).
              let node = \<lparr>pt_level = Some 0, pt_vaddr = 0, pt_paddr = paddr, pt_used = False, pt_next = 0\<rparr>;
                  s3 = set_hmap (\<lambda>hm. set_node hm table node) s2
              in if paddr = 0 then Inr (0, s3)
                 else bindE (get_obj s3 Kernel_page_tbls_obj) (\<lambda>ob.
                      let ob' = ob\<lparr>vo_length := vo_length ob + 0x1000\<rparr>;
                          vaddr = vo_base ob' + vo_length ob';
                          s4 = set_hmap (\<lambda>hm. set_node hm table (node\<lparr>pt_vaddr := vaddr\<rparr>)) (set_obj Kernel_page_tbls_obj ob' s3)
                      in bindE (mmap_with alloc n (current_pml4t_ptr (snd s4)) paddr vaddr VM_FLAG_NONE s4) (\<lambda>(ok, s5).
                           if ok then finish_pg_table n table s5 else Inr (0, s5))))))"

text \<open>
  The knot: \<open>d\<close> bounds how deep \<open>alloc_pg_table\<close> re-enters itself through \<open>mmap\<close>, \<open>n\<close> every list walk and loop.
\<close>

primrec alloc_pg_table :: "nat \<Rightarrow> nat \<Rightarrow> pg_alloc" where
  "alloc_pg_table 0 n = (\<lambda>s. Inl Out_Of_Fuel)"
| "alloc_pg_table (Suc d) n = alloc_pg_table_with (alloc_pg_table d n) n"

definition mmap :: "nat \<Rightarrow> nat \<Rightarrow> u64 \<Rightarrow> u64 \<Rightarrow> u64 \<Rightarrow> u64 \<Rightarrow> mm \<Rightarrow> (bool \<times> mm) result" where
  "mmap d n = mmap_with (alloc_pg_table d n) n"

definition vmm_lengthen :: "nat \<Rightarrow> nat \<Rightarrow> u64 \<Rightarrow> u64 \<Rightarrow> mm \<Rightarrow> (bool \<times> mm) result" where
  "vmm_lengthen d n = vmm_lengthen_with (alloc_pg_table d n) n"

definition kalloc :: "nat \<Rightarrow> nat \<Rightarrow> u64 \<Rightarrow> mm \<Rightarrow> (u64 \<times> mm) result" where
  "kalloc d n = kmalloc n (vmm_lengthen d n)"

definition vmm_hashmap_init :: "nat \<Rightarrow> nat \<Rightarrow> mm \<Rightarrow> mm result" where
  "vmm_hashmap_init d n s =
     bindE (kalloc d n 160 s) (\<lambda>(p, s1). Inr (set_hmap (hashmap_init_at p) s1))"

definition vmm_hashmap_put :: "nat \<Rightarrow> nat \<Rightarrow> u64 \<Rightarrow> u64 \<Rightarrow> mm \<Rightarrow> (bool \<times> mm) result" where
  "vmm_hashmap_put d n vaddr paddr s =
     (if hm_ptr (hmap (snd s)) = 0 then Inr (False, s)
      else bindE (kalloc d n 40 s) (\<lambda>(p, s1).
           bindE (put_node_at n p vaddr paddr (hmap (snd s1))) (\<lambda>(ok, hm).
             Inr (ok, set_hmap (\<lambda>_. hm) s1))))"


section \<open>Freeing and allocating regions\<close>

text \<open>The object in front of the one that starts at \<open>start_region\<close>; running off the list dereferences \<open>NULL\<close>.\<close>

fun find_before :: "nat \<Rightarrow> mm \<Rightarrow> objref \<Rightarrow> u64 \<Rightarrow> objref result" where
  "find_before 0 s r start_region = Inl Out_Of_Fuel"
| "find_before (Suc n) s r start_region =
     bindE (get_obj s r) (\<lambda>ob.
       case vo_next ob of
         None \<Rightarrow> Inl Null_Deref
       | Some nx \<Rightarrow> bindE (get_obj s nx) (\<lambda>nob.
           if vo_base nob \<noteq> start_region then find_before n s nx start_region else Inr r))"

text \<open>\<open>kfree\<close> of a static object writes in front of it, outside the heap.\<close>

definition free_obj :: "objref \<Rightarrow> mm \<Rightarrow> mm result" where
  "free_obj r s =
     (case r of
        Heap_obj p \<Rightarrow> bindE (kfree (fst s) p) (\<lambda>h. Inr (h, (snd s)\<lparr>objs := (objs (snd s))(r := None)\<rparr>))
      | _ \<Rightarrow> Inl Out_Of_Bounds)"

definition vmm_free :: "nat \<Rightarrow> u64 \<Rightarrow> mm \<Rightarrow> mm result" where
  "vmm_free n start_region s =
     (let head = Head (current_vmm (snd s))
      in bindE (get_obj s head) (\<lambda>hob.
         if vo_base hob = start_region then Inr s
         else bindE (find_before n s head start_region) (\<lambda>r.
              bindE (get_obj s r) (\<lambda>ob.
                case vo_next ob of
                  None \<Rightarrow> Inl Null_Deref
                | Some nx \<Rightarrow> bindE (get_obj s nx) (\<lambda>nob.
                    bindE (umap 3 n (cr3 (snd s)) (current_pml4t_ptr (snd s)) start_region (start_region + vo_length nob) s) (\<lambda>s1.
                      free_obj nx (set_obj r (ob\<lparr>vo_next := vo_next nob\<rparr>) s1)))))))"

text \<open>
  The two searches of \<open>vmm_alloc\<close>. The first fit search ends with the last object and \<open>found\<close> not set when
  no gap is large enough; the other one rejects the request (\<open>None\<close>) or gives the object to insert behind.
\<close>

fun find_gap :: "nat \<Rightarrow> mm \<Rightarrow> objref \<Rightarrow> u64 \<Rightarrow> (objref \<times> u64 option) result" where
  "find_gap 0 s r len = Inl Out_Of_Fuel"
| "find_gap (Suc n) s r len =
     bindE (get_obj s r) (\<lambda>ob.
       case vo_next ob of
         None \<Rightarrow> Inr (r, None)
       | Some nx \<Rightarrow> bindE (get_obj s nx) (\<lambda>nob.
           let base = vo_base ob + vo_length ob
           in if base + len < vo_base nob then Inr (r, Some base) else find_gap n s nx len))"

fun find_place :: "nat \<Rightarrow> mm \<Rightarrow> objref \<Rightarrow> u64 \<Rightarrow> u64 \<Rightarrow> objref option result" where
  "find_place 0 s r start_region len = Inl Out_Of_Fuel"
| "find_place (Suc n) s r start_region len =
     bindE (get_obj s r) (\<lambda>ob.
       case vo_next ob of
         None \<Rightarrow> Inr (Some r)
       | Some nx \<Rightarrow> bindE (get_obj s nx) (\<lambda>nob.
           if vo_base ob \<le> start_region \<and> start_region < vo_base nob
           then if start_region < vo_base ob + vo_length ob \<and> start_region + len < vo_base nob
                then Inr None else Inr (Some r)
           else find_place n s nx start_region len))"

fun back_pages :: "nat \<Rightarrow> nat \<Rightarrow> nat \<Rightarrow> u64 \<Rightarrow> u64 \<Rightarrow> u64 \<Rightarrow> mm \<Rightarrow> (bool \<times> mm) result" where
  "back_pages d n 0 args va flags s = Inr (True, s)"
| "back_pages d n (Suc k) args va flags s =
     bindE (if args \<noteq> 0
            then bindE (pmm_alloc_specific_page (frames (snd s)) args) (\<lambda>(_, m).
                   Inr (args, args + 0x1000, upd (\<lambda>v. v\<lparr>frames := m\<rparr>) s))
            else bindE (alloc_frame s) (\<lambda>(p, s1). Inr (p, args, s1))) (\<lambda>(paddr, args', s1).
     bindE (mmap d n (current_pml4t_ptr (snd s1)) paddr va flags s1) (\<lambda>(ok, s2).
       if ok then back_pages d n k args' (va + 0x1000) flags s2 else Inr (False, s2)))"

definition insert_region :: "nat \<Rightarrow> nat \<Rightarrow> objref \<Rightarrow> u64 \<Rightarrow> u64 \<Rightarrow> u64 \<Rightarrow> mm \<Rightarrow> mm result" where
  "insert_region d n r found len flags s =
     bindE (kalloc d n 32 s) (\<lambda>(p, s1).
     bindE (get_obj s1 r) (\<lambda>ob.
       Inr (set_obj r (ob\<lparr>vo_next := Some (Heap_obj p)\<rparr>)
             (set_obj (Heap_obj p) \<lparr>vo_base = found, vo_length = len, vo_flags = flags, vo_next = vo_next ob\<rparr> s1))))"

definition vmm_alloc :: "nat \<Rightarrow> nat \<Rightarrow> u64 \<Rightarrow> u64 \<Rightarrow> u64 \<Rightarrow> u64 \<Rightarrow> mm \<Rightarrow> (u64 \<times> mm) result" where
  "vmm_alloc d n start_region0 len0 flags args0 s =
     (let len = PAGE_ALIGN len0; start_region = PAGE_ALIGN_DOWN start_region0; args = PAGE_ALIGN_DOWN args0;
          head = Head (current_vmm (snd s));
          place = (if start_region = 0
                   then bindE (find_gap n s head len) (\<lambda>(r, found).
                          case found of None \<Rightarrow> Inl Uninitialised | Some b \<Rightarrow> Inr (Some (r, b)))
                   else bindE (find_place n s head start_region len) (\<lambda>p.
                          Inr (map_option (\<lambda>r. (r, start_region)) p)))
      in bindE place (\<lambda>p.
         case p of
           None \<Rightarrow> Inr (0, s)
         | Some (r, found) \<Rightarrow>
             bindE (insert_region d n r found len flags s) (\<lambda>s1.
             bindE (back_pages d n (unat ((len + 0xfff) div 0x1000)) args found flags s1) (\<lambda>(ok, s2).
               Inr (if ok then found else 0, s2)))))"

section \<open>Sections and stacks\<close>

datatype section_type = CODE_SECTION | STACK_SECTION | OTHER_SECTION u8

record section_t =
  st_type :: section_type
  st_flags :: u64
  st_start :: u64
  st_length :: u64

definition create_section :: "nat \<Rightarrow> nat \<Rightarrow> section_t \<Rightarrow> mm \<Rightarrow> mm result" where
  "create_section d n sec s =
     (case st_type sec of
        CODE_SECTION \<Rightarrow>
          bindE (vmm_alloc d n (st_start sec) (st_length sec) (st_flags sec) 0 s) (\<lambda>(p, s1).
            if p = 0 then Inl Panic else Inr s1)
      | STACK_SECTION \<Rightarrow>
          bindE (vmm_alloc d n (st_start sec) (st_length sec) (st_flags sec) 0 s) (\<lambda>(p, s1).
            if p = 0 then Inl Panic
            else Inr (set_data (\<lambda>m. memset m (st_start sec) 0 (unat (st_length sec))) (st_start sec) s1))
      | OTHER_SECTION _ \<Rightarrow> Inr s)"

definition create_sections :: "nat \<Rightarrow> nat \<Rightarrow> section_t list \<Rightarrow> mm \<Rightarrow> mm result" where
  "create_sections d n = for_each (create_section d n)"

definition get_mmio_ptr :: "u64 \<Rightarrow> mm \<Rightarrow> u64 \<times> mm" where
  "get_mmio_ptr len0 s =
     (let len = PAGE_ALIGN len0; r = mmio_region (snd s) + len
      in (r - len, upd (\<lambda>v. v\<lparr>mmio_region := r\<rparr>) s))"

definition alloc_mmio :: "nat \<Rightarrow> nat \<Rightarrow> u64 \<Rightarrow> u64 \<Rightarrow> u64 \<Rightarrow> mm \<Rightarrow> (u64 \<times> mm) result" where
  "alloc_mmio d n phys_region_start len extra_flags s =
     (let (region, s1) = get_mmio_ptr len s
      in bindE (vmm_alloc d n region len (VM_FLAG_MMIO OR extra_flags) phys_region_start s1) (\<lambda>(_, s2). Inr (region, s2)))"

definition stack_section :: "u64 \<Rightarrow> section_t" where
  "stack_section p = \<lparr>st_type = STACK_SECTION, st_flags = VM_FLAG_READ_WRITE, st_start = p, st_length = KERNEL_STACK_SIZE\<rparr>"

definition alloc_kernel_stack :: "nat \<Rightarrow> nat \<Rightarrow> mm \<Rightarrow> (u64 \<times> mm) result" where
  "alloc_kernel_stack d n s =
     (let p = kernel_stack_ptr (snd s) - (KERNEL_STACK_SIZE + 0x1000)
      in bindE (create_sections d n [stack_section p] (upd (\<lambda>v. v\<lparr>kernel_stack_ptr := p\<rparr>) s)) (\<lambda>s1.
           Inr (kernel_stack_ptr (snd s1), s1)))"

text \<open>\<open>own_vmm\<close> is \<open>&current_process->vmm\<close>.\<close>

definition alloc_user_stack :: "nat \<Rightarrow> nat \<Rightarrow> u64 \<Rightarrow> u64 \<Rightarrow> u64 \<Rightarrow> mm \<Rightarrow> (u64 \<times> mm) result" where
  "alloc_user_stack d n own_vmm user_stack vmm s =
     bindE (switch_vm_space n vmm s) (\<lambda>s1.
     bindE (create_sections d n [stack_section user_stack] s1) (\<lambda>s2.
     bindE (switch_vm_space n own_vmm s2) (\<lambda>s3. Inr (user_stack, s3))))"

section \<open>Address spaces\<close>

definition create_new_pml4t :: "nat \<Rightarrow> nat \<Rightarrow> mm \<Rightarrow> (u64 \<times> mm) result" where
  "create_new_pml4t d n s =
     bindE (alloc_pg_table d n s) (\<lambda>(paddr, s1).
     bindE (get_ptbl_vaddr n (hmap (snd s1)) paddr) (\<lambda>va.
     bindE (read_entry s1 (current_pml4t_ptr (snd s1)) 511) (\<lambda>w.
     bindE (write_entry va 511 w s1) (\<lambda>s2. Inr (paddr, s2)))))"

text \<open>A \<open>vmm_t\<close> by value: its head object and the rest; \<open>store_vmm\<close> copies it to an address.\<close>

type_synonym vmm_value = "vm_object \<times> vmm_t"

definition new_head :: vm_object where
  "new_head = \<lparr>vo_base = 0, vo_length = 0, vo_flags = VM_FLAG_READ_WRITE, vo_next = Some Kernel_text_obj\<rparr>"

definition store_vmm :: "u64 \<Rightarrow> vmm_value \<Rightarrow> mm \<Rightarrow> mm" where
  "store_vmm a val = upd (\<lambda>v. v\<lparr>objs := (objs v)(Head a \<mapsto> fst val), vmms := (vmms v)(a \<mapsto> snd val)\<rparr>)"

definition create_vmm :: "nat \<Rightarrow> nat \<Rightarrow> mm \<Rightarrow> (vmm_value \<times> mm) result" where
  "create_vmm d n s =
     bindE (create_new_pml4t d n s) (\<lambda>(p, s1).
       Inr ((new_head, \<lparr>current_vmm_epoch = 0, previous_vmm_epoch = 0, pml4t = p\<rparr>), s1))"

text \<open>
  \<open>boot_tables\<close> lists the eight page tables of the boot code (symbols of the linker script), as pairs of
  virtual and physical address, in the order of the source.
\<close>

fun put_tables :: "nat \<Rightarrow> nat \<Rightarrow> (u64 \<times> u64) list \<Rightarrow> mm \<Rightarrow> mm result" where
  "put_tables d n [] s = Inr s"
| "put_tables d n ((va, pa) # ts) s = bindE (vmm_hashmap_put d n va pa s) (\<lambda>(_, s1). put_tables d n ts s1)"

definition vmm_init :: "nat \<Rightarrow> nat \<Rightarrow> u64 \<Rightarrow> (u64 \<times> u64) list \<Rightarrow> mm \<Rightarrow> (vmm_value \<times> mm) result" where
  "vmm_init d n kernel_size boot_tables s =
     bindE (get_obj s Kernel_text_obj) (\<lambda>ob.
     bindE (vmm_hashmap_init d n (set_obj Kernel_text_obj (ob\<lparr>vo_length := kernel_size\<rparr>) s)) (\<lambda>s1.
     bindE (put_tables d n boot_tables s1) (\<lambda>s2.
       let val = (new_head, \<lparr>current_vmm_epoch = 0, previous_vmm_epoch = 0, pml4t = cr3 (snd s2)\<rparr>)
       in bindE (kalloc d n 48 s2) (\<lambda>(p, s3).
            Inr (val, store_vmm p val (upd (\<lambda>v. v\<lparr>current_vmm := p\<rparr>) s3))))))"


section \<open>Bytes of the current address space\<close>

definition vm_bytes :: "mm \<Rightarrow> mem" where
  "vm_bytes s a = data (snd s) (space (snd s) a) a"

definition set_bytes :: "mem \<Rightarrow> mm \<Rightarrow> mm" where
  "set_bytes m = upd (\<lambda>v. v\<lparr>data := (\<lambda>sp a. if sp = space v a then m a else data v sp a)\<rparr>)"

lemma space_data [simp]: "space (v\<lparr>data := x\<rparr>) a = space v a"
  by (simp add: space_def)

lemma vm_bytes_set [simp]: "vm_bytes (set_bytes m s) = m"
  by (simp add: vm_bytes_def set_bytes_def fun_eq_iff)

lemma set_bytes_set [simp]: "set_bytes m' (set_bytes m s) = set_bytes m' s"
  by (cases s) (simp add: set_bytes_def upd_def fun_eq_iff)

lemma fst_set_bytes [simp]: "fst (set_bytes m s) = fst s"
  by (simp add: set_bytes_def)

section \<open>Walking the page tables\<close>

text \<open>
  The page walk of the processor, with the physical address in an entry followed through the hash map: \<open>pt_walk\<close> finds the
  lowest table for an address, \<open>translate\<close> its entry.
\<close>

primrec pt_walk :: "nat \<Rightarrow> nat \<Rightarrow> vmem \<Rightarrow> u64 \<Rightarrow> u64 \<Rightarrow> u64 option" where
  "pt_walk n 0 v t a = (if t = 0 then None else Some t)"
| "pt_walk n (Suc l) v t a =
     (if t = 0 \<or> ptw v t (get_index a (Suc l)) AND 1 = 0 then None
      else case get_ptbl_vaddr n (hmap v) (PAGE_ALIGN_DOWN (ptw v t (get_index a (Suc l)))) of
             Inl _ \<Rightarrow> None
           | Inr t' \<Rightarrow> pt_walk n l v t' a)"

definition translate :: "nat \<Rightarrow> vmem \<Rightarrow> u64 \<Rightarrow> u64 \<Rightarrow> u64 option" where
  "translate n v root a =
     (case pt_walk n 3 v root a of
        None \<Rightarrow> None
      | Some t \<Rightarrow> if ptw v t (get_index a 0) AND 1 = 0 then None else Some (ptw v t (get_index a 0)))"

text \<open>A tree of tables: \<open>lev\<close> gives each table its level, and present entries lead one level down.\<close>

definition leveled :: "nat \<Rightarrow> vmem \<Rightarrow> (u64 \<Rightarrow> nat) \<Rightarrow> bool" where
  "leveled n v lev \<longleftrightarrow>
     (\<forall>t i t'. 0 < lev t \<and> ptw v t i AND 1 \<noteq> 0 \<and>
        get_ptbl_vaddr n (hmap v) (PAGE_ALIGN_DOWN (ptw v t i)) = Inr t' \<and> t' \<noteq> 0 \<longrightarrow> lev t' = lev t - 1)"

lemma leveledD:
  "leveled n v lev \<Longrightarrow> lev t = Suc l \<Longrightarrow> ptw v t i AND 1 \<noteq> 0 \<Longrightarrow>
     get_ptbl_vaddr n (hmap v) (PAGE_ALIGN_DOWN (ptw v t i)) = Inr t' \<Longrightarrow> t' \<noteq> 0 \<Longrightarrow> lev t' = l"
  unfolding leveled_def by (drule spec [of _ t], drule spec [of _ i], drule spec [of _ t']) simp

lemma pt_walk_nonzero: "pt_walk n l v t a = Some t' \<Longrightarrow> t \<noteq> 0 \<and> t' \<noteq> 0"
  by (induction l arbitrary: t) (auto split: if_splits sum.splits)

lemma mmap_walk_present:
  "pt_walk n l (snd s) t a = Some t' \<Longrightarrow> mmap_walk alloc n l t a s = Inr (Some t', s)"
proof (induction l arbitrary: t)
  case (Suc l)
  let ?w = "ptw (snd s) t (get_index a (Suc l))"
  from Suc.prems obtain u where u: "t \<noteq> 0" "?w AND 1 \<noteq> 0"
      "get_ptbl_vaddr n (hmap (snd s)) (PAGE_ALIGN_DOWN ?w) = Inr u" "pt_walk n l (snd s) u a = Some t'"
    by (auto split: if_splits sum.splits)
  moreover have "u \<noteq> 0" using pt_walk_nonzero [OF u(4)] by simp
  ultimately show ?case using Suc.IH [OF u(4)] by (simp add: read_entry_def PAGE_ALIGN_DOWN_def)
qed (simp split: if_splits)

lemma pt_walk_level: "leveled n v lev \<Longrightarrow> lev t = l \<Longrightarrow> pt_walk n l v t a = Some t' \<Longrightarrow> lev t' = 0"
proof (induction l arbitrary: t)
  case (Suc l)
  let ?w = "ptw v t (get_index a (Suc l))"
  from Suc.prems(3) obtain u where u: "?w AND 1 \<noteq> 0" "get_ptbl_vaddr n (hmap v) (PAGE_ALIGN_DOWN ?w) = Inr u"
      "pt_walk n l v u a = Some t'"
    by (auto split: if_splits sum.splits)
  moreover have "u \<noteq> 0" using pt_walk_nonzero [OF u(3)] by simp
  ultimately have "lev u = l" using leveledD [OF Suc.prems(1,2)] by blast
  with Suc.IH Suc.prems(1) u(3) show ?case by blast
qed (simp split: if_splits)

text \<open>Writing an entry of a lowest table does not change any walk.\<close>

lemma pt_walk_leaf_write:
  assumes "leveled n v lev" and "lev leaf = 0" and "hmap v' = hmap v" and "\<And>t. t \<noteq> leaf \<Longrightarrow> ptw v' t = ptw v t"
  shows "lev t = l \<Longrightarrow> pt_walk n l v' t a = pt_walk n l v t a"
proof (induction l arbitrary: t)
  case (Suc l)
  let ?w = "ptw v t (get_index a (Suc l))"
  have "t \<noteq> leaf" using Suc.prems assms(2) by auto
  then have same: "ptw v' t = ptw v t" by (rule assms(4))
  show ?case
  proof (cases "t = 0 \<or> ?w AND 1 = 0")
    case False
    show ?thesis
    proof (cases "get_ptbl_vaddr n (hmap v) (PAGE_ALIGN_DOWN ?w)")
      case (Inr u)
      show ?thesis
      proof (cases "u = 0")
        case True
        have "pt_walk n l x 0 a = None" for x by (cases l) simp_all
        with True Inr False show ?thesis by (simp add: assms(3) same)
      next
        case nz: False
        then have "lev u = l" using leveledD [OF assms(1) Suc.prems _ Inr] False by simp
        from Suc.IH [OF this] Inr False show ?thesis by (simp add: assms(3) same)
      qed
    qed (use False in \<open>simp add: assms(3) same\<close>)
  qed (auto simp: same)
qed simp

lemma leveled_leaf_write:
  assumes "leveled n v lev" and "lev leaf = 0" and "hmap v' = hmap v" and "\<And>t. t \<noteq> leaf \<Longrightarrow> ptw v' t = ptw v t"
  shows "leveled n v' lev"
  unfolding leveled_def assms(3)
proof (intro allI impI)
  fix t i t'
  assume *: "0 < lev t \<and> ptw v' t i AND 1 \<noteq> 0 \<and> get_ptbl_vaddr n (hmap v) (PAGE_ALIGN_DOWN (ptw v' t i)) = Inr t' \<and> t' \<noteq> 0"
  then have "t \<noteq> leaf" using assms(2) by auto
  then have "ptw v' t = ptw v t" by (rule assms(4))
  with * assms(1) show "lev t' = lev t - 1" unfolding leveled_def by metis
qed

lemma note_mapping_simps [simp]:
  "hmap (snd (note_mapping p a s)) = hmap (snd s)" "ptw (snd (note_mapping p a s)) = ptw (snd s)"
  by (simp_all add: note_mapping_def Let_def)

lemma mmap_present:
  assumes "pt_walk n 3 (snd s) root a = Some t"
  shows "\<exists>s'. mmap d n root p a flags s = Inr (True, s') \<and> hmap (snd s') = hmap (snd s) \<and>
    ptw (snd s') = (ptw (snd s))(t := (ptw (snd s) t)(get_index a 0 := p OR flags OR 7))"
  using mmap_walk_present [OF assms, of "alloc_pg_table d n"] pt_walk_nonzero [OF assms]
  by (simp add: mmap_def mmap_with_def write_entry_def upd_def)


section \<open>Regions and the heap\<close>

text \<open>\<open>obj_chain obm r obs\<close>: the list of objects from \<open>r\<close> on.\<close>

fun obj_chain :: "(objref \<rightharpoonup> vm_object) \<Rightarrow> objref option \<Rightarrow> vm_object list \<Rightarrow> bool" where
  "obj_chain obm r [] \<longleftrightarrow> r = None"
| "obj_chain obm r (ob # obs) \<longleftrightarrow> (\<exists>q. r = Some q \<and> obm q = Some ob) \<and> obj_chain obm (vo_next ob) obs"

lemma find_region_absent:
  "obj_chain (objs (snd s)) r obs \<Longrightarrow> length obs < n \<Longrightarrow> \<forall>ob \<in> set obs. vo_base ob \<noteq> b \<Longrightarrow>
     find_region n s r b = Inr None"
proof (induction obs arbitrary: r n)
  case Nil
  then show ?case by (cases n) auto
next
  case (Cons ob obs)
  then show ?case by (cases n) (auto simp: get_obj_def)
qed

lemma vmm_lengthen_absent:
  assumes "obj_chain (objs (snd s)) (current_head s) obs" and "length obs < n" and "\<forall>ob \<in> set obs. vo_base ob \<noteq> b"
  shows "vmm_lengthen d n b inc s = Inr (False, s)"
  using find_region_absent [OF assms] by (simp add: vmm_lengthen_def vmm_lengthen_with_def)

lemma vmm_no_growth:
  assumes "obj_chain (objs v) (current_head (h, v)) obs" and "length obs < n" and "\<forall>ob \<in> set obs. vo_base ob \<noteq> heap_start"
  shows "no_growth (vmm_lengthen d n) v"
  unfolding no_growth_def
proof
  fix h'
  have "current_head (h', v) = current_head (h, v)" by (simp add: current_head_def)
  with vmm_lengthen_absent [of "(h', v)" obs n heap_start d "0x1000"] assms
  show "vmm_lengthen d n heap_start 0x1000 (h', v) = Inr (False, h', v)" by simp
qed

lemma umap_id: "umap l n table_ptr table_virt_addr region_start_addr region_end_addr s = Inr s"
  by (cases l) (simp_all add: umap_indices_def)

lemma set_obj_simps [simp]:
  "frames (snd (set_obj r ob s)) = frames (snd s)" "ptw (snd (set_obj r ob s)) = ptw (snd s)"
  "hmap (snd (set_obj r ob s)) = hmap (snd s)" "objs (snd (set_obj r ob s)) = (objs (snd s))(r \<mapsto> ob)"
  "fst (set_obj r ob s) = fst s" "current_vmm (snd (set_obj r ob s)) = current_vmm (snd s)"
  "cr3 (snd (set_obj r ob s)) = cr3 (snd s)"
  by (simp_all add: set_obj_def)

lemma free_obj_keeps:
  "free_obj r s = Inr s' \<Longrightarrow> ptw (snd s') = ptw (snd s) \<and> frames (snd s') = frames (snd s) \<and> hmap (snd s') = hmap (snd s)"
  by (cases r) (auto simp: free_obj_def bindE_eq_Inr)

section \<open>Initialisation\<close>

text \<open>Allocation from a heap with used blocks in front of one free block: the next object comes from the free block.\<close>

lemma kmalloc_abs_bump:
  "n + 5 < r \<Longrightarrow> kmalloc_abs n off (map (Pair True) us @ [(False, r)]) =
     Some (off + blocks_len (map (Pair True) us), map (Pair True) (us @ [n]) @ [(False, r - n - 5)])"
proof (induction us arbitrary: off)
  case (Cons u us)
  then show ?case by (simp add: add.assoc)
qed simp

lemma kmalloc_bump:
  assumes "heap_rep h (map (Pair True) us @ [(False, r)])" and "no_growth vl e" and "5 \<le> unat sz" and "unat sz + 5 < r"
    and "length us + 1 < n"
  shows "\<exists>p h'. kmalloc n vl sz (h, e) = Inr (p, h', e) \<and> heap_rep h' (map (Pair True) (us @ [unat sz]) @ [(False, r - unat sz - 5)]) \<and>
    p \<notin> live_objects (h, e) \<and> p \<noteq> 0 \<and> live_objects (h', e) = insert p (live_objects (h, e))"
proof -
  obtain p h' where r: "kmalloc n vl sz (h, e) = Inr (p, h', e)"
      "heap_rep h' (map (Pair True) (us @ [unat sz]) @ [(False, r - unat sz - 5)])"
    using kmalloc_refines [OF assms(1-3), of n] assms(5) kmalloc_abs_bump [OF assms(4), of 0 us] by auto
  from kmalloc_new_object [OF assms(1-3) r(1)] r show ?thesis by blast
qed

definition boot_inv :: "nat list \<Rightarrow> nat \<Rightarrow> (u64 \<rightharpoonup> u64) \<Rightarrow> mm \<Rightarrow> bool" where
  "boot_inv us r M s \<longleftrightarrow>
     heap_rep (fst s) (map (Pair True) us @ [(False, r)]) \<and> hm_rep (hmap (snd s)) M \<and>
     dom (hm_nodes (hmap (snd s))) \<subseteq> live_objects s \<and> current_vmm (snd s) = 0"

lemma no_vmm_no_growth: "current_vmm v = 0 \<Longrightarrow> 0 < n \<Longrightarrow> no_growth (vmm_lengthen d n) v"
  using vmm_no_growth [of v undefined "[]" n d] by (simp add: current_head_def)

lemma live_objects_snd: "live_objects (h, e) = live_objects (h, e')"
  by (simp add: live_objects_def)

lemma hm_rep_ptr: "hm_rep hm M \<Longrightarrow> hm_ptr hm \<noteq> 0"
  by (auto simp: hm_rep_def bucket_chains_def)

lemma set_hmap_simps [simp]:
  "hmap (snd (set_hmap f s)) = f (hmap (snd s))" "fst (set_hmap f s) = fst s" "cr3 (snd (set_hmap f s)) = cr3 (snd s)"
  "current_vmm (snd (set_hmap f s)) = current_vmm (snd s)" "objs (snd (set_hmap f s)) = objs (snd s)"
  by (simp_all add: set_hmap_def)

lemma vmm_hashmap_put_boot:
  assumes "boot_inv us r M s" and "M pa = None" and "45 < r" and "length us + 1 < n" and "card (dom M) < n"
  shows "\<exists>s'. vmm_hashmap_put d n va pa s = Inr (True, s') \<and> boot_inv (us @ [40]) (r - 45) (M(pa \<mapsto> va)) s' \<and>
    cr3 (snd s') = cr3 (snd s)"
proof -
  obtain h v where s: "s = (h, v)" by (cases s)
  have inv: "heap_rep h (map (Pair True) us @ [(False, r)])" "hm_rep (hmap v) M"
      "dom (hm_nodes (hmap v)) \<subseteq> live_objects (h, v)" "current_vmm v = 0"
    using assms(1) by (simp_all add: boot_inv_def s)
  have "no_growth (vmm_lengthen d n) v" using no_vmm_no_growth [OF inv(4)] assms(4) by simp
  from kmalloc_bump [OF inv(1) this, of 40 n] assms(3,4) obtain p h' where k: "kalloc d n 40 s = Inr (p, h', v)"
      "heap_rep h' (map (Pair True) (us @ [40]) @ [(False, r - 45)])" "p \<notin> live_objects (h, v)" "p \<noteq> 0"
      "live_objects (h', v) = insert p (live_objects (h, v))"
    by (auto simp: kalloc_def s)
  have "hm_nodes (hmap v) p = None" using inv(3) k(3) by auto
  from put_node_at_new [OF inv(2) this k(4) assms(2,5), of va] obtain hm' where
    hm': "put_node_at n p va pa (hmap v) = Inr (True, hm')" "hm_rep hm' (M(pa \<mapsto> va))"
      "dom (hm_nodes hm') = insert p (dom (hm_nodes (hmap v)))"
    by blast
  let ?s = "set_hmap (\<lambda>_. hm') (h', v)"
  have "vmm_hashmap_put d n va pa s = Inr (True, ?s)"
    using k(1) hm'(1) hm_rep_ptr [OF inv(2)] by (simp add: vmm_hashmap_put_def s)
  moreover have "live_objects ?s = insert p (live_objects (h, v))"
    using k(5) live_objects_snd [of h' v "snd ?s"] by (simp add: set_hmap_def upd_def)
  then have "boot_inv (us @ [40]) (r - 45) (M(pa \<mapsto> va)) ?s"
    using k(2) hm'(2,3) inv(3,4) by (auto simp: boot_inv_def)
  ultimately show ?thesis by (auto simp: s)
qed

lemma put_tables_boot:
  "boot_inv us r M s \<Longrightarrow> distinct (map snd ts) \<Longrightarrow> \<forall>t \<in> set ts. M (snd t) = None \<Longrightarrow> 45 * length ts < r \<Longrightarrow>
    length us + length ts < n \<Longrightarrow> card (dom M) + length ts \<le> n \<Longrightarrow>
    \<exists>s' us'. put_tables d n ts s = Inr s' \<and> length us' = length us + length ts \<and>
      boot_inv us' (r - 45 * length ts) (M ++ map_of (map (\<lambda>(va, pa). (pa, va)) ts)) s' \<and> cr3 (snd s') = cr3 (snd s)"
proof (induction ts arbitrary: us r M s)
  case (Cons t ts)
  obtain va pa where t: "t = (va, pa)" by (cases t)
  have new: "M pa = None" using Cons.prems(3) t by simp
  obtain s1 where s1: "vmm_hashmap_put d n va pa s = Inr (True, s1)" "boot_inv (us @ [40]) (r - 45) (M(pa \<mapsto> va)) s1"
      "cr3 (snd s1) = cr3 (snd s)"
    using vmm_hashmap_put_boot [OF Cons.prems(1) new, of n d va] Cons.prems by auto
  have fin: "finite (dom M)" using Cons.prems(1) hm_rep_finite by (auto simp: boot_inv_def)
  have card: "card (dom (M(pa \<mapsto> va))) = Suc (card (dom M))" using fin new by (simp add: domIff)
  have keys: "\<forall>u \<in> set ts. (M(pa \<mapsto> va)) (snd u) = None"
    using Cons.prems(2,3) t by (force simp: image_iff)
  have "45 * length ts < r - 45" "length (us @ [40]) + length ts < n" "card (dom (M(pa \<mapsto> va))) + length ts \<le> n"
    using Cons.prems(4,5,6) card by simp_all
  from Cons.IH [OF s1(2) _ keys this] Cons.prems(2) obtain s' us' where
    s': "put_tables d n ts s1 = Inr s'" "length us' = length (us @ [40]) + length ts"
      "boot_inv us' (r - 45 - 45 * length ts) (M(pa \<mapsto> va) ++ map_of (map (\<lambda>(va, pa). (pa, va)) ts)) s'"
      "cr3 (snd s') = cr3 (snd s1)"
    by (auto simp del: fun_upd_apply)
  have "map_of (map (\<lambda>(va, pa). (pa, va)) ts) pa = None"
    using Cons.prems(2) t by (force simp: map_of_eq_None_iff)
  then have "M(pa \<mapsto> va) ++ map_of (map (\<lambda>(va, pa). (pa, va)) ts) = M ++ map_of (map (\<lambda>(va, pa). (pa, va)) (t # ts))"
    by (auto simp: t map_add_def fun_eq_iff split: option.split)
  with s' s1 show ?case by (intro exI [of _ s'] exI [of _ us']) (simp add: t diff_diff_left del: fun_upd_apply)
qed auto

definition booted :: "mm \<Rightarrow> bool" where
  "booted s \<longleftrightarrow> (\<exists>m. fst s = fresh_heap m) \<and> hm_nodes (hmap (snd s)) = Map.empty \<and> current_vmm (snd s) = 0 \<and>
     objs (snd s) = boot_objs"

lemma vmm_hashmap_init_boot:
  assumes "fst s = fresh_heap m" and "hm_nodes (hmap (snd s)) = Map.empty" and "current_vmm (snd s) = 0" and "1 < n"
  shows "\<exists>s'. vmm_hashmap_init d n s = Inr s' \<and> boot_inv [160] 3926 Map.empty s' \<and> cr3 (snd s') = cr3 (snd s)"
proof -
  have "no_growth (vmm_lengthen d n) (snd s)" using no_vmm_no_growth [OF assms(3)] assms(4) by simp
  moreover have "heap_rep (fst s) (map (Pair True) [] @ [(False, 4091)])" using fresh_heap_rep assms(1) by simp
  ultimately obtain p h' where k: "kalloc d n 160 s = Inr (p, h', snd s)" "heap_rep h' (map (Pair True) [160] @ [(False, 3926)])" "p \<noteq> 0"
    using kmalloc_bump [of "fst s" "[]" 4091 "vmm_lengthen d n" "snd s" 160 n] assms(4) by (auto simp: kalloc_def)
  let ?s = "set_hmap (hashmap_init_at p) (h', snd s)"
  have "hm_nodes (hmap (snd ?s)) = Map.empty" using assms(2) by (simp add: hashmap_init_at_def)
  then have "boot_inv [160] 3926 Map.empty ?s"
    using k(2,3) hm_rep_init [OF k(3)] assms(3) by (simp add: boot_inv_def)
  with k(1) show ?thesis by (simp add: vmm_hashmap_init_def)
qed

section \<open>Allocation of a page table\<close>

lemma hm_rep_new_node:
  assumes "hm_rep hm M" and "hm_nodes hm p = None"
  shows "hm_rep (set_node hm p nd) M"
proof -
  obtain B where B: "bucket_chains hm B" "\<forall>i < HASH_MAP_BUCKETS. distinct (map fst (bucket_entries hm B i))"
      "M = (\<lambda>k. map_of (bucket_entries hm B (hash_function k)) k)"
    using assms(1) by (auto simp: hm_rep_def)
  note nn = bucket_chains_new_node [OF B(1) assms(2)]
  show ?thesis unfolding hm_rep_def using nn(1) B(2,3) nn(2) nn(2) [OF hash_less] by (intro exI [of _ B]) simp
qed

lemma set_node_twice [simp]: "set_node (set_node hm p nd) p nd' = set_node hm p nd'"
  by (simp add: set_node_def)

lemma pt_walk_cong:
  assumes "\<And>k. get_ptbl_vaddr n (hmap v') k = get_ptbl_vaddr n (hmap v) k" and "ptw v' = ptw v"
  shows "pt_walk n l v' t a = pt_walk n l v t a"
  by (induction l arbitrary: t) (simp_all add: assms split: sum.split)

lemma alloc_pg_table_new:
  assumes rep: "hm_rep (hmap v) M" and card: "card (dom M) < n" and free: "tables (hmap v) = 0"
    and k: "kmalloc n (vmm_lengthen_with (alloc_pg_table d n) n) 40 (h, v) = Inr (p, h1, v)"
    and p: "hm_nodes (hmap v) p = None" "p \<noteq> 0"
    and f: "pmm_alloc_page (frames v) = Inr (pa, m)" "pa \<noteq> 0" "M pa = None"
    and ob: "objs v Kernel_page_tbls_obj = Some ob" "va = vo_base ob + vo_length ob + 0x1000" "va \<noteq> 0"
    and walk: "pt_walk n 3 v (current_pml4t_ptr v) va = Some t"
  shows "\<exists>s'. alloc_pg_table (Suc d) n (h, v) = Inr (pa, s') \<and> hm_rep (hmap (snd s')) (M(pa \<mapsto> va)) \<and>
    current_pml4t_ptr (snd s') = current_pml4t_ptr v \<and> ptw (snd s') va = (\<lambda>_. 0) \<and>
    (\<forall>u. u \<noteq> va \<longrightarrow> u \<noteq> t \<longrightarrow> ptw (snd s') u = ptw v u)"
proof -
  let ?nd = "\<lparr>pt_level = Some 0, pt_vaddr = va, pt_paddr = pa, pt_used = False, pt_next = 0\<rparr>"
  let ?ob = "ob\<lparr>vo_length := vo_length ob + 0x1000\<rparr>"
  let ?v4 = "v\<lparr>frames := m, objs := (objs v)(Kernel_page_tbls_obj \<mapsto> ?ob), hmap := set_node (hmap v) p ?nd\<rparr>"
  have rep4: "hm_rep (hmap ?v4) M" using hm_rep_new_node [OF rep p(1)] by simp
  have "pt_walk n 3 ?v4 (current_pml4t_ptr v) va = pt_walk n 3 v (current_pml4t_ptr v) va"
    by (rule pt_walk_cong) (simp_all add: get_ptbl_vaddr_rep [OF rep card] get_ptbl_vaddr_rep [OF rep4 card, simplified])
  with walk have "pt_walk n 3 (snd (h1, ?v4)) (current_pml4t_ptr v) va = Some t" by simp
  from mmap_walk_present [OF this, of "alloc_pg_table d n"] pt_walk_nonzero [OF this]
  obtain s5 where s5: "mmap_with (alloc_pg_table d n) n (current_pml4t_ptr v) pa va VM_FLAG_NONE (h1, ?v4) = Inr (True, s5)"
      "hmap (snd s5) = set_node (hmap v) p ?nd" "current_pml4t_ptr (snd s5) = current_pml4t_ptr v"
      "ptw (snd s5) = (ptw v)(t := (ptw v t)(get_index va 0 := pa OR VM_FLAG_NONE OR 7))"
    by (simp add: mmap_with_def write_entry_def upd_def note_mapping_def Let_def)
  obtain hm' where hm': "pg_tbl_insert n p (set_node (hmap v) p ?nd) = Inr (True, hm')" "hm_rep hm' (M(pa \<mapsto> va))"
    using pg_tbl_insert_new [OF rep p, of ?nd n] f(3) card by auto
  let ?s = "set_hmap (\<lambda>_. hm') (upd (\<lambda>v. v\<lparr>ptw := (ptw v)(va := (\<lambda>_. 0))\<rparr>) s5)"
  have "finish_pg_table n p s5 = Inr (pa, ?s)"
    using s5(2) hm'(1) ob(3) by (simp add: finish_pg_table_def Let_def)
  moreover have "vo_base ob + (vo_length ob + 0x1000) = va" using ob(2) by (simp add: add.assoc)
  ultimately have "alloc_pg_table (Suc d) n (h, v) = Inr (pa, ?s)"
    using k free f(1,2) ob(1) s5(1)
    by (simp add: alloc_pg_table_with_def get_freed_pg_tbl_def alloc_frame_def Let_def upd_def set_hmap_def set_obj_def get_obj_def)
  then show ?thesis using hm'(2) s5(3,4) by (intro exI [of _ ?s]) (simp add: set_hmap_def upd_def)
qed

section \<open>Properties\<close>

text \<open>
  C7. \<open>mmap\<close> agrees with the page walk: when the tables on the path of \<open>vaddr\<close> exist, \<open>mmap\<close> returns true, the walk for \<open>vaddr\<close> then
  ends in the entry \<open>paddr | flags | 7\<close>, the translation of every address that does not use the same
  entry of the same lowest table is unchanged, and the tables still form a tree.\<close>

theorem mmap_translates:
  assumes "leveled n (snd s) lev" and "lev root = 3" and "pt_walk n 3 (snd s) root vaddr = Some t"
  shows "\<exists>s'. mmap d n root paddr vaddr flags s = Inr (True, s') \<and> leveled n (snd s') lev \<and>
    (\<forall>a. translate n (snd s') root a =
       (if pt_walk n 3 (snd s) root a = Some t \<and> get_index a 0 = get_index vaddr 0
        then Some (paddr OR flags OR 7) else translate n (snd s) root a))"
proof -
  obtain s' where s': "mmap d n root paddr vaddr flags s = Inr (True, s')" "hmap (snd s') = hmap (snd s)"
      "ptw (snd s') = (ptw (snd s))(t := (ptw (snd s) t)(get_index vaddr 0 := paddr OR flags OR 7))"
    using mmap_present [OF assms(3)] by blast
  have leaf: "lev t = 0" by (rule pt_walk_level [OF assms(1,2,3)])
  have other: "\<And>u. u \<noteq> t \<Longrightarrow> ptw (snd s') u = ptw (snd s) u" by (simp add: s'(3))
  have walk: "pt_walk n 3 (snd s') root a = pt_walk n 3 (snd s) root a" for a
    by (rule pt_walk_leaf_write [OF assms(1) leaf s'(2) other assms(2)])
  have present: "(paddr OR flags OR 7) AND 1 \<noteq> (0 :: u64)"
  proof
    assume "(paddr OR flags OR 7) AND 1 = (0 :: u64)"
    then have "bit ((paddr OR flags OR 7) AND 1 :: u64) 0 = bit (0 :: u64) 0" by simp
    then show False by (simp add: bit_simps)
  qed
  have "translate n (snd s') root a =
       (if pt_walk n 3 (snd s) root a = Some t \<and> get_index a 0 = get_index vaddr 0
        then Some (paddr OR flags OR 7) else translate n (snd s) root a)" for a
    unfolding translate_def walk using present by (auto simp: s'(3) split: option.splits)
  with s'(1) leveled_leaf_write [OF assms(1) leaf s'(2) other] show ?thesis by blast
qed

text \<open>
  Every page that \<open>mmap\<close> maps is present, writable and accessible from user mode, whatever flags the caller gave: the
  entry written for the page has its three low bits set.\<close>

theorem mmap_user_writable:
  assumes "mmap d n root paddr vaddr flags s = Inr (True, s')"
  shows "\<exists>t. t \<noteq> 0 \<and> ptw (snd s') t (get_index vaddr 0) = paddr OR flags OR 7 \<and>
    ptw (snd s') t (get_index vaddr 0) AND 7 = 7"
proof -
  obtain t s1 s2 where "write_entry t (get_index vaddr 0) (paddr OR flags OR 7) s1 = Inr s2"
      "s' = note_mapping paddr vaddr s2"
    using assms by (auto simp: mmap_def mmap_with_def bindE_eq_Inr split: option.splits)
  then have "t \<noteq> 0 \<and> ptw (snd s') t (get_index vaddr 0) = paddr OR flags OR 7"
    by (auto simp: write_entry_def split: if_splits)
  moreover have "(paddr OR flags OR 7) AND 7 = (7 :: u64)"
    by (rule bit_word_eqI) (auto simp: bit_simps)
  ultimately show ?thesis by auto
qed

text \<open>
  \<open>vmm_free\<close> removes the region from the list and frees its \<open>vm_object\<close>, but the pages stay mapped and their frames stay
  allocated: \<open>umap\<close> computes its end index from the start address, so its loop never runs. A successful call leaves the
  page tables, the hash map and the frame bitmap exactly as they were.\<close>

theorem vmm_free_keeps_mappings:
  assumes "vmm_free n start_region s = Inr s'"
  shows "ptw (snd s') = ptw (snd s) \<and> frames (snd s') = frames (snd s) \<and> hmap (snd s') = hmap (snd s)"
  using assms
  by (auto simp: vmm_free_def Let_def umap_id bindE_eq_Inr dest!: free_obj_keeps split: if_splits option.splits)

text \<open>
  C30. The kernel heap never grows: in every state whose list of regions has no region that starts at \<open>KERNEL_HEAP_START\<close> (as is
  the case for the regions the kernel creates), \<open>vmm_lengthen\<close> refuses the heap, so \<open>kmalloc\<close> of a request that first fit
  cannot serve ends in a page fault behind the last heap page.\<close>

theorem heap_never_grows:
  assumes "obj_chain (objs v) (current_head (h, v)) obs" and "length obs < n" and "\<forall>ob \<in> set obs. vo_base ob \<noteq> heap_start"
    and "heap_rep h bs" and "5 \<le> unat sz" and "length bs < n" and "kmalloc_abs (unat sz) 0 bs = None"
  shows "vmm_lengthen d n heap_start inc (h, v) = Inr (False, h, v) \<and> kalloc d n sz (h, v) = Inl Page_Fault"
proof
  show "vmm_lengthen d n heap_start inc (h, v) = Inr (False, h, v)"
    using vmm_lengthen_absent [of "(h, v)" obs n heap_start d inc] assms by simp
  show "kalloc d n sz (h, v) = Inl Page_Fault"
    using kmalloc_refines [OF assms(4) vmm_no_growth [OF assms(1,2,3)] assms(5,6)] assms(7) by (simp add: kalloc_def)
qed


text \<open>
  \<open>vmm_init\<close> on the boot state succeeds: after it every boot page table (physical addresses pairwise different) is found by \<open>get_ptbl_vaddr\<close>
  with its virtual address, \<open>current_vmm\<close> points to a \<open>vmm_t\<close> for the address space in \<open>cr3\<close>, and its list of regions
  starts with the kernel text. Room and step budget are enough for up to 80 tables; the kernel has eight.\<close>

theorem vmm_init_registers_boot_tables:
  assumes "booted s" and "distinct (map snd ts)" and "length ts \<le> 80" and "length ts + 3 < n"
  shows "\<exists>val s'. vmm_init d n kernel_size ts s = Inr (val, s') \<and> pml4t (snd val) = cr3 (snd s) \<and>
    (\<forall>(va, pa) \<in> set ts. get_ptbl_vaddr n (hmap (snd s')) pa = Inr va) \<and>
    current_vmm (snd s') \<noteq> 0 \<and> vmms (snd s') (current_vmm (snd s')) = Some (snd val) \<and>
    objs (snd s') (Head (current_vmm (snd s'))) = Some new_head"
proof -
  obtain m ob where b: "fst s = fresh_heap m" "hm_nodes (hmap (snd s)) = Map.empty" "current_vmm (snd s) = 0"
      "objs (snd s) Kernel_text_obj = Some ob"
    using assms(1) by (auto simp: booted_def boot_objs_def)
  let ?s0 = "set_obj Kernel_text_obj (ob\<lparr>vo_length := kernel_size\<rparr>) s"
  obtain s1 where s1: "vmm_hashmap_init d n ?s0 = Inr s1" "boot_inv [160] 3926 Map.empty s1" "cr3 (snd s1) = cr3 (snd s)"
    using vmm_hashmap_init_boot [of ?s0 m n d] b assms(4) by auto
  let ?M = "map_of (map (\<lambda>(va, pa). (pa, va)) ts)"
  obtain s2 us where s2: "put_tables d n ts s1 = Inr s2" "length us = 1 + length ts"
      "boot_inv us (3926 - 45 * length ts) ?M s2" "cr3 (snd s2) = cr3 (snd s)"
    using put_tables_boot [OF s1(2) assms(2), of n d] assms(3,4) s1(3) by auto
  have inv: "heap_rep (fst s2) (map (Pair True) us @ [(False, 3926 - 45 * length ts)])" "hm_rep (hmap (snd s2)) ?M"
      "current_vmm (snd s2) = 0"
    using s2(3) by (simp_all add: boot_inv_def)
  have ng: "no_growth (vmm_lengthen d n) (snd s2)" using no_vmm_no_growth [OF inv(3)] assms(4) by simp
  obtain p h' where p: "kalloc d n 48 s2 = Inr (p, h', snd s2)" "p \<noteq> 0"
  proof -
    have "unat (48 :: u64) + 5 < 3926 - 45 * length ts" using assms(3) by simp
    from kmalloc_bump [OF inv(1) ng _ this, of n] assms(4) s2(2) that show ?thesis by (auto simp: kalloc_def)
  qed
  have dk: "distinct (map fst (map (\<lambda>(va, pa). (pa, va)) ts))" using assms(2) by (simp add: comp_def case_prod_beta)
  have "card (dom ?M) \<le> length ts"
  proof -
    have "dom ?M = fst ` set (map (\<lambda>(va, pa). (pa, va)) ts)" by (rule dom_map_of_conv_image_fst)
    also have "card \<dots> \<le> length ts" using card_length [of "map fst (map (\<lambda>(va, pa). (pa, va)) ts)"] by (simp add: image_image)
    finally show ?thesis .
  qed
  moreover have "?M pa = Some va" if "(va, pa) \<in> set ts" for va pa
    using dk that by (intro map_of_is_SomeI) force+
  ultimately have look: "get_ptbl_vaddr n (hmap (snd s2)) pa = Inr va" if "(va, pa) \<in> set ts" for va pa
    using get_ptbl_vaddr_rep [OF inv(2), of n pa] assms(4) that by (simp add: or_null_def)
  show ?thesis
    using b(4) s1(1) s2(1,4) p look by (auto simp: vmm_init_def get_obj_def Let_def store_vmm_def upd_def)
qed



text \<open>
  The overlap test of \<open>vmm_alloc\<close> combines its two conditions with \<open>&&\<close>: a request that starts between a region and its successor is
  rejected only when it both starts inside the region and ends before the successor. Every request that runs
  into the next region is accepted and inserted.\<close>

theorem find_place_accepts_overlap:
  assumes "get_obj s r = Inr ob" and "vo_next ob = Some nx" and "get_obj s nx = Inr nob"
    and "vo_base ob \<le> start_region" and "start_region < vo_base nob"
  shows "find_place (Suc n) s r start_region len =
    Inr (if start_region < vo_base ob + vo_length ob \<and> start_region + len < vo_base nob then None else Some r)"
  using assms by simp


section \<open>Example states\<close>

text \<open>Four tables, one per level, every entry of which leads to the next table.\<close>

definition example_hmap :: hashmap where
  "example_hmap =
     \<lparr>hm_ptr = 0x80, hm_buckets = (replicate 20 0)[16 := 0x100, 12 := 0x200, 8 := 0x300],
      hm_nodes =
        [0x100 \<mapsto> \<lparr>pt_level = None, pt_vaddr = 0xb000, pt_paddr = 0x1000, pt_used = True, pt_next = 0\<rparr>,
         0x200 \<mapsto> \<lparr>pt_level = None, pt_vaddr = 0xc000, pt_paddr = 0x2000, pt_used = True, pt_next = 0\<rparr>,
         0x300 \<mapsto> \<lparr>pt_level = None, pt_vaddr = 0xd000, pt_paddr = 0x3000, pt_used = True, pt_next = 0\<rparr>],
      tables = 0\<rparr>"

definition example_ptw :: "u64 \<Rightarrow> nat \<Rightarrow> u64" where
  "example_ptw t i = (if t = 0xa000 then 0x1007 else if t = 0xb000 then 0x2007 else if t = 0xc000 then 0x3007 else 0)"

definition example_objs :: "objref \<rightharpoonup> vm_object" where
  "example_objs = boot_objs(Head 1 \<mapsto> new_head\<lparr>vo_next := Some (Heap_obj (haddr 5))\<rparr>,
     Heap_obj (haddr 5) \<mapsto> \<lparr>vo_base = 0x5000, vo_length = 0x1000, vo_flags = 1, vo_next = Some Kernel_text_obj\<rparr>)"

definition example_frames :: pmm where
  "example_frames = \<lparr>num_pages = 128, bitmap = [15, 0]\<rparr>"

definition example_mm :: mm where
  "example_mm =
     (fresh_heap (\<lambda>_. 0),
      \<lparr>frames = example_frames, hmap = example_hmap, ptw = example_ptw, data = (\<lambda>_ _. 0), phys_init = (\<lambda>_ _. 0),
       objs = example_objs, vmms = Map.empty, current_vmm = 1, current_pml4t_ptr = 0xa000, cr3 = 0x9000,
       mmio_region = VGA_TEXT_BUFFER_BASE + PAGE_SIZE, kernel_stack_ptr = KERNEL_STACK_START\<rparr>)"

definition example_lev :: "u64 \<Rightarrow> nat" where
  "example_lev t = (if t = 0xa000 then 3 else if t = 0xb000 then 2 else if t = 0xc000 then 1 else 0)"

lemma example_lookup:
  "get_ptbl_vaddr (Suc n) example_hmap 0x1000 = Inr 0xb000" "get_ptbl_vaddr (Suc n) example_hmap 0x2000 = Inr 0xc000"
  "get_ptbl_vaddr (Suc n) example_hmap 0x3000 = Inr 0xd000"
  by (simp_all add: get_ptbl_vaddr_def example_hmap_def hash_function_def HASH_MAP_BUCKETS_def get_node_def)

lemma example_entries:
  "PAGE_ALIGN_DOWN 0x1007 = 0x1000" "PAGE_ALIGN_DOWN 0x2007 = 0x2000" "PAGE_ALIGN_DOWN 0x3007 = 0x3000"
  by (simp_all add: PAGE_ALIGN_DOWN_def)

lemma example_leveled: "leveled (Suc n) (snd example_mm) example_lev"
  unfolding leveled_def
proof (intro allI impI)
  fix t i t'
  assume *: "0 < example_lev t \<and> ptw (snd example_mm) t i AND 1 \<noteq> 0 \<and>
    get_ptbl_vaddr (Suc n) (hmap (snd example_mm)) (PAGE_ALIGN_DOWN (ptw (snd example_mm) t i)) = Inr t' \<and> t' \<noteq> 0"
  then consider "t = 0xa000" | "t = 0xb000" | "t = 0xc000" by (auto simp: example_lev_def split: if_splits)
  then show "example_lev t' = example_lev t - 1"
    using * by cases (auto simp: example_mm_def example_ptw_def example_entries example_lookup example_lev_def)
qed

lemma example_walk: "pt_walk (Suc n) 3 (snd example_mm) 0xa000 a = Some 0xd000"
  by (simp add: numeral_3_eq_3 example_mm_def example_ptw_def example_entries example_lookup)

theorem mmap_translates_witness:
  "\<exists>s'. mmap 0 1 0xa000 0x7000 0x5000 0 example_mm = Inr (True, s') \<and> translate 1 (snd s') 0xa000 0x5000 = Some 0x7007"
proof -
  have "example_lev 0xa000 = 3" by (simp add: example_lev_def)
  from mmap_translates [OF example_leveled [of 0] this example_walk, where d = 0 and vaddr = "0x5000" and paddr = "0x7000" and flags = 0]
  show ?thesis by (auto simp: example_walk)
qed

theorem mmap_user_writable_witness:
  "\<exists>s' t. mmap 0 1 0xa000 0x7000 0x5000 VM_FLAG_NONE example_mm = Inr (True, s') \<and> ptw (snd s') t (get_index 0x5000 0) AND 7 = 7"
proof -
  obtain s' where s': "mmap 0 1 0xa000 0x7000 0x5000 VM_FLAG_NONE example_mm = Inr (True, s')"
    using mmap_present [OF example_walk [of 0 "0x5000"], of 0 "0x7000" VM_FLAG_NONE] by auto
  from mmap_user_writable [OF s'] s' show ?thesis by blast
qed

lemma example_kfree: "\<exists>h'. kfree (fresh_heap (\<lambda>_. 0)) (haddr 5) = Inr h'"
  using kfree_block(1) [of "fresh_heap (\<lambda>_. 0)" "[]" False 4091 "[]"] fresh_heap_rep [of "\<lambda>_. 0"] by simp

theorem vmm_free_keeps_mappings_witness:
  "\<exists>s'. vmm_free 1 0x5000 example_mm = Inr s' \<and> ptw (snd s') = example_ptw \<and> frames (snd s') = example_frames"
proof -
  have "\<exists>s'. vmm_free 1 0x5000 example_mm = Inr s'"
    using example_kfree
    by (auto simp: vmm_free_def Let_def get_obj_def example_mm_def example_objs_def new_head_def umap_id free_obj_def)
  then obtain s' where s': "vmm_free 1 0x5000 example_mm = Inr s'" by blast
  from vmm_free_keeps_mappings [OF s'] s' show ?thesis by (simp add: example_mm_def)
qed

lemma example_chain:
  "\<exists>obs. obj_chain (objs (snd example_mm)) (current_head example_mm) obs \<and> length obs = 6 \<and>
     (\<forall>ob \<in> set obs. vo_base ob \<noteq> heap_start)"
proof -
  have c: "obj_chain example_objs (Some (Head 1)) (map (the \<circ> example_objs)
      [Head 1, Heap_obj (haddr 5), Kernel_text_obj, Vga_text_buffer_obj, Kernel_pmm_obj, Kernel_page_tbls_obj])"
    by (simp add: example_objs_def boot_objs_def new_head_def)
  show ?thesis
    by (rule exI [of _ "map (the \<circ> example_objs)
      [Head 1, Heap_obj (haddr 5), Kernel_text_obj, Vga_text_buffer_obj, Kernel_pmm_obj, Kernel_page_tbls_obj]"])
      (use c in \<open>simp add: current_head_def example_mm_def example_objs_def boot_objs_def new_head_def heap_start_def
        KERNEL_HEAP_START_def KERNEL_TEXT_START_def VGA_TEXT_BUFFER_BASE_def KERNEL_PMM_START_def KERNEL_PAGE_TBL_START_def\<close>)
qed

theorem heap_never_grows_witness: "kalloc 0 7 5000 example_mm = Inl Page_Fault"
proof -
  obtain obs where obs: "obj_chain (objs (snd example_mm)) (current_head (fst example_mm, snd example_mm)) obs" "length obs < 7"
      "\<forall>ob \<in> set obs. vo_base ob \<noteq> heap_start"
    using example_chain by auto
  have "heap_rep (fst example_mm) [(False, 4091)]" using fresh_heap_rep by (simp add: example_mm_def)
  from heap_never_grows [OF obs this, of 5000 0] show ?thesis by simp
qed

definition booted_mm :: mm where
  "booted_mm = (fresh_heap (\<lambda>_. 0), (snd example_mm)\<lparr>hmap := empty_hashmap, objs := boot_objs, current_vmm := 0\<rparr>)"

theorem vmm_init_registers_boot_tables_witness:
  "\<exists>val s'. vmm_init 0 6 0x13000 [(0xa000, 0x9000), (0xb000, 0x1000)] booted_mm = Inr (val, s') \<and>
     get_ptbl_vaddr 6 (hmap (snd s')) 0x1000 = Inr 0xb000"
proof -
  have "booted booted_mm" by (auto simp: booted_def booted_mm_def empty_hashmap_def)
  from vmm_init_registers_boot_tables [OF this, of "[(0xa000, 0x9000), (0xb000, 0x1000)]" 6 0 "0x13000"] show ?thesis by auto
qed

theorem find_place_accepts_overlap_witness:
  "find_place 1 example_mm Vga_text_buffer_obj (VGA_TEXT_BUFFER_BASE + 0x1000) 0x30000 = Inr (Some Vga_text_buffer_obj)"
  using find_place_accepts_overlap [where s = example_mm and r = Vga_text_buffer_obj and n = 0
      and start_region = "VGA_TEXT_BUFFER_BASE + 0x1000" and len = "0x30000"]
  by (simp add: get_obj_def example_mm_def example_objs_def boot_objs_def KERNEL_PMM_START_def VGA_TEXT_BUFFER_BASE_def)

lemma example_frame: "pmm_alloc_page example_frames = Inr (0x4000, example_frames\<lparr>bitmap := [31, 0]\<rparr>)"
  by (simp add: pmm_alloc_page_def pmm_alloc_from.simps alloc_in_word.simps int_bit_def example_frames_def bitmap_read_def
      bitmap_write_def bitmap_to_paddr_def push_bit_eq_mult)

lemma example_kalloc: "\<exists>h'. kmalloc 7 (vmm_lengthen_with (alloc_pg_table 0 7) 7) 40 example_mm = Inr (haddr 5, h', snd example_mm)"
proof -
  obtain obs where obs: "obj_chain (objs (snd example_mm)) (current_head (fst example_mm, snd example_mm)) obs" "length obs < 7"
      "\<forall>ob \<in> set obs. vo_base ob \<noteq> heap_start"
    using example_chain by auto
  have "heap_rep (fst example_mm) [(False, 4091)]" using fresh_heap_rep by (simp add: example_mm_def)
  from kmalloc_refines [OF this vmm_no_growth [OF obs], of 40 7 0] show ?thesis by (auto simp: vmm_lengthen_def)
qed

definition example_M :: "u64 \<rightharpoonup> u64" where
  "example_M = [0x1000 \<mapsto> 0xb000, 0x2000 \<mapsto> 0xc000, 0x3000 \<mapsto> 0xd000]"

definition example_B :: "nat \<Rightarrow> u64 list" where
  "example_B i = (if i = 16 then [0x100] else if i = 12 then [0x200] else if i = 8 then [0x300] else [])"

lemma example_rep: "hm_rep example_hmap example_M"
  unfolding hm_rep_def
proof (intro exI conjI)
  show "bucket_chains example_hmap example_B"
    by (auto simp: bucket_chains_def example_hmap_def example_B_def HASH_MAP_BUCKETS_def hash_function_def nth_list_update)
  show "\<forall>i < HASH_MAP_BUCKETS. distinct (map fst (bucket_entries example_hmap example_B i))"
    by (simp add: bucket_entries_def example_B_def)
  show "example_M = (\<lambda>k. map_of (bucket_entries example_hmap example_B (hash_function k)) k)"
    by (auto simp: example_M_def bucket_entries_def example_B_def example_hmap_def hash_function_def HASH_MAP_BUCKETS_def fun_eq_iff)
qed

lemma example_alloc:
  "\<exists>s1. alloc_pg_table (Suc 0) 7 example_mm = Inr (0x4000, s1) \<and>
     hm_rep (hmap (snd s1)) (example_M(0x4000 \<mapsto> KERNEL_PAGE_TBL_START + 0x7000)) \<and> current_pml4t_ptr (snd s1) = 0xa000"
proof -
  obtain h' where k: "kmalloc 7 (vmm_lengthen_with (alloc_pg_table 0 7) 7) 40 (fst example_mm, snd example_mm) = Inr (haddr 5, h', snd example_mm)"
    using example_kalloc by auto
  have hm: "hmap (snd example_mm) = example_hmap" "current_pml4t_ptr (snd example_mm) = 0xa000" "frames (snd example_mm) = example_frames"
    by (simp_all add: example_mm_def)
  have p: "hm_nodes example_hmap (haddr 5) = None" "haddr 5 \<noteq> 0"
    by (simp_all add: example_hmap_def haddr_def heap_start_def KERNEL_HEAP_START_def)
  have ob: "objs (snd example_mm) Kernel_page_tbls_obj =
      Some \<lparr>vo_base = KERNEL_PAGE_TBL_START, vo_length = 0x6000, vo_flags = VM_FLAG_READ_WRITE, vo_next = None\<rparr>"
    by (simp add: example_mm_def example_objs_def boot_objs_def)
  have "card (dom example_M) < 7" by (simp add: example_M_def)
  from alloc_pg_table_new [where v = "snd example_mm" and M = example_M, unfolded hm, OF example_rep this _ k p example_frame _ _ ob,
      where va = "KERNEL_PAGE_TBL_START + 0x7000" and t = "0xd000"] example_walk [of 6]
  show ?thesis by (auto simp: example_hmap_def example_M_def KERNEL_PAGE_TBL_START_def)
qed




end
