(* ===== verification/Vmm_frame.thy ===== *)
theory Vmm_frame
  imports Vmm
begin

text \<open>
  What the allocation of memory does not depend on. An operation of kernel/mm commutes with a change \<open>F\<close> of the parts of the state that it
  neither reads nor writes. The locale states what \<open>F\<close> has to leave alone, its lemmas carry the law through the heap, the page tables and the regions, and
  the interpretation takes for \<open>F\<close> the bytes of the mapped pages and the address space register.
\<close>

section \<open>The heap\<close>

lemma bindE_ext: "(\<And>x. m = Inr x \<Longrightarrow> f x = g x) \<Longrightarrow> bindE m f = bindE m g"
  by (cases m) simp_all

text \<open>A change of the part of the state behind the heap.\<close>

definition on_rest :: "('e \<Rightarrow> 'e) \<Rightarrow> heap \<times> 'e \<Rightarrow> heap \<times> 'e" where
  "on_rest G he = (fst he, G (snd he))"

lemma on_rest_simps [simp]:
  "fst (on_rest G he) = fst he"
  "snd (on_rest G he) = G (snd he)"
  "(case on_rest G he of (h, e) \<Rightarrow> f h e) = f (fst he) (G (snd he))"
  by (simp_all add: on_rest_def)

locale lengthen_frame =
  fixes G :: "'e \<Rightarrow> 'e"
    and vl :: "'e lengthen"
  assumes lengthen: "vl b i (on_rest G he) = mapE (apsnd (on_rest G)) (vl b i he)"
begin

lemma fold_rest: "(h, G e) = on_rest G (h, e)"
  by (simp add: on_rest_def)

lemma get_more_pages_frame: "get_more_pages vl k (on_rest G he) = mapE (apsnd (on_rest G)) (get_more_pages vl k he)"
  by (auto simp: get_more_pages_def lengthen fold_rest intro!: bindE_ext)

lemma grow_by_missing_frame: "grow_by_missing vl sz mrs (on_rest G he) = mapE (on_rest G) (grow_by_missing vl sz mrs he)"
  by (auto simp: grow_by_missing_def get_more_pages_frame intro!: bindE_ext)

lemma merge_loop_frame: "merge_loop n vl sz cur nxt mrs (on_rest G he) = mapE (apsnd (on_rest G)) (merge_loop n vl sz cur nxt mrs he)"
proof (induction n arbitrary: nxt mrs he)
  case (Suc n)
  show ?case by (auto simp: Suc grow_by_missing_frame fold_rest Let_def intro!: bindE_ext)
qed simp

lemma kmalloc_loop_frame: "kmalloc_loop n vl sz cur (on_rest G he) = mapE (apsnd (on_rest G)) (kmalloc_loop n vl sz cur he)"
proof (induction n arbitrary: cur he)
  case (Suc n)
  show ?case
    by (auto simp: Suc grow_by_missing_frame merge_loop_frame get_more_pages_frame bindE_assoc fold_rest intro!: bindE_ext split: option.split)
qed simp

lemma kmalloc_frame: "kmalloc n vl sz (on_rest G he) = mapE (apsnd (on_rest G)) (kmalloc n vl sz he)"
  by (simp add: kmalloc_def kmalloc_loop_frame)

end

section \<open>Page tables and regions\<close>

locale vmem_frame =
  fixes F :: "vmem \<Rightarrow> vmem"
  assumes reads: "frames (F v) = frames v" "hmap (F v) = hmap v" "ptw (F v) = ptw v" "objs (F v) = objs v"
      "phys_init (F v) = phys_init v" "current_vmm (F v) = current_vmm v" "current_pml4t_ptr (F v) = current_pml4t_ptr v"
    and writes: "F (v\<lparr>frames := m\<rparr>) = (F v)\<lparr>frames := m\<rparr>" "F (v\<lparr>hmap := hm\<rparr>) = (F v)\<lparr>hmap := hm\<rparr>" "F (v\<lparr>ptw := w\<rparr>) = (F v)\<lparr>ptw := w\<rparr>"
      "F (v\<lparr>objs := ob\<rparr>) = (F v)\<lparr>objs := ob\<rparr>"
begin

lemmas laws = reads writes

lemma get_obj_frame [simp]: "get_obj (on_rest F s) r = get_obj s r"
  by (simp add: get_obj_def laws)

lemma set_obj_frame: "set_obj r ob (on_rest F s) = on_rest F (set_obj r ob s)"
  by (cases s) (simp add: set_obj_def upd_def on_rest_def laws)

lemma set_hmap_frame: "set_hmap f (on_rest F s) = on_rest F (set_hmap f s)"
  by (cases s) (simp add: set_hmap_def upd_def on_rest_def laws)

lemma read_entry_frame [simp]: "read_entry (on_rest F s) t i = read_entry s t i"
  by (simp add: read_entry_def laws)

lemma write_entry_frame: "write_entry t i w (on_rest F s) = mapE (on_rest F) (write_entry t i w s)"
  by (cases s) (simp add: write_entry_def upd_def on_rest_def laws)

lemma note_mapping_frame: "note_mapping p a (on_rest F s) = on_rest F (note_mapping p a s)"
  by (cases s) (simp add: note_mapping_def Let_def on_rest_def laws)

lemma upd_frames_frame: "upd (\<lambda>v. v\<lparr>frames := m\<rparr>) (on_rest F s) = on_rest F (upd (\<lambda>v. v\<lparr>frames := m\<rparr>) s)"
  by (cases s) (simp add: upd_def on_rest_def laws)

lemma alloc_frame_frame: "alloc_frame (on_rest F s) = mapE (apsnd (on_rest F)) (alloc_frame s)"
  by (cases s) (auto simp: alloc_frame_def upd_def on_rest_def laws intro!: bindE_ext)

lemma mmap_walk_frame:
  assumes "\<And>s. alloc (on_rest F s) = mapE (apsnd (on_rest F)) (alloc s)"
  shows "mmap_walk alloc n l t a (on_rest F s) = mapE (apsnd (on_rest F)) (mmap_walk alloc n l t a s)"
proof (induction l arbitrary: t s)
  case (Suc l)
  show ?case by (auto simp: Suc assms write_entry_frame laws Let_def intro!: bindE_ext)
qed simp

lemma mmap_with_frame:
  assumes "\<And>s. alloc (on_rest F s) = mapE (apsnd (on_rest F)) (alloc s)"
  shows "mmap_with alloc n t p a fl (on_rest F s) = mapE (apsnd (on_rest F)) (mmap_with alloc n t p a fl s)"
  by (auto simp: mmap_with_def mmap_walk_frame assms write_entry_frame note_mapping_frame intro!: bindE_ext split: option.split)

lemma current_head_frame: "current_head (on_rest F s) = current_head s"
  by (simp add: current_head_def laws)

lemma find_region_frame: "find_region n (on_rest F s) r b = find_region n s r b"
proof (induction n arbitrary: r)
  case (Suc n)
  then show ?case by (cases r) (auto intro!: bindE_ext)
qed simp

lemma lengthen_loop_frame:
  assumes "\<And>s. alloc (on_rest F s) = mapE (apsnd (on_rest F)) (alloc s)"
  shows "lengthen_loop alloc n k r a (on_rest F s) = mapE (apsnd (on_rest F)) (lengthen_loop alloc n k r a s)"
proof (induction k arbitrary: a s)
  case (Suc k)
  show ?case by (auto simp: Suc alloc_frame_frame mmap_with_frame assms laws intro!: bindE_ext)
qed simp

lemma vmm_lengthen_with_frame:
  assumes "\<And>s. alloc (on_rest F s) = mapE (apsnd (on_rest F)) (alloc s)"
  shows "vmm_lengthen_with alloc n b i (on_rest F s) = mapE (apsnd (on_rest F)) (vmm_lengthen_with alloc n b i s)"
  by (auto simp: vmm_lengthen_with_def Let_def find_region_frame current_head_frame lengthen_loop_frame assms set_obj_frame
      intro!: bindE_ext split: option.split)

lemma finish_pg_table_frame: "finish_pg_table n t (on_rest F s) = mapE (apsnd (on_rest F)) (finish_pg_table n t s)"
  by (cases s) (auto simp: finish_pg_table_def Let_def set_hmap_def upd_def on_rest_def laws intro!: bindE_ext)

lemma alloc_pg_table_with_frame:
  assumes "\<And>s. alloc (on_rest F s) = mapE (apsnd (on_rest F)) (alloc s)"
  shows "alloc_pg_table_with alloc n (on_rest F s) = mapE (apsnd (on_rest F)) (alloc_pg_table_with alloc n s)"
proof -
  have "lengthen_frame F (vmm_lengthen_with alloc n)"
    by unfold_locales (simp add: vmm_lengthen_with_frame assms)
  note km = lengthen_frame.kmalloc_frame [OF this]
  show ?thesis
    by (auto simp: alloc_pg_table_with_def Let_def km finish_pg_table_frame alloc_frame_frame mmap_with_frame assms
        set_hmap_frame set_obj_frame laws intro!: bindE_ext)
qed

lemma alloc_pg_table_frame: "alloc_pg_table d n (on_rest F s) = mapE (apsnd (on_rest F)) (alloc_pg_table d n s)"
  by (induction d arbitrary: s) (simp_all add: alloc_pg_table_with_frame)

lemma mmap_frame: "mmap d n t p a fl (on_rest F s) = mapE (apsnd (on_rest F)) (mmap d n t p a fl s)"
  by (simp add: mmap_def mmap_with_frame alloc_pg_table_frame)

lemma vmm_lengthen_frame: "vmm_lengthen d n b i (on_rest F s) = mapE (apsnd (on_rest F)) (vmm_lengthen d n b i s)"
  by (simp add: vmm_lengthen_def vmm_lengthen_with_frame alloc_pg_table_frame)

end

sublocale vmem_frame \<subseteq> lengthen_frame F "vmm_lengthen d n" for d n
  by unfold_locales (rule vmm_lengthen_frame)

context vmem_frame
begin

lemma kalloc_frame: "kalloc d n sz (on_rest F s) = mapE (apsnd (on_rest F)) (kalloc d n sz s)"
  by (simp add: kalloc_def kmalloc_frame)

lemma find_gap_frame: "find_gap n (on_rest F s) r l = find_gap n s r l"
  by (induction n arbitrary: r) (auto simp: Let_def intro!: bindE_ext split: option.split)

lemma find_place_frame: "find_place n (on_rest F s) r b l = find_place n s r b l"
  by (induction n arbitrary: r) (auto simp: Let_def intro!: bindE_ext split: option.split)

lemma back_pages_frame: "back_pages d n k args a fl (on_rest F s) = mapE (apsnd (on_rest F)) (back_pages d n k args a fl s)"
proof (induction k arbitrary: args a s)
  case (Suc k)
  show ?case by (auto simp: Suc upd_frames_frame alloc_frame_frame mmap_frame laws bindE_assoc intro!: bindE_ext)
qed simp

lemma insert_region_frame: "insert_region d n r b l fl (on_rest F s) = mapE (on_rest F) (insert_region d n r b l fl s)"
  by (auto simp: insert_region_def kalloc_frame set_obj_frame intro!: bindE_ext)

lemma vmm_alloc_frame: "vmm_alloc d n b l fl args (on_rest F s) = mapE (apsnd (on_rest F)) (vmm_alloc d n b l fl args s)"
  by (auto simp: vmm_alloc_def Let_def find_gap_frame find_place_frame insert_region_frame back_pages_frame laws intro!: bindE_ext
      split: option.split prod.split)

lemma create_vmm_frame: "create_vmm d n (on_rest F s) = mapE (apsnd (on_rest F)) (create_vmm d n s)"
  by (auto simp: create_vmm_def create_new_pml4t_def alloc_pg_table_frame write_entry_frame bindE_assoc laws intro!: bindE_ext)

end

text \<open>The windows for devices are taken from \<open>mmio_region\<close> before the region is allocated.\<close>

locale mmio_frame = vmem_frame +
  assumes mmio: "mmio_region (F v) = mmio_region v" "F (v\<lparr>mmio_region := r\<rparr>) = (F v)\<lparr>mmio_region := r\<rparr>"
begin

lemma get_mmio_ptr_frame: "get_mmio_ptr l (on_rest F s) = apsnd (on_rest F) (get_mmio_ptr l s)"
  by (cases s) (simp add: get_mmio_ptr_def upd_def on_rest_def Let_def mmio)

lemma alloc_mmio_frame: "alloc_mmio d n p l fl (on_rest F s) = mapE (apsnd (on_rest F)) (alloc_mmio d n p l fl s)"
  by (cases "get_mmio_ptr l s") (auto simp: alloc_mmio_def get_mmio_ptr_frame vmm_alloc_frame intro!: bindE_ext)

end

section \<open>Bytes\<close>

definition view :: "(u64 \<Rightarrow> mem) \<Rightarrow> u64 \<Rightarrow> vmem \<Rightarrow> vmem" where
  "view dat reg v = v\<lparr>data := dat, cr3 := reg\<rparr>"

interpretation view: mmio_frame "view dat reg" for dat reg
  by unfold_locales (simp_all add: view_def)

interpretation window: vmem_frame "\<lambda>v. v\<lparr>mmio_region := r\<rparr>" for r
  by unfold_locales simp_all

interpretation spaces: vmem_frame "\<lambda>v. v\<lparr>vmms := r\<rparr>" for r
  by unfold_locales simp_all

interpretation stacks: vmem_frame "\<lambda>v. v\<lparr>kernel_stack_ptr := r\<rparr>" for r
  by unfold_locales simp_all

text \<open>An operation that commutes with the setting of a part of the state leaves the part as it is.\<close>

lemma frame_fixes:
  assumes "f (on_rest F s) = mapE (apsnd (on_rest F)) (f s)" and "on_rest F s = s" and "f s = Inr (x, s')"
  shows "on_rest F s' = s'"
  using assms by simp

lemma vmm_alloc_mmio_region:
  assumes "vmm_alloc d n b l fl args s = Inr (x, s')"
  shows "mmio_region (snd s') = mmio_region (snd s)"
  using arg_cong [OF frame_fixes [OF window.vmm_alloc_frame _ assms, of "mmio_region (snd s)"], of "\<lambda>s. mmio_region (snd s)"]
  by (cases s) (simp add: on_rest_def)

lemma vmm_alloc_stack_ptr:
  assumes "vmm_alloc d n b l fl args s = Inr (x, s')"
  shows "kernel_stack_ptr (snd s') = kernel_stack_ptr (snd s)"
  using arg_cong [OF frame_fixes [OF stacks.vmm_alloc_frame _ assms, of "kernel_stack_ptr (snd s)"], of "\<lambda>s. kernel_stack_ptr (snd s)"]
  by (cases s) (simp add: on_rest_def)

lemma vmms_kept:
  fixes s :: mm
  assumes "\<And>r. f (on_rest (\<lambda>v. v\<lparr>vmms := r\<rparr>) s) = mapE (apsnd (on_rest (\<lambda>v. v\<lparr>vmms := r\<rparr>))) (f s)" and "f s = Inr (x, s' :: mm)"
  shows "vmms (snd s') = vmms (snd s)"
  using arg_cong [OF frame_fixes [of f "\<lambda>v. v\<lparr>vmms := vmms (snd s)\<rparr>", OF assms(1) _ assms(2)], of "\<lambda>s. vmms (snd s)"]
  by (cases s) (simp add: on_rest_def)

lemmas vmms_ops = vmms_kept [OF spaces.kalloc_frame] vmms_kept [OF spaces.vmm_alloc_frame] vmms_kept [OF spaces.create_vmm_frame]

text \<open>Operations that commute with every view neither read nor write mapped bytes, and stay in their address space.\<close>

definition byte_free :: "(mm \<Rightarrow> ('a \<times> mm) result) \<Rightarrow> bool" where
  "byte_free f \<longleftrightarrow> (\<forall>dat reg s. f (on_rest (view dat reg) s) = mapE (apsnd (on_rest (view dat reg))) (f s))"

lemma byte_free_ops:
  "byte_free (kalloc d n sz)" "byte_free (vmm_alloc d n b l fl args)" "byte_free (alloc_mmio d n p l fl)" "byte_free (create_vmm d n)"
  by (simp_all add: byte_free_def view.kalloc_frame view.vmm_alloc_frame view.alloc_mmio_frame view.create_vmm_frame)

lemma byte_freeD: "byte_free f \<Longrightarrow> f (on_rest (view dat reg) s) = mapE (apsnd (on_rest (view dat reg))) (f s)"
  unfolding byte_free_def by blast

lemma byte_free_keeps:
  assumes "byte_free f" and "f s = Inr (x, s')"
  shows "data (snd s') = data (snd s)" and "cr3 (snd s') = cr3 (snd s)" and "vm_bytes s' = vm_bytes s"
proof -
  have "on_rest (view (data (snd s)) (cr3 (snd s))) s = s" by (cases s) (simp add: on_rest_def view_def)
  then have s': "on_rest (view (data (snd s)) (cr3 (snd s))) s' = s'"
    using assms unfolding byte_free_def by (metis apsnd_conv mapE_simps(2) sum.inject(2) snd_conv)
  have "snd s' = (snd s')\<lparr>data := data (snd s), cr3 := cr3 (snd s)\<rparr>"
    using arg_cong [OF s', of snd] by (simp add: view_def)
  then show d: "data (snd s') = data (snd s)" and c: "cr3 (snd s') = cr3 (snd s)"
    by (metis vmem.select_convs(4) vmem.surjective vmem.update_convs(4,10), metis vmem.select_convs(10) vmem.surjective vmem.update_convs(10))
  then show "vm_bytes s' = vm_bytes s" by (simp add: vm_bytes_def space_def fun_eq_iff)
qed

lemma set_bytes_view:
  "data (snd s') = data (snd s) \<Longrightarrow> cr3 (snd s') = cr3 (snd s) \<Longrightarrow>
     set_bytes m s' = on_rest (view (data (snd (set_bytes m s))) (cr3 (snd s))) s'"
  by (cases s'; cases "snd s'") (simp add: set_bytes_def upd_def on_rest_def view_def space_def fun_eq_iff)

lemma byte_free_set_bytes:
  assumes "byte_free f"
  shows "f (set_bytes m s) = mapE (apsnd (set_bytes m)) (f s)"
proof (cases "f s")
  case (Inl e)
  then show ?thesis by (subst set_bytes_view [of s s m]) (simp_all add: byte_freeD [OF assms])
next
  case (Inr r)
  then obtain x s' where r: "f s = Inr (x, s')" by (cases r) auto
  have "f (set_bytes m s) = Inr (x, on_rest (view (data (snd (set_bytes m s))) (cr3 (snd s))) s')"
    using r by (subst set_bytes_view [of s s m]) (simp_all add: byte_freeD [OF assms])
  with set_bytes_view [OF byte_free_keeps(1,2) [OF assms r], of m] r show ?thesis by simp
qed

section \<open>An example state\<close>

definition flat_mm :: mm where
  "flat_mm = upd (\<lambda>v. v\<lparr>objs := boot_objs(Head 1 \<mapsto> new_head)\<rparr>) example_mm"

lemma flat_no_growth: "no_growth (vmm_lengthen 0 7) (snd flat_mm)"
proof -
  have c: "obj_chain (objs (snd flat_mm)) (current_head (fst flat_mm, snd flat_mm)) (map (the \<circ> objs (snd flat_mm))
      [Head 1, Kernel_text_obj, Vga_text_buffer_obj, Kernel_pmm_obj, Kernel_page_tbls_obj])"
    by (simp add: flat_mm_def example_mm_def boot_objs_def new_head_def current_head_def)
  show ?thesis
    by (rule vmm_no_growth [OF c])
      (simp_all add: flat_mm_def boot_objs_def new_head_def heap_start_def KERNEL_HEAP_START_def KERNEL_TEXT_START_def
        VGA_TEXT_BUFFER_BASE_def KERNEL_PMM_START_def KERNEL_PAGE_TBL_START_def)
qed

lemma flat_kalloc:
  assumes "5 \<le> unat sz" and "unat sz < 4086"
  shows "\<exists>p h'. kalloc 0 7 sz flat_mm = Inr (p, h', snd flat_mm) \<and> heap_rep h' (map (Pair True) [unat sz] @ [(False, 4091 - unat sz - 5)])"
proof -
  have "heap_rep (fst flat_mm) (map (Pair True) [] @ [(False, 4091)])" using fresh_heap_rep by (simp add: flat_mm_def example_mm_def)
  from kmalloc_bump [OF this flat_no_growth assms(1), of 7] assms(2) show ?thesis by (auto simp: kalloc_def)
qed

lemma mmap_present_eq:
  assumes "pt_walk n 3 (snd s) root a = Some t"
  shows "mmap d n root p a flags s =
    Inr (True, note_mapping p a (upd (\<lambda>v. v\<lparr>ptw := (ptw v)(t := (ptw v t)(get_index a 0 := p OR flags OR 7))\<rparr>) s))"
  using mmap_walk_present [OF assms, of "alloc_pg_table d n"] pt_walk_nonzero [OF assms]
  by (simp add: mmap_def mmap_with_def write_entry_def)

lemma find_place_heap: "find_place n (h, v) r b l = find_place n (h', v) r b l"
  by (induction n arbitrary: r) (auto simp: get_obj_def intro!: bindE_ext split: option.split)

end
