(* ===== verification/Locks.thy ===== *)
theory Locks
  imports Prelude
begin

text \<open>
  The spinlock of kernel/sched/locks.c. A lock is one byte that \<open>__atomic_test_and_set\<close> reads and sets in one step. The
  step relation interleaves any number of threads that acquire and release; the lemmas show mutual exclusion in
  every reachable state and that a free lock is taken by the next attempt.
\<close>

record spinlock_t =
  locked :: bool

definition test_and_set :: "spinlock_t \<Rightarrow> bool \<times> spinlock_t" where
  "test_and_set l = (locked l, l\<lparr>locked := True\<rparr>)"

text \<open>
  \<open>acquire\<close> on a processor on which nothing else runs meanwhile: the loop ends at once or never.
\<close>

definition acquire :: "spinlock_t \<Rightarrow> spinlock_t result" where
  "acquire l = (case test_and_set l of (was, l') \<Rightarrow> if was then Inl Hang else Inr l')"

definition release :: "spinlock_t \<Rightarrow> spinlock_t" where
  "release l = l\<lparr>locked := False\<rparr>"

section \<open>Threads\<close>

datatype pc = Outside | Spinning | Inside

type_synonym 't lock_state = "spinlock_t \<times> ('t \<Rightarrow> pc)"

text \<open>
  One round of the loop of \<open>acquire\<close> is one atomic step; a thread enters \<open>acquire\<close> from outside and leaves the critical
  section through \<open>release\<close>.
\<close>

inductive lock_step :: "'t lock_state \<Rightarrow> 't lock_state \<Rightarrow> bool" where
  enter: "p t = Outside \<Longrightarrow> lock_step (l, p) (l, p(t := Spinning))"
| attempt: "p t = Spinning \<Longrightarrow> test_and_set l = (was, l') \<Longrightarrow>
    lock_step (l, p) (l', if was then p else p(t := Inside))"
| leave: "p t = Inside \<Longrightarrow> lock_step (l, p) (release l, p(t := Outside))"

inductive_cases lock_stepE: "lock_step (l, p) s'"

definition initial_locks :: "'t lock_state" where
  "initial_locks = (\<lparr>locked = False\<rparr>, \<lambda>_. Outside)"

definition inside :: "('t \<Rightarrow> pc) \<Rightarrow> 't set" where
  "inside p = {t. p t = Inside}"

definition lock_inv :: "'t lock_state \<Rightarrow> bool" where
  "lock_inv s \<longleftrightarrow> (if locked (fst s) then \<exists>t. inside (snd s) = {t} else inside (snd s) = {})"

lemma lock_inv_initial: "lock_inv initial_locks"
  by (simp add: lock_inv_def initial_locks_def inside_def)

lemma inside_upd: "inside (p(t := x)) = (if x = Inside then insert t (inside p) else inside p - {t})"
  by (auto simp: inside_def)

lemma lock_step_inv: "lock_step s s' \<Longrightarrow> lock_inv s \<Longrightarrow> lock_inv s'"
proof (induction rule: lock_step.induct)
  case (enter p t l)
  then have "inside p - {t} = inside p" by (auto simp: inside_def)
  with enter show ?case by (auto simp: lock_inv_def inside_upd split: if_splits)
next
  case (attempt p t l was l')
  then show ?case by (auto simp: lock_inv_def inside_upd test_and_set_def)
next
  case (leave p t l)
  then have "t \<in> inside p" by (simp add: inside_def)
  with leave have "inside p = {t}" by (auto simp: lock_inv_def split: if_splits)
  then show ?case by (simp add: lock_inv_def inside_upd release_def)
qed

lemma reachable_lock_inv: "lock_step\<^sup>*\<^sup>* s s' \<Longrightarrow> lock_inv s \<Longrightarrow> lock_inv s'"
  by (induction rule: rtranclp_induct) (auto intro: lock_step_inv)

section \<open>Properties\<close>

text \<open>
  C14. Mutual exclusion and no lost lock: in every state that any interleaving of threads reaches from a free lock, at most one thread is
  between \<open>acquire\<close> and \<open>release\<close>, the lock byte is set exactly when one is, and when none is, the next attempt of
  any spinning thread succeeds.\<close>

theorem spinlock_mutual_exclusion:
  assumes "lock_step\<^sup>*\<^sup>* initial_locks (l, p)"
  shows "(\<forall>t u. p t = Inside \<longrightarrow> p u = Inside \<longrightarrow> t = u) \<and> (locked l \<longleftrightarrow> (\<exists>t. p t = Inside)) \<and>
    (\<forall>t. p t = Spinning \<longrightarrow> \<not> locked l \<longrightarrow> lock_step (l, p) (l\<lparr>locked := True\<rparr>, p(t := Inside)))"
proof -
  have "lock_inv (l, p)" by (rule reachable_lock_inv [OF assms lock_inv_initial])
  moreover have "lock_step (l, p) (l\<lparr>locked := True\<rparr>, p(t := Inside))" if "p t = Spinning" "\<not> locked l" for t
    using attempt [of p t l False "l\<lparr>locked := True\<rparr>"] that by (simp add: test_and_set_def)
  ultimately show ?thesis by (auto simp: lock_inv_def inside_def set_eq_iff split: if_splits)
qed

theorem spinlock_mutual_exclusion_witness:
  "\<exists>l p. lock_step\<^sup>*\<^sup>* initial_locks (l, p) \<and> p (0 :: nat) = Inside \<and> locked l \<and> (\<forall>u. p u = Inside \<longrightarrow> u = 0)"
proof -
  let ?p = "(\<lambda>_. Outside)(0 := Spinning) :: nat \<Rightarrow> pc"
  have a: "lock_step initial_locks (\<lparr>locked = False\<rparr>, ?p)" unfolding initial_locks_def by (rule enter) simp
  have b: "lock_step (\<lparr>locked = False\<rparr>, ?p) (\<lparr>locked = True\<rparr>, ?p(0 := Inside))"
    using attempt [of ?p 0 "\<lparr>locked = False\<rparr>" False "\<lparr>locked = True\<rparr>"] by (simp add: test_and_set_def)
  have r: "lock_step\<^sup>*\<^sup>* initial_locks (\<lparr>locked = True\<rparr>, ?p(0 := Inside))"
    by (rule rtranclp.rtrancl_into_rtrancl [where r = lock_step, OF r_into_rtranclp [where r = lock_step, OF a] b])
  have "\<forall>u. (?p(0 := Inside)) u = Inside \<longrightarrow> u = 0" 
    using spinlock_mutual_exclusion [OF r, THEN conjunct1] fun_upd_same [of ?p 0 Inside] by blast
  moreover have "(?p(0 := Inside)) 0 = Inside" by (rule fun_upd_same)
  moreover have "locked \<lparr>locked = True\<rparr>" by (rule spinlock_t.simps(1) [THEN iffD2]) (rule TrueI)
  ultimately show ?thesis using r by blast
qed

end
