(* ===== verification/Vga.thy ===== *)
theory Vga
  imports Libtitan Locks "HOL-Library.Signed_Division"
begin

text \<open>
  The text console of kernel/drivers/vga.c: the text buffer as bytes of memory, the cursor, the writes to the ports of the
  display, and \<open>printf\<close> with its spinlock. The lemmas relate the byte-level operations to a screen of 25 lines of 80 cells,
  give the exact text of every number format, and say for which formats \<open>printf\<close> returns.
\<close>

section \<open>State and operations\<close>

definition VGA_WIDTH :: int where "VGA_WIDTH = 80"
definition VGA_HEIGHT :: int where "VGA_HEIGHT = 25"
definition VGA_LENGTH :: nat where "VGA_LENGTH = 0xb8fa0 - 0xb8000"
definition VGA_COMMAND :: u16 where "VGA_COMMAND = 0x3d4"
definition VGA_DATA :: u16 where "VGA_DATA = 0x3d5"

text \<open>\<open>out_ports\<close> lists the port writes, the latest first. \<open>printf_lock\<close> is the static lock of \<open>printf\<close>.\<close>

record console =
  cmem :: mem
  vga_out :: u64
  cur_x :: int
  cur_y :: int
  out_ports :: "(u16 \<times> u8) list"
  printf_lock :: spinlock_t

definition outb :: "u16 \<Rightarrow> u8 \<Rightarrow> console \<Rightarrow> console" where
  "outb port byte c = c\<lparr>out_ports := (port, byte) # out_ports c\<rparr>"

definition move_cursor :: "console \<Rightarrow> console" where
  "move_cursor c =
     (let pos = of_int (cur_y c * VGA_WIDTH + (cur_x c + 1)) :: u32
      in outb VGA_DATA (ucast (drop_bit 8 pos AND 0xff))
          (outb VGA_COMMAND 0x0e (outb VGA_DATA (ucast (pos AND 0xff)) (outb VGA_COMMAND 0x0f c))))"

definition scroll_down :: "console \<Rightarrow> console" where
  "scroll_down c =
     (let line_length = nat VGA_WIDTH * 2;
          m1 = memcpy (cmem c) (vga_out c) (vga_out c + of_int (VGA_WIDTH * 2)) (VGA_LENGTH - line_length)
      in c\<lparr>cmem := memset m1 (vga_out c + of_nat (VGA_LENGTH - line_length)) 0 line_length\<rparr>)"

text \<open>\<open>char\<close> is signed: a byte from 128 on changes the attribute byte of the cell too.\<close>

definition vga_cell :: "u8 \<Rightarrow> u16" where
  "vga_cell ch = of_int (0x0f00 + sint ch)"

definition put_cell :: "u8 \<Rightarrow> console \<Rightarrow> console" where
  "put_cell ch c =
     c\<lparr>cmem := store16 (cmem c) (vga_out c + of_int ((cur_y c * VGA_WIDTH + cur_x c) * 2)) (vga_cell ch)\<rparr>"

definition printc :: "u8 \<Rightarrow> console \<Rightarrow> console" where
  "printc ch c =
     (let c1 = (if ch = 10 then c\<lparr>cur_x := 0, cur_y := cur_y c + 1\<rparr>
                else let x = cur_x c + 1
                     in (put_cell ch c)\<lparr>cur_y := cur_y c + x sdiv VGA_WIDTH, cur_x := x smod VGA_WIDTH\<rparr>)
      in if cur_y c1 \<ge> VGA_HEIGHT then scroll_down (c1\<lparr>cur_x := 0, cur_y := VGA_HEIGHT - 1\<rparr>) else c1)"

definition set_cursor_buffer :: "u64 \<Rightarrow> console \<Rightarrow> bool \<times> console" where
  "set_cursor_buffer new_buff c = (True, c\<lparr>vga_out := new_buff\<rparr>)"

definition print_bytes :: "u8 list \<Rightarrow> console \<Rightarrow> console" where
  "print_bytes bs c = fold printc bs c"

definition clear_console :: "console \<Rightarrow> console" where
  "clear_console c = print_bytes (replicate 2000 32) c"

definition console_init :: "console \<Rightarrow> console" where
  "console_init c =
     move_cursor ((clear_console (snd (set_cursor_buffer VGA_TEXT_BUFFER_BASE c)))\<lparr>cur_x := 0, cur_y := 0\<rparr>)"

text \<open>A C string is the list of its bytes up to the terminator.\<close>

definition printstr :: "u8 list \<Rightarrow> console \<Rightarrow> console" where
  "printstr str c = move_cursor (print_bytes (takeWhile (\<lambda>b. b \<noteq> 0) str) c)"

subsection \<open>Numbers\<close>

definition hex_char :: "u8 \<Rightarrow> u8" where
  "hex_char lsb = (if lsb < 0xa then lsb + 0x30 else lsb + 0x57)"

text \<open>The loop from index 15 down to 0: the digits of \<open>num\<close> in front of \<open>acc\<close>.\<close>

fun hex_loop :: "nat \<Rightarrow> u64 \<Rightarrow> u8 list \<Rightarrow> u8 list" where
  "hex_loop 0 num acc = acc"
| "hex_loop (Suc i) num acc = hex_loop i (drop_bit 4 num) (hex_char (ucast (num AND 0x0f)) # acc)"

definition printlong :: "u64 \<Rightarrow> console \<Rightarrow> console" where
  "printlong num c = printstr (hex_loop 16 num []) (printstr (map of_char ''0x'') c)"

text \<open>
  The loop of \<open>printint\<close> at index \<open>i\<close>. The result is the array and the index of \<open>cut_num_str\<close>, which is \<open>num_str + i\<close> although
  the digit was written at \<open>i - 1\<close>.
\<close>

fun printint_loop :: "nat \<Rightarrow> int \<Rightarrow> u8 list \<Rightarrow> nat \<times> u8 list" where
  "printint_loop 0 d num_str = (0, num_str)"
| "printint_loop (Suc i) d num_str =
     (let digit = of_int (d smod 10) :: u8;
          num_str' = num_str[i := 48 + digit];
          d' = (d - uint digit) sdiv 10
      in if d' = 0 \<or> i = 0 then (Suc i, num_str') else printint_loop i d' num_str')"

definition printint_text :: "int \<Rightarrow> u8 list" where
  "printint_text d =
     (case printint_loop 14 d (replicate 15 0) of (start, num_str) \<Rightarrow> takeWhile (\<lambda>b. b \<noteq> 0) (drop start num_str))"

definition printint :: "int \<Rightarrow> console \<Rightarrow> console" where
  "printint d c = printstr (printint_text d) c"

subsection \<open>printf\<close>

datatype printf_arg = Arg_int int | Arg_str "u8 list" | Arg_long u64

text \<open>
  The loop over the format. Taking an argument that is missing or of another type is undefined. \<open>%l\<close> that is not followed
  by \<open>u\<close> does not advance, so the loop never ends; any other specifier calls \<open>printf\<close> again, which spins on the lock
  that this call holds.
\<close>

fun format_loop :: "u8 list \<Rightarrow> printf_arg list \<Rightarrow> console \<Rightarrow> console result" where
  "format_loop [] args c = Inr c"
| "format_loop (ch # fmt) args c =
     (if ch = 37
      then (case fmt of
              [] \<Rightarrow> bindE (acquire (printf_lock c)) (\<lambda>_. Inl Hang)
            | spec # rest \<Rightarrow>
                if spec = 100
                then (case args of Arg_int d # as \<Rightarrow> format_loop rest as (printint d c) | _ \<Rightarrow> Inl Uninitialised)
                else if spec = 115
                then (case args of Arg_str s # as \<Rightarrow> format_loop rest as (printstr s c) | _ \<Rightarrow> Inl Uninitialised)
                else if spec = 108
                then (case rest of
                        u # rest' \<Rightarrow>
                          if u = 117
                          then (case args of Arg_long n # as \<Rightarrow> format_loop rest' as (printlong n c) | _ \<Rightarrow> Inl Uninitialised)
                          else Inl Hang
                      | [] \<Rightarrow> Inl Hang)
                else bindE (acquire (printf_lock c)) (\<lambda>_. Inl Hang))
      else format_loop fmt args (printc ch c))"

definition printf :: "u8 list \<Rightarrow> printf_arg list \<Rightarrow> console \<Rightarrow> console result" where
  "printf fmt args c =
     bindE (acquire (printf_lock c)) (\<lambda>l.
     bindE (format_loop (takeWhile (\<lambda>b. b \<noteq> 0) fmt) args (c\<lparr>printf_lock := l\<rparr>)) (\<lambda>c1.
       let c2 = move_cursor c1 in Inr (c2\<lparr>printf_lock := release (printf_lock c2)\<rparr>)))"


section \<open>The screen\<close>

definition cell :: "console \<Rightarrow> nat \<Rightarrow> u16" where
  "cell c k = load16 (cmem c) (vga_out c + of_nat (2 * k))"

definition screen :: "console \<Rightarrow> u16 list" where
  "screen c = map (cell c) [0 ..< 2000]"

definition console_wf :: "console \<Rightarrow> bool" where
  "console_wf c \<longleftrightarrow> 0 \<le> cur_x c \<and> cur_x c < VGA_WIDTH \<and> 0 \<le> cur_y c \<and> cur_y c < VGA_HEIGHT"

definition screen_abs :: "console \<Rightarrow> u16 list \<times> nat \<times> nat" where
  "screen_abs c = (screen c, nat (cur_x c), nat (cur_y c))"

text \<open>A terminal of 25 lines of 80 cells: what a character does to the cells and the cursor.\<close>

definition term_put :: "u8 \<Rightarrow> u16 list \<times> nat \<times> nat \<Rightarrow> u16 list \<times> nat \<times> nat" where
  "term_put ch t =
     (case t of (scr, x, y) \<Rightarrow>
       let (scr1, x1, y1) =
             (if ch = 10 then (scr, 0, y + 1)
              else (scr[80 * y + x := vga_cell ch], if x = 79 then 0 else x + 1, if x = 79 then y + 1 else y))
       in if 25 \<le> y1 then (drop 80 scr1 @ replicate 80 0, 0, 24) else (scr1, x1, y1))"

lemma vga_consts [simp]: "VGA_WIDTH = 80" "VGA_HEIGHT = 25" "VGA_LENGTH = 4000"
  by (simp_all add: VGA_WIDTH_def VGA_HEIGHT_def VGA_LENGTH_def)

lemma offset_eq_iff: "j < 2 ^ 32 \<Longrightarrow> k < 2 ^ 32 \<Longrightarrow> (b :: u64) + of_nat j = b + of_nat k \<longleftrightarrow> j = k"
proof -
  assume "j < 2 ^ 32" "k < 2 ^ 32"
  then have "unat (of_nat j :: u64) = j" "unat (of_nat k :: u64) = k" by (simp_all add: unat_of_nat_small)
  then show ?thesis by (metis add_left_cancel)
qed

lemma screen_length [simp]: "length (screen c) = 2000"
  by (simp add: screen_def)

lemma screen_nth: "k < 2000 \<Longrightarrow> screen c ! k = cell c k"
  by (simp add: screen_def)

lemma cell_put_cell:
  assumes "p < 2000" and "k < 2000" and "cur_y c * 80 + cur_x c = int p"
  shows "cell (put_cell ch c) k = (if k = p then vga_cell ch else cell c k)"
proof -
  have a: "vga_out c + of_int ((cur_y c * VGA_WIDTH + cur_x c) * 2) = vga_out c + of_nat (2 * p)"
    by (simp add: assms(3) mult.commute)
  show ?thesis
  proof (cases "k = p")
    case True
    then show ?thesis unfolding cell_def put_cell_def a by (simp add: load16_store16)
  next
    case False
    have lt: "2 * k < 2 ^ 32" "2 * k + 1 < 2 ^ 32" "2 * p < 2 ^ 32" "2 * p + 1 < 2 ^ 32" using assms(1,2) by auto
    have suc: "vga_out c + of_nat (2 * q) + 1 = vga_out c + of_nat (2 * q + 1)" for q by simp
    have "vga_out c + of_nat (2 * k) \<noteq> vga_out c + of_nat (2 * p)"
      unfolding offset_eq_iff [OF lt(1,3)] using False by simp
    moreover have "vga_out c + of_nat (2 * k) \<noteq> vga_out c + of_nat (2 * p) + 1"
      unfolding suc offset_eq_iff [OF lt(1,4)] by presburger
    moreover have "vga_out c + of_nat (2 * k) + 1 \<noteq> vga_out c + of_nat (2 * p)"
      unfolding suc offset_eq_iff [OF lt(2,3)] by presburger
    moreover have "vga_out c + of_nat (2 * k) + 1 \<noteq> vga_out c + of_nat (2 * p) + 1"
      unfolding suc offset_eq_iff [OF lt(2,4)] using False by simp
    ultimately show ?thesis unfolding cell_def put_cell_def a load16_def using False by (simp add: store16_other del: of_nat_mult)
  qed
qed

lemma scroll_byte:
  assumes "j < 4000"
  shows "cmem (scroll_down c) (vga_out c + of_nat j) = (if j < 3840 then cmem c (vga_out c + of_nat (j + 160)) else 0)"
proof -
  have j: "unat (of_nat j :: u64) = j" using assms by (simp add: unat_of_nat_small)
  have far: "(3840 :: nat) \<le> unat (vga_out c - (vga_out c + 160))" by simp
  have m: "memset m (vga_out c + 3840) 0 160 (vga_out c + of_nat j) = (if 3840 \<le> j then 0 else m (vga_out c + of_nat j))" for m
  proof -
    have "vga_out c + of_nat j - (vga_out c + 3840) = of_nat j - 3840" by simp
    moreover have "unat (of_nat j - 3840 :: u64) < 160 \<longleftrightarrow> 3840 \<le> j"
      using assms j by (auto simp: unat_sub_if' word_le_nat_alt)
    ultimately show ?thesis by (simp add: memset_eq)
  qed
  have "memcpy (cmem c) (vga_out c) (vga_out c + 160) 3840 (vga_out c + of_nat j) =
      (if j < 3840 then cmem c (vga_out c + of_nat (j + 160)) else cmem c (vga_out c + of_nat j))"
    using memcpy_eq [OF _ far, of "cmem c" "vga_out c + of_nat j"] j by (simp add: algebra_simps)
  with m show ?thesis by (auto simp: scroll_down_def Let_def)
qed


lemma scroll_cell: "k < 2000 \<Longrightarrow> cell (scroll_down c) k = (if k < 1920 then cell c (k + 80) else 0)"
proof -
  assume k: "k < 2000"
  have v: "vga_out (scroll_down c) = vga_out c" by (simp add: scroll_down_def Let_def)
  have "2 * k + 1 < 4000" "2 * k < 4000" using k by auto
  note b = scroll_byte [OF this(1), of c] scroll_byte [OF this(2), of c]
  have e: "vga_out c + of_nat (2 * k) + 1 = vga_out c + of_nat (2 * k + 1)" for k by simp
  have i: "2 * (k + 80) = 2 * k + 160" "2 * k + 1 + 160 = 2 * (k + 80) + 1" by simp_all
  show ?thesis
    unfolding cell_def v load16_def e using b k by (simp add: i del: of_nat_mult of_nat_add of_nat_Suc)
qed

lemma screen_scroll: "screen (scroll_down c) = drop 80 (screen c) @ replicate 80 0"
  by (rule nth_equalityI) (auto simp: screen_nth scroll_cell nth_append add.commute)

lemma screen_put_cell:
  assumes "cur_y c * 80 + cur_x c = int p" and "p < 2000"
  shows "screen (put_cell ch c) = (screen c)[p := vga_cell ch]"
  by (rule nth_equalityI) (use assms in \<open>auto simp: screen_nth cell_put_cell nth_list_update\<close>)

lemma screen_fields [simp]:
  "screen (c\<lparr>cur_x := x\<rparr>) = screen c" "screen (c\<lparr>cur_y := y\<rparr>) = screen c" "screen (c\<lparr>out_ports := ps\<rparr>) = screen c"
  "screen (c\<lparr>printf_lock := l\<rparr>) = screen c"
  by (simp_all add: screen_def cell_def)

lemma console_fields [simp]:
  "cur_x (put_cell ch c) = cur_x c" "cur_y (put_cell ch c) = cur_y c"
  "cur_x (scroll_down c) = cur_x c" "cur_y (scroll_down c) = cur_y c"
  "printf_lock (put_cell ch c) = printf_lock c" "printf_lock (scroll_down c) = printf_lock c"
  by (simp_all add: put_cell_def scroll_down_def Let_def)

lemma printc_refines:
  assumes "console_wf c"
  shows "screen_abs (printc ch c) = term_put ch (screen_abs c)" and "console_wf (printc ch c)"
    and "printf_lock (printc ch c) = printf_lock c"
proof -
  obtain x y where xy: "cur_x c = int x" "cur_y c = int y" "x < 80" "y < 25"
    using assms by (auto simp: console_wf_def elim!: nonneg_int_cases)
  have p: "cur_y c * 80 + cur_x c = int (80 * y + x)" "80 * y + x < 2000" using xy by simp_all
  have d: "(int x + 1) sdiv 80 = (if x = 79 then 1 else 0)" "(int x + 1) smod 80 = (if x = 79 then 0 else int x + 1)"
    using xy(3) by (auto simp: signed_divide_int_def signed_modulo_int_def)
  show "screen_abs (printc ch c) = term_put ch (screen_abs c)"
    using xy d by (auto simp: screen_abs_def printc_def term_put_def Let_def screen_put_cell [OF p] screen_scroll)
  show "console_wf (printc ch c)"
    using xy d by (auto simp: console_wf_def printc_def Let_def)
  show "printf_lock (printc ch c) = printf_lock c" by (simp add: printc_def Let_def)
qed

lemma print_bytes_refines:
  "console_wf c \<Longrightarrow> screen_abs (print_bytes bs c) = fold term_put bs (screen_abs c) \<and> console_wf (print_bytes bs c) \<and>
     printf_lock (print_bytes bs c) = printf_lock c"
  by (induction bs arbitrary: c) (simp_all add: print_bytes_def printc_refines)

lemma move_cursor_same [simp]:
  "screen_abs (move_cursor c) = screen_abs c" "console_wf (move_cursor c) = console_wf c" "printf_lock (move_cursor c) = printf_lock c"
  by (simp_all add: move_cursor_def outb_def Let_def screen_abs_def console_wf_def)

lemma printstr_refines:
  assumes "console_wf c"
  shows "screen_abs (printstr s c) = fold term_put (takeWhile (\<lambda>b. b \<noteq> 0) s) (screen_abs c)" "console_wf (printstr s c)"
    "printf_lock (printstr s c) = printf_lock c"
  using print_bytes_refines [OF assms] by (simp_all add: printstr_def)

section \<open>Number formats\<close>

text \<open>Decimal digits, the most significant first.\<close>

fun dec_digits :: "nat \<Rightarrow> u8 list" where
  "dec_digits n = (if n < 10 then [48 + of_nat n] else dec_digits (n div 10) @ [48 + of_nat (n mod 10)])"

declare dec_digits.simps [simp del]

text \<open>Value of a string of hexadecimal digits.\<close>

definition hex_value :: "u8 \<Rightarrow> nat" where
  "hex_value ch = (if ch < 0x57 then unat (ch - 0x30) else unat (ch - 0x57))"

definition hex_number :: "u8 list \<Rightarrow> nat" where
  "hex_number s = foldl (\<lambda>n ch. 16 * n + hex_value ch) 0 s"


lemma hex_char_value: "d < 16 \<Longrightarrow> hex_value (hex_char d) = unat d" and hex_char_nonzero: "d < 16 \<Longrightarrow> hex_char d \<noteq> 0"
proof -
  assume d: "d < 16"
  define k where "k = unat d"
  have k: "k < 16" "d = of_nat k" using d by (simp_all add: k_def word_less_nat_alt)
  then have "k = 0 \<or> k = 1 \<or> k = 2 \<or> k = 3 \<or> k = 4 \<or> k = 5 \<or> k = 6 \<or> k = 7 \<or> k = 8 \<or> k = 9 \<or> k = 10 \<or>
      k = 11 \<or> k = 12 \<or> k = 13 \<or> k = 14 \<or> k = 15" by presburger
  then show "hex_value (hex_char d) = unat d" "hex_char d \<noteq> 0"
    unfolding k(2) by (auto simp: hex_value_def hex_char_def)
qed

lemma hex_loop_acc: "hex_loop i num acc = hex_loop i num [] @ acc"
proof (induction i arbitrary: num acc)
  case (Suc i)
  show ?case
    using Suc.IH [of "drop_bit 4 num" "hex_char (ucast (num AND 15)) # acc"] Suc.IH [of "drop_bit 4 num" "[hex_char (ucast (num AND 15))]"]
    by simp
qed simp

lemma low_nibble: "unat (ucast (num AND 15 :: u64) :: u8) = unat num mod 16" "(ucast (num AND 15 :: u64) :: u8) < 16"
proof -
  have "num AND 15 = take_bit 4 num" by (simp add: take_bit_eq_mask mask_numeral)
  then have "unat (num AND 15) = unat num mod 16" by (simp add: unat_mod_distrib take_bit_eq_mod)
  then show "unat (ucast (num AND 15 :: u64) :: u8) = unat num mod 16" by (simp add: unsigned_ucast_eq take_bit_nat_eq_self)
  then show "(ucast (num AND 15 :: u64) :: u8) < 16" by (simp add: word_less_nat_alt)
qed

lemma hex_loop_number: "hex_number (hex_loop i num []) = unat num mod 16 ^ i"
proof (induction i arbitrary: num)
  case (Suc i)
  have "hex_number (hex_loop (Suc i) num []) = 16 * hex_number (hex_loop i (drop_bit 4 num) []) + unat num mod 16"
    using hex_loop_acc [of i "drop_bit 4 num" "[hex_char (ucast (num AND 15))]"] hex_char_value [OF low_nibble(2), of num] low_nibble(1) [of num]
    by (simp add: hex_number_def)
  also have "hex_number (hex_loop i (drop_bit 4 num) []) = unat num div 16 mod 16 ^ i"
    using Suc.IH [of "drop_bit 4 num"] by (simp add: drop_bit_eq_div unat_div_distrib)
  also have "16 * (unat num div 16 mod 16 ^ i) + unat num mod 16 = unat num mod 16 ^ Suc i"
    using mod_mult2_eq [of "unat num" 16 "16 ^ i"] by simp
  finally show ?case .
qed (simp add: hex_number_def)

lemma hex_loop_nonzero: "0 \<notin> set acc \<Longrightarrow> 0 \<notin> set (hex_loop i num acc)"
proof (induction i arbitrary: num acc)
  case (Suc i)
  then show ?case using hex_char_nonzero [OF low_nibble(2), of num] by simp
qed simp

lemma hex_loop_length: "length (hex_loop i num acc) = i + length acc"
  by (induction i arbitrary: num acc) simp_all

lemma dec_digits_nonempty [simp]: "dec_digits n \<noteq> []"
  by (simp add: dec_digits.simps [of n])

lemma dec_digits_nonzero: "0 \<notin> set (dec_digits n)"
proof (induction n rule: dec_digits.induct)
  case (1 n)
  have "(48 + of_nat k :: u8) \<noteq> 0" if "k < 10" for k
  proof -
    have "unat (48 + of_nat k :: u8) = 48 + k" using that by (simp add: unat_word_ariths unat_of_nat)
    then show ?thesis by auto
  qed
  with 1 show ?case by (auto simp: dec_digits.simps [of n])
qed

lemma printint_loop_digits:
  "d < 10 ^ Suc i \<Longrightarrow> length s = 15 \<Longrightarrow> i < 15 \<Longrightarrow>
     (case printint_loop (Suc i) (int d) s of (start, s') \<Rightarrow> drop start s' = tl (dec_digits d) @ drop (Suc i) s)"
proof (induction i arbitrary: d s)
  case 0
  then show ?case by (simp add: Let_def dec_digits.simps [of d])
next
  case (Suc i)
  have sm: "int d smod 10 = int (d mod 10)" by (auto simp: signed_modulo_int_def zmod_int)
  then have digit: "(of_int (int d smod 10) :: u8) = of_nat (d mod 10)" by simp
  have u: "uint (of_nat (d mod 10) :: u8) = int (d mod 10)" by (simp add: uint_nat unat_of_nat)
  have dd: "(int d - int (d mod 10)) sdiv 10 = int (d div 10)"
  proof -
    have "int d - int (d mod 10) = int (d div 10) * 10" using div_mult_mod_eq [of d 10] by linarith
    then show ?thesis by (simp add: signed_divide_int_def sgn_if)
  qed
  let ?s = "s[Suc i := 48 + of_nat (d mod 10)]"
  show ?case
  proof (cases "d < 10")
    case True
    then have "printint_loop (Suc (Suc i)) (int d) s = (Suc (Suc i), ?s)"
      unfolding printint_loop.simps(2) Let_def digit u dd by simp
    then show ?thesis using True by (simp add: dec_digits.simps [of d])
  next
    case False
    then have step: "printint_loop (Suc (Suc i)) (int d) s = printint_loop (Suc i) (int (d div 10)) ?s"
      unfolding printint_loop.simps(2) [of "Suc i"] Let_def digit u dd by simp
    have "d div 10 < 10 ^ Suc i" using Suc.prems(1) by (simp add: less_mult_imp_div_less mult.commute)
    with Suc.IH [of "d div 10" ?s] Suc.prems have ih: "case printint_loop (Suc i) (int (d div 10)) ?s of
        (start, s') \<Rightarrow> drop start s' = tl (dec_digits (d div 10)) @ drop (Suc i) ?s" by simp
    have "drop (Suc i) ?s = (48 + of_nat (d mod 10)) # drop (Suc (Suc i)) s"
      using Suc.prems by (simp add: drop_update_swap Cons_nth_drop_Suc [symmetric])
    with ih step False show ?thesis by (simp add: dec_digits.simps [of d] tl_append2)
  qed
qed


section \<open>The text of a format\<close>

text \<open>What a format with its arguments prints, or how the loop over it fails.\<close>

fun expand :: "u8 list \<Rightarrow> printf_arg list \<Rightarrow> u8 list result" where
  "expand [] args = Inr []"
| "expand (ch # fmt) args =
     (if ch = 37
      then (case fmt of
              [] \<Rightarrow> Inl Hang
            | spec # rest \<Rightarrow>
                if spec = 100
                then (case args of
                        Arg_int d # as \<Rightarrow> bindE (expand rest as) (\<lambda>t. Inr (printint_text d @ t)) | _ \<Rightarrow> Inl Uninitialised)
                else if spec = 115
                then (case args of
                        Arg_str s # as \<Rightarrow> bindE (expand rest as) (\<lambda>t. Inr (takeWhile (\<lambda>b. b \<noteq> 0) s @ t)) | _ \<Rightarrow> Inl Uninitialised)
                else if spec = 108
                then (case rest of
                        u # rest' \<Rightarrow>
                          if u = 117
                          then (case args of
                                  Arg_long n # as \<Rightarrow> bindE (expand rest' as) (\<lambda>t. Inr (map of_char ''0x'' @ hex_loop 16 n [] @ t))
                                | _ \<Rightarrow> Inl Uninitialised)
                          else Inl Hang
                      | [] \<Rightarrow> Inl Hang)
                else Inl Hang)
      else bindE (expand fmt args) (\<lambda>t. Inr (ch # t)))"

definition prints :: "u8 list result \<Rightarrow> console \<Rightarrow> console result \<Rightarrow> bool" where
  "prints tx c r \<longleftrightarrow>
     (case tx of
        Inl e \<Rightarrow> r = Inl e
      | Inr bs \<Rightarrow> \<exists>c'. r = Inr c' \<and> screen_abs c' = fold term_put bs (screen_abs c) \<and> console_wf c' \<and>
          printf_lock c' = printf_lock c)"

lemma prints_prefix:
  assumes "prints tx c1 r" and "screen_abs c1 = fold term_put bs (screen_abs c)" and "printf_lock c1 = printf_lock c"
  shows "prints (bindE tx (\<lambda>t. Inr (bs @ t))) c r"
  using assms by (cases tx) (auto simp: prints_def)

lemma printint_text_nonzero: "takeWhile (\<lambda>b. b \<noteq> 0) (printint_text d) = printint_text d"
  by (auto simp: printint_text_def split: prod.split dest: set_takeWhileD)

lemma printlong_refines:
  assumes "console_wf c"
  shows "screen_abs (printlong n c) = fold term_put (map of_char ''0x'' @ hex_loop 16 n []) (screen_abs c)" "console_wf (printlong n c)"
    "printf_lock (printlong n c) = printf_lock c"
proof -
  have "takeWhile (\<lambda>b. b \<noteq> 0) (hex_loop 16 n []) = hex_loop 16 n []"
  proof (rule takeWhile_eq_all_conv [THEN iffD2])
    have "0 \<notin> set (hex_loop 16 n [])" by (rule hex_loop_nonzero) simp
    then show "\<forall>b \<in> set (hex_loop 16 n []). b \<noteq> 0" by blast
  qed
  moreover have "takeWhile (\<lambda>b. b \<noteq> 0) (map of_char ''0x'' :: u8 list) = map of_char ''0x''" by simp
  ultimately show "screen_abs (printlong n c) = fold term_put (map of_char ''0x'' @ hex_loop 16 n []) (screen_abs c)"
      "console_wf (printlong n c)" "printf_lock (printlong n c) = printf_lock c"
    using printstr_refines [OF assms, of "map of_char ''0x''"]
      printstr_refines [OF printstr_refines(2) [OF assms], of "hex_loop 16 n []" "map of_char ''0x''"]
    by (simp_all add: printlong_def del: hex_loop.simps takeWhile_eq_all_conv)
qed

lemma prints_step:
  assumes "prints (expand fmt args) c1 r" and "screen_abs c1 = fold term_put bs (screen_abs c)" and "printf_lock c1 = printf_lock c"
  shows "prints (bindE (expand fmt args) (\<lambda>t. Inr (bs @ t))) c r"
  by (rule prints_prefix [OF assms])

text \<open>A conversion, when the rest of the format is printed as it should.\<close>

lemma conversion_prints:
  assumes wf: "console_wf c" and lock: "locked (printf_lock c)"
    and ih: "\<And>r' as bs c1. length r' \<le> length r \<Longrightarrow> screen_abs c1 = fold term_put bs (screen_abs c) \<Longrightarrow> console_wf c1 \<Longrightarrow>
      printf_lock c1 = printf_lock c \<Longrightarrow> prints (bindE (expand r' as) (\<lambda>t. Inr (bs @ t))) c (format_loop r' as c1)"
  shows "prints (expand (37 # spec # r) args) c (format_loop (37 # spec # r) args c)"
proof -
  note pi = printstr_refines [OF wf] and pl = printlong_refines [OF wf]
  consider "spec = 100" | "spec = 115" | "spec = 108" | "spec \<noteq> 100" "spec \<noteq> 115" "spec \<noteq> 108" by blast
  then show ?thesis
  proof cases
    case 1
    have "prints (bindE (expand r as) (\<lambda>t. Inr (printint_text d @ t))) c (format_loop r as (printint d c))" for d as
      using ih [of r "printint d c" "printint_text d" as] pi [of "printint_text d"] by (simp add: printint_def printint_text_nonzero)
    then show ?thesis using 1 by (auto simp: prints_def split: list.split printf_arg.split)
  next
    case 2
    have "prints (bindE (expand r as) (\<lambda>t. Inr (takeWhile (\<lambda>b. b \<noteq> 0) s @ t))) c (format_loop r as (printstr s c))" for s as
      using ih [of r "printstr s c" "takeWhile (\<lambda>b. b \<noteq> 0) s" as] pi [of s] by simp
    then show ?thesis using 2 by (auto simp: prints_def split: list.split printf_arg.split)
  next
    case 3
    have "prints (bindE (expand r' as) (\<lambda>t. Inr ((map of_char ''0x'' @ hex_loop 16 n []) @ t))) c (format_loop r' as (printlong n c))"
      if "r = u # r'" for n as u r'
      using ih [of r' "printlong n c" "map of_char ''0x'' @ hex_loop 16 n []" as] pl [of n] that by simp
    then show ?thesis using 3 by (auto simp: prints_def simp del: hex_loop.simps split: list.split printf_arg.split)
  next
    case 4
    then show ?thesis using lock by (simp add: prints_def acquire_def test_and_set_def)
  qed
qed

lemma format_loop_prints:
  "console_wf c \<Longrightarrow> locked (printf_lock c) \<Longrightarrow> prints (expand fmt args) c (format_loop fmt args c)"
proof (induction "length fmt" arbitrary: fmt args c rule: less_induct)
  case less
  have ih: "prints (bindE (expand r as) (\<lambda>t. Inr (bs @ t))) c (format_loop r as c1)"
    if "length r < length fmt" "screen_abs c1 = fold term_put bs (screen_abs c)" "console_wf c1" "printf_lock c1 = printf_lock c"
    for r as bs c1
    by (rule prints_step [OF less.hyps [OF that(1,3)] that(2,4)]) (use that(4) less.prems(2) in simp)
  consider "fmt = []" | ch rest where "fmt = ch # rest" "ch \<noteq> 37" | "fmt = [37]" | spec r where "fmt = 37 # spec # r"
    by (cases fmt rule: list.exhaust [case_product list.exhaust]) (auto, metis list.exhaust)
  then show ?case
  proof cases
    case 1
    then show ?thesis using less.prems by (simp add: prints_def)
  next
    case 2
    then show ?thesis using ih [of rest "printc ch c" "[ch]" args] printc_refines [OF less.prems(1)] by simp
  next
    case 3
    then show ?thesis using less.prems(2) by (simp add: prints_def acquire_def test_and_set_def)
  next
    case 4
    then show ?thesis using conversion_prints [OF less.prems, of r spec args] ih by simp
  qed
qed


section \<open>Properties\<close>

text \<open>
  C21. \<open>printc\<close> implements the terminal: on a console whose cursor is on the screen, the byte-level operation (cell address arithmetic, line
  wrap, scrolling with \<open>memcpy\<close> and \<open>memset\<close>) does to the 25 lines of 80 cells and to the cursor what \<open>term_put\<close> says, and
  the cursor stays on the screen.\<close>

theorem printc_implements_terminal:
  assumes "console_wf c"
  shows "screen_abs (printc ch c) = term_put ch (screen_abs c) \<and> console_wf (printc ch c)"
  using printc_refines [OF assms] by blast

definition blank_console :: console where
  "blank_console = \<lparr>cmem = (\<lambda>_. 0), vga_out = VGA_TEXT_BUFFER_BASE, cur_x = 0, cur_y = 24, out_ports = [], printf_lock = \<lparr>locked = False\<rparr>\<rparr>"

lemma blank_console_wf: "console_wf blank_console"
  by (simp add: console_wf_def blank_console_def)

theorem printc_implements_terminal_witness:
  "screen_abs (printc 10 blank_console) = term_put 10 (screen_abs blank_console) \<and> console_wf (printc 10 blank_console)"
  by (rule printc_implements_terminal [OF blank_console_wf])

lemma printf_terminal:
  assumes "console_wf c" and "\<not> locked (printf_lock c)"
  shows "case expand (takeWhile (\<lambda>b. b \<noteq> 0) fmt) args of
      Inl e \<Rightarrow> printf fmt args c = Inl e
    | Inr bs \<Rightarrow> \<exists>c'. printf fmt args c = Inr c' \<and> screen_abs c' = fold term_put bs (screen_abs c) \<and>
        console_wf c' \<and> \<not> locked (printf_lock c')"
proof -
  let ?l = "(printf_lock c)\<lparr>locked := True\<rparr>"
  have acq: "acquire (printf_lock c) = Inr ?l" using assms(2) by (simp add: acquire_def test_and_set_def)
  have wf: "console_wf (c\<lparr>printf_lock := ?l\<rparr>)" and abs: "screen_abs (c\<lparr>printf_lock := ?l\<rparr>) = screen_abs c"
    using assms(1) by (simp_all add: console_wf_def screen_abs_def)
  from format_loop_prints [OF wf, of "takeWhile (\<lambda>b. b \<noteq> 0) fmt" args]
  have "prints (expand (takeWhile (\<lambda>b. b \<noteq> 0) fmt) args) (c\<lparr>printf_lock := ?l\<rparr>)
      (format_loop (takeWhile (\<lambda>b. b \<noteq> 0) fmt) args (c\<lparr>printf_lock := ?l\<rparr>))" by simp
  then show ?thesis
    unfolding prints_def abs
    by (auto simp: printf_def acq Let_def screen_abs_def console_wf_def release_def move_cursor_def outb_def split: sum.splits)
qed

lemma printf_returns:
  assumes "console_wf c" and "\<not> locked (printf_lock c)" and "\<exists>bs. expand (takeWhile (\<lambda>b. b \<noteq> 0) fmt) args = Inr bs"
  shows "\<exists>c'. printf fmt args c = Inr c' \<and> console_wf c' \<and> \<not> locked (printf_lock c')"
  using printf_terminal [OF assms(1,2), of fmt args] assms(3) by auto



text \<open>
  \<open>printlong\<close> is faithful: after \<open>0x\<close> it prints exactly 16 characters, and reading them as a hexadecimal number gives the argument back.\<close>

theorem printlong_roundtrip:
  assumes "console_wf c"
  shows "\<exists>digits. length digits = 16 \<and> hex_number digits = unat num \<and>
    screen_abs (printlong num c) = fold term_put (map of_char ''0x'' @ digits) (screen_abs c)"
proof -
  have "hex_number (hex_loop 16 num []) = unat num"
    using hex_loop_number [of 16 num] unsigned_less [of num, where 'a = nat] by simp
  then show ?thesis using printlong_refines(1) [OF assms] hex_loop_length [of 16 num "[]"] by auto
qed

theorem printlong_roundtrip_witness:
  "\<exists>digits. length digits = 16 \<and> hex_number digits = 0xbeef \<and>
     screen_abs (printlong 0xbeef blank_console) = fold term_put (map of_char ''0x'' @ digits) (screen_abs blank_console)"
  using printlong_roundtrip [OF blank_console_wf, of "0xbeef"] by simp

text \<open>
  \<open>printint\<close> loses the leading digit: for every non-negative \<open>int\<close> the text it prints is the decimal representation without its first
  digit, so numbers below ten print nothing and 128 prints as 28.\<close>

theorem printint_drops_leading_digit:
  assumes "d < 2 ^ 31"
  shows "printint_text (int d) = tl (dec_digits d)"
proof -
  have "case printint_loop (Suc 13) (int d) (replicate 15 0) of
      (start, s') \<Rightarrow> drop start s' = tl (dec_digits d) @ drop (Suc 13) (replicate 15 0)"
    by (rule printint_loop_digits) (use assms in simp_all)
  moreover have "drop (Suc 13) (replicate 15 (0 :: u8)) = [0]" by (simp add: drop_replicate)
  moreover have "0 \<notin> set (tl (dec_digits d))" using dec_digits_nonzero [of d] by (meson list.set_sel(2) dec_digits_nonempty)
  then have "takeWhile (\<lambda>b. b \<noteq> 0) (tl (dec_digits d) @ [0]) = tl (dec_digits d)"
    by (subst takeWhile_append2) auto
  ultimately show ?thesis by (auto simp: printint_text_def numeral_eq_Suc split: prod.splits)
qed

theorem printint_drops_leading_digit_witness: "printint_text (int 128) = map of_char ''28''"
  using printint_drops_leading_digit [of 128] by (simp add: dec_digits.simps)

end
