(* ===== verification/Keyboard.thy ===== *)
theory Keyboard
  imports Vga
begin

text \<open>
  The keyboard driver of kernel/drivers/keyboard.c: the layout table, the ring buffer of typed characters and the handler that the
  interrupt calls with the byte of the data port. The lemmas say which of a sequence of scan codes are typed and what the ring
  buffer holds.
\<close>

definition KEYBOARD_BUFFER_SIZE :: nat where
  "KEYBOARD_BUFFER_SIZE = 32"

record keyboard =
  keyboard_buffer :: "u8 list"
  keyboard_pos :: u8
  is_make :: bool

definition initial_keyboard :: keyboard where
  "initial_keyboard = \<lparr>keyboard_buffer = replicate KEYBOARD_BUFFER_SIZE 0, keyboard_pos = 0, is_make = True\<rparr>"

text \<open>The table of the source; C fills the rest of the 128 entries with zeros. 39 and 92 are the quote and the backslash.\<close>

definition keyboard_layout :: "u8 list" where
  "keyboard_layout =
     (let given = [0, 0] @ map of_char ''1234567890-='' @ [0, 0] @ map of_char ''qwertyuiop[]'' @ [0, 0] @
            map of_char ''asdfghjkl;'' @ [39] @ map of_char ''`'' @ [0, 92] @ map of_char ''zxcvbnm,./'' @ [0, 0, 0] @ map of_char '' '' @
            replicate 16 0 @ map of_char ''-'' @ [0, 0, 0] @ map of_char ''+''
      in given @ replicate (128 - length given) 0)"

definition keyboard_handler :: "u8 \<Rightarrow> keyboard \<times> console \<Rightarrow> (keyboard \<times> console) result" where
  "keyboard_handler data s =
     (let (k, c) = s; status = data AND 0x7f
      in if is_make k
         then let ch = keyboard_layout ! unat status
              in if ch \<noteq> 0
                 then if unat (keyboard_pos k) < length (keyboard_buffer k)
                      then Inr (k\<lparr>keyboard_buffer := (keyboard_buffer k)[unat (keyboard_pos k) := ch],
                                 keyboard_pos := (keyboard_pos k + 1) mod of_nat KEYBOARD_BUFFER_SIZE, is_make := False\<rparr>,
                                move_cursor (printc ch c))
                      else Inl Out_Of_Bounds
                 else Inr (k\<lparr>is_make := False\<rparr>, c)
         else Inr (k\<lparr>is_make := True\<rparr>, c))"

text \<open>
  \<open>check_scanset\<close> polls the controller: \<open>ins\<close> lists the bytes that the reads from its two ports give, in order. Reading on behind the list is an
  exhausted budget.
\<close>

definition DATA_PORT :: u16 where "DATA_PORT = 0x60"

definition inb :: "u8 list \<Rightarrow> (u8 \<times> u8 list) result" where
  "inb ins = (case ins of [] \<Rightarrow> Inl Out_Of_Fuel | b # bs \<Rightarrow> Inr (b, bs))"

definition is_full :: "u8 list \<Rightarrow> (bool \<times> u8 list) result" where
  "is_full ins = bindE (inb ins) (\<lambda>(b, bs). Inr (drop_bit 1 b AND 1 \<noteq> 0, bs))"

function send_zeros :: "u8 list \<Rightarrow> console \<Rightarrow> (u8 list \<times> console) result" where
  "send_zeros ins c =
     bindE (is_full ins) (\<lambda>(full, ins1). if full then send_zeros ins1 (outb DATA_PORT 0x00 c) else Inr (ins1, c))"
  by pat_completeness auto
termination
  by (relation "measure (\<lambda>(ins, c). length ins)") (auto simp: is_full_def inb_def split: list.splits)

declare send_zeros.simps [simp del]

function scanset_loop :: "u8 list \<Rightarrow> console \<Rightarrow> (u8 list \<times> console) result" where
  "scanset_loop ins c =
     bindE (is_full ins) (\<lambda>(full, ins1).
       if full then send_zeros ins1 (outb DATA_PORT 0xf0 c)
       else bindE (inb ins1) (\<lambda>(b, ins2). if b = 0xfe then scanset_loop ins2 c else Inr (ins2, c)))"
  by pat_completeness auto
termination
  by (relation "measure (\<lambda>(ins, c). length ins)") (auto simp: is_full_def inb_def split: list.splits)

declare scanset_loop.simps [simp del]

definition check_scanset :: "u8 list \<Rightarrow> console \<Rightarrow> (u8 list \<times> console) result" where
  "check_scanset ins c =
     bindE (scanset_loop ins c) (\<lambda>(ins1, c1).
     bindE (inb ins1) (\<lambda>(b1, ins2).
     bindE (inb ins2) (\<lambda>(b2, ins3).
       Inr (ins3, printc 10 (printlong (ucast b2) (printc 10 (printlong (ucast b1)
         (printstr (map of_char ''Response from keyboard: '') c1))))))))"

section \<open>Lemmas\<close>

definition keyboard_wf :: "keyboard \<Rightarrow> bool" where
  "keyboard_wf k \<longleftrightarrow> length (keyboard_buffer k) = KEYBOARD_BUFFER_SIZE \<and> unat (keyboard_pos k) < KEYBOARD_BUFFER_SIZE"

lemma keyboard_layout_length: "length keyboard_layout = 128"
  by (simp add: keyboard_layout_def Let_def)

text \<open>The characters that a sequence of scan codes types, when the driver starts by expecting a key press or not.\<close>

fun typed :: "bool \<Rightarrow> u8 list \<Rightarrow> u8 list" where
  "typed press [] = []"
| "typed press (code # codes) =
     (if press \<and> keyboard_layout ! unat (code AND 0x7f) \<noteq> 0
      then keyboard_layout ! unat (code AND 0x7f) # typed (\<not> press) codes else typed (\<not> press) codes)"

text \<open>Writing characters into the ring from position \<open>p\<close> on.\<close>

fun ring_write :: "nat \<Rightarrow> u8 list \<Rightarrow> u8 list \<Rightarrow> u8 list" where
  "ring_write p [] buf = buf"
| "ring_write p (ch # chs) buf = ring_write ((p + 1) mod KEYBOARD_BUFFER_SIZE) chs (buf[p := ch])"

lemma ring_pos: "unat p < 32 \<Longrightarrow> unat ((p + 1) mod 32 :: u8) = (unat p + 1) mod 32"
  by (simp add: unat_mod_distrib unat_word_ariths)

lemma handler_run:
  assumes "keyboard_wf k" and "console_wf c"
  shows "\<exists>k' c'. for_each keyboard_handler codes (k, c) = Inr (k', c') \<and> keyboard_wf k' \<and> console_wf c' \<and>
    (is_make k' \<longleftrightarrow> is_make k = even (length codes)) \<and>
    keyboard_buffer k' = ring_write (unat (keyboard_pos k)) (typed (is_make k) codes) (keyboard_buffer k) \<and>
    screen_abs c' = fold term_put (typed (is_make k) codes) (screen_abs c)"
  using assms
proof (induction codes arbitrary: k c)
  case Nil
  then show ?case by simp
next
  case (Cons code codes)
  let ?ch = "keyboard_layout ! unat (code AND 0x7f)"
  show ?case
  proof (cases "is_make k \<and> ?ch \<noteq> 0")
    case True
    let ?k = "k\<lparr>keyboard_buffer := (keyboard_buffer k)[unat (keyboard_pos k) := ?ch],
      keyboard_pos := (keyboard_pos k + 1) mod 32, is_make := False\<rparr>"
    let ?c = "move_cursor (printc ?ch c)"
    have pos: "unat ((keyboard_pos k + 1) mod 32) = (unat (keyboard_pos k) + 1) mod 32"
      using Cons.prems(1) by (intro ring_pos) (simp add: keyboard_wf_def KEYBOARD_BUFFER_SIZE_def)
    have step: "keyboard_handler code (k, c) = Inr (?k, ?c)"
      using True Cons.prems(1) by (simp add: keyboard_handler_def Let_def keyboard_wf_def KEYBOARD_BUFFER_SIZE_def)
    have "keyboard_wf ?k" using Cons.prems(1) pos by (simp add: keyboard_wf_def KEYBOARD_BUFFER_SIZE_def)
    moreover have "console_wf ?c" using printc_refines(2) [OF Cons.prems(2)] by simp
    ultimately obtain k' c' where "for_each keyboard_handler codes (?k, ?c) = Inr (k', c')" "keyboard_wf k'" "console_wf c'"
        "is_make k' \<longleftrightarrow> is_make ?k = even (length codes)"
        "keyboard_buffer k' = ring_write (unat (keyboard_pos ?k)) (typed (is_make ?k) codes) (keyboard_buffer ?k)"
        "screen_abs c' = fold term_put (typed (is_make ?k) codes) (screen_abs ?c)"
      using Cons.IH by blast
    then show ?thesis
      using True step pos printc_refines(1) [OF Cons.prems(2)] by (simp add: KEYBOARD_BUFFER_SIZE_def)
  next
    case False
    let ?k = "k\<lparr>is_make := \<not> is_make k\<rparr>"
    have step: "keyboard_handler code (k, c) = Inr (?k, c)" using False by (auto simp: keyboard_handler_def Let_def)
    have "keyboard_wf ?k" using Cons.prems(1) by (simp add: keyboard_wf_def)
    from Cons.IH [OF this Cons.prems(2)] False step show ?thesis by auto
  qed
qed

section \<open>Properties\<close>

text \<open>
  C31. The keyboard driver on any sequence of scan codes: it never leaves its buffer, it types the characters of every second code whose layout entry
  is not zero (the break bit is masked off and ignored, so two keys held down together are misread), puts them on the
  terminal and writes them in order into the ring of 32 characters.\<close>

theorem keyboard_types_every_second_code:
  assumes "console_wf c"
  shows "\<exists>k' c'. for_each keyboard_handler codes (initial_keyboard, c) = Inr (k', c') \<and> keyboard_wf k' \<and>
    (is_make k' \<longleftrightarrow> even (length codes)) \<and>
    keyboard_buffer k' = ring_write 0 (typed True codes) (replicate KEYBOARD_BUFFER_SIZE 0) \<and>
    screen_abs c' = fold term_put (typed True codes) (screen_abs c)"
proof -
  have "keyboard_wf initial_keyboard" by (simp add: keyboard_wf_def initial_keyboard_def KEYBOARD_BUFFER_SIZE_def)
  from handler_run [OF this assms, of codes] show ?thesis by (auto simp: initial_keyboard_def)
qed

theorem keyboard_types_every_second_code_witness:
  "\<exists>k' c'. for_each keyboard_handler [0x1e, 0x30, 0x9e, 0xb0] (initial_keyboard, blank_console) = Inr (k', c') \<and>
     screen_abs c' = fold term_put (typed True [0x1e, 0x30, 0x9e, 0xb0]) (screen_abs blank_console) \<and>
     typed True [0x1e, 0x30, 0x9e, 0xb0] = map of_char ''aa''"
proof -
  have "typed True [0x1e, 0x30, 0x9e, 0xb0] = map of_char ''aa''"
    by (simp add: keyboard_layout_def Let_def nth_append)
  with keyboard_types_every_second_code [OF blank_console_wf, of "[0x1e, 0x30, 0x9e, 0xb0]"] show ?thesis by blast
qed

end
