(* ===== verification/Tar.thy ===== *)
theory Tar
  imports Vmm Mb2_mmap
begin

text \<open>
  The initial ram disk, kernel/fs/tar.c: octal sizes, the scan of the archive into the table of file
  headers, the lookup of a name and \<open>ustar_open\<close>/\<open>ustar_read\<close>. The archive and the strings are bytes of the mapped
  memory. The lemmas relate the table to an archive given as a list of files with names and contents.
\<close>

section \<open>Headers\<close>

text \<open>A \<open>tar_header_t\<close> is the address of a header block; the loops read two of its fields.\<close>

definition tar_filename :: "u64 \<Rightarrow> u64" where
  "tar_filename header = header"

definition tar_size :: "u64 \<Rightarrow> u64" where
  "tar_size header = header + 124"

definition HEADER_LIST_SIZE :: nat where
  "HEADER_LIST_SIZE = 5"

text \<open>\<open>in[j - 1] - '0'\<close> is an \<open>int\<close>, converted to \<open>size_t\<close> by the multiplication.\<close>

fun file_size_loop :: "mem \<Rightarrow> u64 \<Rightarrow> nat \<Rightarrow> u64 \<Rightarrow> u64 \<Rightarrow> u64" where
  "file_size_loop m in_ptr 0 sz count = sz"
| "file_size_loop m in_ptr (Suc j) sz count =
     file_size_loop m in_ptr j (sz + of_int (sint (m (in_ptr + of_nat j)) - 48) * count) (count * 8)"

definition get_file_size :: "mem \<Rightarrow> u64 \<Rightarrow> u64" where
  "get_file_size m in_ptr = file_size_loop m in_ptr 11 0 1"

definition next_header :: "mem \<Rightarrow> u64 \<Rightarrow> u64" where
  "next_header m header_addr =
     (let file_size = get_file_size m (tar_size header_addr);
          a = header_addr + (file_size div 512 + 1) * 512
      in if file_size mod 512 \<noteq> 0 then a + 512 else a)"

text \<open>
  The scan has no check of \<open>i\<close>: a sixth file is stored outside the table.
\<close>

function parse_from :: "mem \<Rightarrow> u64 \<Rightarrow> nat \<Rightarrow> u64 list \<Rightarrow> u64 list result" where
  "parse_from m header i file_headers =
     (if m (tar_filename header) \<noteq> 0
      then if i < HEADER_LIST_SIZE
           then parse_from m (next_header m header) (Suc i) (file_headers[i := header])
           else Inl Out_Of_Bounds
      else Inr file_headers)"
  by pat_completeness auto
termination
  by (relation "measure (\<lambda>(m, h, i, hs). HEADER_LIST_SIZE - i)") auto

declare parse_from.simps [simp del]

definition parse_tar_file :: "mem \<Rightarrow> u64 \<Rightarrow> u64 list \<Rightarrow> u64 list result" where
  "parse_tar_file m header file_headers = parse_from m header 0 file_headers"

fun find_header :: "mem \<Rightarrow> u64 \<Rightarrow> int \<Rightarrow> u64 list \<Rightarrow> int result" where
  "find_header m file_name i [] = Inr (- 1)"
| "find_header m file_name i (h # hs) =
     (if h = 0 then Inl Null_Deref
      else if strncmp m (tar_filename h) file_name 100 = 0 then Inr i
      else find_header m file_name (i + 1) hs)"

definition get_file_header :: "mem \<Rightarrow> u64 list \<Rightarrow> u64 \<Rightarrow> int result" where
  "get_file_header m file_headers file_name = find_header m file_name 0 file_headers"

section \<open>Opening and reading\<close>

text \<open>
  \<open>file_descriptor_t\<close>; the positions and the size are \<open>int\<close>s.
\<close>

record file_descriptor_t =
  fs_file_id :: u64
  mountpoint_id :: nat
  fd_filename :: "u8 list"
  buf_read_pos :: u32
  buf_write_pos :: u32
  fd_file_size :: u32
  file_buffer :: u64

definition VFS_PATH_LENGTH :: nat where
  "VFS_PATH_LENGTH = 64"

text \<open>The buffer that \<open>strncpy\<close> into a local array of \<open>dsize\<close> characters leaves there.\<close>

definition copied_string :: "mem \<Rightarrow> u64 \<Rightarrow> nat \<Rightarrow> u8 list" where
  "copied_string m src dsize =
     map (\<lambda>i. if i < strnlen m src dsize then m (src + of_nat i) else 0) [0 ..< dsize]"

text \<open>After the error message for a missing file the lookup result \<open>-1\<close> is used as an index.\<close>

definition ustar_open :: "mem \<Rightarrow> u64 list \<Rightarrow> u64 \<Rightarrow> file_descriptor_t result" where
  "ustar_open m file_headers file_name =
     bindE (get_file_header m file_headers file_name) (\<lambda>file_handle.
       if file_handle < 0 then Inl Out_Of_Bounds
       else let file_header = file_headers ! nat file_handle
            in Inr \<lparr>fs_file_id = 0, mountpoint_id = 0, fd_filename = copied_string m file_name VFS_PATH_LENGTH,
                    buf_read_pos = 0, buf_write_pos = 0, fd_file_size = ucast (get_file_size m (tar_size file_header)),
                    file_buffer = file_header + 512\<rparr>)"

text \<open>The page at address 0 is not mapped, so a copy from or to a \<open>NULL\<close> based address faults.\<close>

definition ustar_read :: "mem \<Rightarrow> u64 \<Rightarrow> u64 \<Rightarrow> u64 \<Rightarrow> (u64 \<times> mem) result" where
  "ustar_read m file_handle buffer nbytes =
     (if nbytes \<noteq> 0 \<and> (file_handle < PAGE_SIZE \<or> buffer < PAGE_SIZE) then Inl Null_Deref
      else Inr (nbytes, memcpy m buffer file_handle (unat nbytes)))"

text \<open>
  \<open>mb\<close> is the boot information; \<open>ram\<close> the physical memory in which the boot loader left the module. Mapping the module makes its
  bytes visible at the address \<open>vmm_alloc\<close> returns.
\<close>

definition show_module :: "mem \<Rightarrow> u64 \<Rightarrow> u64 \<Rightarrow> u64 \<Rightarrow> mm \<Rightarrow> mm" where
  "show_module ram mod_start file_size p s =
     set_bytes (\<lambda>a. if a - p < file_size then ram (PAGE_ALIGN_DOWN mod_start + (a - p)) else vm_bytes s a) s"

definition tar_init :: "nat \<Rightarrow> nat \<Rightarrow> mem \<Rightarrow> mem \<Rightarrow> u64 \<Rightarrow> mm \<Rightarrow> (u64 list \<times> mm) result" where
  "tar_init d n ram mb mb_info s =
     bindE (walk_tags n mb (mb_info + 8) 3) (\<lambda>tag.
       if tag_type mb tag \<noteq> 3 then Inl Panic
       else let mod_start = load32 mb (tag + 8); mod_end = load32 mb (tag + 12);
                file_size = ucast ((mod_end - mod_start + 0xfff) div 0x1000 * 0x1000);
                (region, s1) = get_mmio_ptr file_size s
            in bindE (vmm_alloc d n region file_size (VM_FLAG_READ_WRITE OR VM_FLAG_USER) (ucast mod_start) s1) (\<lambda>(tar_file, s2).
               if tar_file = 0 then Inl Null_Deref
               else let s3 = show_module ram (ucast mod_start) file_size tar_file s2
                    in bindE (parse_tar_file (vm_bytes s3) tar_file (replicate HEADER_LIST_SIZE 0)) (\<lambda>hs.
                         Inr (hs, s3))))"

section \<open>Octal sizes\<close>

definition octal_digit :: "nat \<Rightarrow> nat \<Rightarrow> u8" where
  "octal_digit n k = 48 + of_nat (n div 8 ^ (10 - k) mod 8)"

fun holds_bytes :: "mem \<Rightarrow> u64 \<Rightarrow> u8 list \<Rightarrow> bool" where
  "holds_bytes m a [] \<longleftrightarrow> True"
| "holds_bytes m a (x # xs) \<longleftrightarrow> m a = x \<and> holds_bytes m (a + 1) xs"

lemma holds_bytes_iff: "holds_bytes m a xs \<longleftrightarrow> (\<forall>k < length xs. m (a + of_nat k) = xs ! k)"
proof (induction m a xs rule: holds_bytes.induct)
  case (2 m a x xs)
  then show ?case by (simp add: All_less_Suc2 algebra_simps)
qed simp

text \<open>The eleven digits of a size field.\<close>

definition holds_octal :: "mem \<Rightarrow> u64 \<Rightarrow> nat \<Rightarrow> bool" where
  "holds_octal m a n \<longleftrightarrow> n < 8 ^ 11 \<and> holds_bytes m a (map (octal_digit n) [0 ..< 11])"

lemma holds_octal_iff: "holds_octal m a n \<longleftrightarrow> n < 8 ^ 11 \<and> (\<forall>k < 11. m (a + of_nat k) = octal_digit n k)"
  by (simp add: holds_octal_def holds_bytes_iff del: upt_Suc)

lemma sint_octal_digit: "sint (octal_digit n k) - 48 = int (n div 8 ^ (10 - k) mod 8)"
proof -
  have "d < 8 \<Longrightarrow> sint (48 + of_nat d :: u8) - 48 = int d" for d :: nat
  proof -
    assume "d < 8"
    then have "d = 0 \<or> d = 1 \<or> d = 2 \<or> d = 3 \<or> d = 4 \<or> d = 5 \<or> d = 6 \<or> d = 7" by linarith
    then show ?thesis by auto
  qed
  from this [of "n div 8 ^ (10 - k) mod 8"] show ?thesis by (simp add: octal_digit_def)
qed

lemma file_size_loop_eq:
  assumes "\<forall>k < 11. m (a + of_nat k) = octal_digit n k" and "j \<le> 11"
  shows "file_size_loop m a j sz (8 ^ (11 - j)) = sz + of_nat (n div 8 ^ (11 - j) mod 8 ^ j * 8 ^ (11 - j))"
  using assms(2)
proof (induction j arbitrary: sz)
  case (Suc j)
  let ?d = "n div 8 ^ (10 - j) mod 8"
  have e: "11 - j = Suc (10 - j)" "11 - Suc j = 10 - j" using Suc.prems by auto
  have m: "m (a + of_nat j) = octal_digit n j" using assms(1) Suc.prems by simp
  have c: "(8 :: u64) ^ (10 - j) * 8 = 8 ^ (11 - j)" using e by simp
  have "file_size_loop m a (Suc j) sz (8 ^ (10 - j)) = file_size_loop m a j (sz + of_nat ?d * 8 ^ (10 - j)) (8 ^ (11 - j))"
    by (simp only: file_size_loop.simps m sint_octal_digit c of_int_of_nat_eq)
  also have "\<dots> = sz + of_nat (?d * 8 ^ (10 - j)) + of_nat (n div 8 ^ (11 - j) mod 8 ^ j * 8 ^ (11 - j))"
    using Suc.IH Suc.prems by simp
  also have "\<dots> = sz + of_nat ((?d + n div 8 ^ (10 - j) div 8 mod 8 ^ j * 8) * 8 ^ (10 - j))"
    unfolding e by (simp add: div_mult2_eq [symmetric] algebra_simps)
  also have "?d + n div 8 ^ (10 - j) div 8 mod 8 ^ j * 8 = n div 8 ^ (10 - j) mod 8 ^ Suc j"
    by (simp only: power_Suc mod_mult2_eq)
  finally show ?case unfolding e .
qed simp

lemma get_file_size_octal: "holds_octal m a n \<Longrightarrow> get_file_size m a = of_nat n"
  using file_size_loop_eq [of m a n 11 0] by (simp add: holds_octal_iff get_file_size_def)


section \<open>Archives\<close>

text \<open>
  An archive in memory, as a list of files with their names and contents: a header block with the name and the
  octal size, the contents padded to blocks of 512 bytes, and an empty name behind the last file.
\<close>

definition holds_string :: "mem \<Rightarrow> u64 \<Rightarrow> u8 list \<Rightarrow> bool" where
  "holds_string m a cs \<longleftrightarrow> holds_bytes m a (cs @ [0]) \<and> 0 \<notin> set cs"

lemma holds_string_iff:
  "holds_string m a cs \<longleftrightarrow>
     (\<forall>k < length cs. m (a + of_nat k) = cs ! k \<and> cs ! k \<noteq> 0) \<and> m (a + of_nat (length cs)) = 0"
  by (auto simp: holds_string_def holds_bytes_iff nth_append less_Suc_eq in_set_conv_nth)

definition padded :: "nat \<Rightarrow> nat" where
  "padded n = (n + 511) div 512 * 512"

definition file_span :: "u8 list \<Rightarrow> nat" where
  "file_span content = 512 + padded (length content)"

type_synonym tar_file = "u8 list \<times> u8 list"

fun holds_archive :: "mem \<Rightarrow> u64 \<Rightarrow> tar_file list \<Rightarrow> bool" where
  "holds_archive m a [] \<longleftrightarrow> m a = 0"
| "holds_archive m a ((name, content) # fs) \<longleftrightarrow>
     holds_string m a name \<and> name \<noteq> [] \<and> length name < 100 \<and> holds_octal m (a + 124) (length content) \<and>
     holds_bytes m (a + 512) content \<and> holds_archive m (a + of_nat (file_span content)) fs"

fun header_addrs :: "u64 \<Rightarrow> tar_file list \<Rightarrow> u64 list" where
  "header_addrs a [] = []"
| "header_addrs a (f # fs) = a # header_addrs (a + of_nat (file_span (snd f))) fs"

lemma length_header_addrs [simp]: "length (header_addrs a fs) = length fs"
  by (induction a fs rule: header_addrs.induct) simp_all

definition header_table :: "u64 \<Rightarrow> tar_file list \<Rightarrow> u64 list" where
  "header_table a fs = header_addrs a fs @ replicate (HEADER_LIST_SIZE - length fs) 0"

lemma padded_eq: "padded n = n div 512 * 512 + (if n mod 512 = 0 then 0 else 512)"
proof -
  have "(n + 511) div 512 = (n mod 512 + 511 + n div 512 * 512) div 512" by simp
  also have "\<dots> = n div 512 + (n mod 512 + 511) div 512" by (simp only: div_mult_self1)
  also have "(n mod 512 + 511) div 512 = (if n mod 512 = 0 then 0 else 1)"
    by (rule div_nat_eqI) (auto simp: less_Suc_eq_le)
  finally show ?thesis by (simp add: padded_def)
qed

lemma next_header_octal:
  assumes "holds_octal m (a + 124) n"
  shows "next_header m a = a + of_nat (512 + padded n)"
proof -
  have sz: "get_file_size m (tar_size a) = of_nat n"
    using get_file_size_octal [OF assms] by (simp add: tar_size_def)
  have u: "unat (of_nat n :: u64) = n"
    using assms by (intro unat_of_nat_small) (simp add: holds_octal_def)
  have div: "of_nat n div (512 :: u64) = of_nat (n div 512)" and mod: "of_nat n mod (512 :: u64) = of_nat (n mod 512)"
    by (simp_all add: word_arith_nat_div word_arith_nat_mod u)
  have "unat (of_nat (n mod 512) :: u64) = n mod 512"
    by (rule unat_of_nat_small) (simp add: less_trans [OF mod_less_divisor])
  then have "(of_nat (n mod 512) :: u64) = 0 \<longleftrightarrow> n mod 512 = 0"
    using unsigned_eq_0_iff [of "of_nat (n mod 512) :: u64", where 'a = nat] by simp
  moreover have "padded n = n div 512 * 512 + (if n mod 512 = 0 then 0 else 512)"
    by (rule padded_eq)
  ultimately show ?thesis
    by (simp add: next_header_def sz div mod Let_def algebra_simps)
qed

lemma parse_from_archive:
  assumes "holds_archive m a fs" and "length hs = HEADER_LIST_SIZE" and "i \<le> HEADER_LIST_SIZE"
  shows "parse_from m a i hs =
    (if i + length fs \<le> HEADER_LIST_SIZE then Inr (take i hs @ header_addrs a fs @ drop (i + length fs) hs)
     else Inl Out_Of_Bounds)"
  using assms
proof (induction m a fs arbitrary: i hs rule: holds_archive.induct)
  case (1 m a)
  then show ?case by (subst parse_from.simps) (simp add: tar_filename_def)
next
  case (2 m a name content fs)
  have nz: "m (tar_filename a) \<noteq> 0"
    using 2(2) by (auto simp: holds_string_iff tar_filename_def dest!: spec [of _ 0])
  have nxt: "next_header m a = a + of_nat (file_span content)"
    unfolding file_span_def using 2(2) by (intro next_header_octal) simp
  show ?case
  proof (cases "i < HEADER_LIST_SIZE")
    case True
    have "parse_from m (next_header m a) (Suc i) (hs[i := a]) =
      (if Suc i + length fs \<le> HEADER_LIST_SIZE
       then Inr (take (Suc i) (hs[i := a]) @ header_addrs (next_header m a) fs @ drop (Suc i + length fs) (hs[i := a]))
       else Inl Out_Of_Bounds)"
      unfolding nxt using 2 True by (intro "2.IH") auto
    moreover have "take (Suc i) (hs[i := a]) = take i hs @ [a]"
      using True 2(3) by (simp add: take_Suc_conv_app_nth)
    ultimately show ?thesis
      using True nz nxt by (subst parse_from.simps) simp
  next
    case False
    then show ?thesis using nz 2(4) by (subst parse_from.simps) simp
  qed
qed


text \<open>The comparison the lookup makes on two names: all characters but the first, up to the shorter name.\<close>

definition loose_match :: "u8 list \<Rightarrow> u8 list \<Rightarrow> bool" where
  "loose_match xs ys \<longleftrightarrow> (\<forall>i \<in> {1 ..< min (length xs) (length ys)}. xs ! i = ys ! i)"

lemma strncmp_strings:
  assumes "holds_string m s1 xs" and "holds_string m s2 ys" and "xs \<noteq> []" and "ys \<noteq> []" and "length xs < n"
  shows "strncmp m s1 s2 n = 0 \<longleftrightarrow> loose_match xs ys"
proof -
  let ?k = "min (length xs) (length ys)"
  have c1: "m (s1 + of_nat i) = xs ! i" "xs ! i \<noteq> 0" if "i < length xs" for i
    using assms(1) that by (auto simp: holds_string_iff)
  have c2: "m (s2 + of_nat i) = ys ! i" "ys ! i \<noteq> 0" if "i < length ys" for i
    using assms(2) that by (auto simp: holds_string_iff)
  have e: "m (s1 + of_nat (length xs)) = 0" "m (s2 + of_nat (length ys)) = 0"
    using assms(1,2) by (auto simp: holds_string_iff)
  have k: "1 \<le> ?k" "?k < n" using assms(3-5) by (auto simp: Suc_le_eq)
  have agree: "agree_from_1 m s1 s2 ?k \<longleftrightarrow> loose_match xs ys"
    using c1 c2 by (auto simp: agree_from_1_def loose_match_def)
  have stop: "m (s1 + of_nat ?k) = 0 \<or> m (s2 + of_nat ?k) = 0" using e by (auto simp: min_def)
  have before: "\<not> (m (s1 + of_nat i) = 0 \<or> m (s2 + of_nat i) = 0)" if "i < ?k" for i
    using c1 c2 that by auto
  show ?thesis
  proof
    assume "strncmp m s1 s2 n = 0"
    then obtain k where k': "1 \<le> k" "k \<le> max 1 n" "agree_from_1 m s1 s2 k"
        "if k < n then m (s1 + of_nat k) = 0 \<or> m (s2 + of_nat k) = 0 else m (s1 + of_nat k) = m (s2 + of_nat k)"
      by (auto simp: strncmp_zero_iff)
    have "?k \<le> k" using before [of k] k k' by (metis linorder_not_less order.strict_trans)
    then have "agree_from_1 m s1 s2 ?k" using k'(3) by (rule agree_from_1_mono)
    then show "loose_match xs ys" by (simp only: agree)
  next
    assume "loose_match xs ys"
    then have "agree_from_1 m s1 s2 ?k" by (simp only: agree)
    with k stop show "strncmp m s1 s2 n = 0"
      unfolding strncmp_zero_iff by (intro exI [of _ ?k]) auto
  qed
qed

text \<open>The first file whose name matches.\<close>

fun first_match :: "u8 list \<Rightarrow> tar_file list \<Rightarrow> nat option" where
  "first_match ys [] = None"
| "first_match ys (f # fs) = (if loose_match (fst f) ys then Some 0 else map_option Suc (first_match ys fs))"

lemma find_header_archive:
  assumes "holds_archive m a fs" and "holds_string m p ys" and "ys \<noteq> []" and "0 \<notin> set (header_addrs a fs)"
  shows "find_header m p i (header_addrs a fs @ replicate r 0) =
    (case first_match ys fs of
       Some j \<Rightarrow> Inr (i + int j)
     | None \<Rightarrow> if r = 0 then Inr (- 1) else Inl Null_Deref)"
  using assms
proof (induction m a fs arbitrary: i rule: holds_archive.induct)
  case (1 m a)
  then show ?case by (cases r) auto
next
  case (2 m a name content fs)
  have "strncmp m (tar_filename a) p 100 = 0 \<longleftrightarrow> loose_match name ys"
    using 2(2-4) by (intro strncmp_strings) (auto simp: tar_filename_def)
  moreover have "find_header m p (i + 1) (header_addrs (a + of_nat (file_span content)) fs @ replicate r 0) =
    (case first_match ys fs of Some j \<Rightarrow> Inr (i + 1 + int j) | None \<Rightarrow> if r = 0 then Inr (- 1) else Inl Null_Deref)"
    using 2(2-5) by (intro "2.IH") auto
  ultimately show ?case using 2(5) by (auto split: option.split)
qed

definition archive_len :: "tar_file list \<Rightarrow> nat" where
  "archive_len fs = (\<Sum>f \<leftarrow> fs. file_span (snd f))"

lemma header_addrs_nonzero:
  "0 < unat a \<Longrightarrow> unat a + archive_len fs < 2 ^ 64 \<Longrightarrow> h \<in> set (header_addrs a fs) \<Longrightarrow> a \<le> h \<and> unat h + 512 < 2 ^ 64"
proof (induction a fs rule: header_addrs.induct)
  case (2 a f fs)
  let ?k = "file_span (snd f)"
  have "unat a + ?k < 2 ^ 64" using 2(3) by (simp add: archive_len_def)
  then have u: "unat (a + of_nat ?k) = unat a + ?k" by (intro unat_plus_of_nat) simp
  show ?case
  proof (cases "h = a")
    case True
    then show ?thesis using 2(3) by (simp add: archive_len_def file_span_def)
  next
    case False
    have "a + of_nat ?k \<le> h \<and> unat h + 512 < 2 ^ 64"
      using False 2(2-4) by (intro "2.IH") (auto simp: u archive_len_def)
    then show ?thesis by (simp add: word_le_nat_alt u)
  qed
qed simp


section \<open>Properties\<close>

text \<open>The file table that \<open>tar_init\<close> leaves, and the file a header of the table stands for.\<close>

lemma header_addrs_nth:
  "holds_archive m a fs \<Longrightarrow> j < length fs \<Longrightarrow>
     holds_octal m (tar_size (header_addrs a fs ! j)) (length (snd (fs ! j))) \<and>
     (\<forall>k < length (snd (fs ! j)). m (header_addrs a fs ! j + 512 + of_nat k) = snd (fs ! j) ! k)"
proof (induction m a fs arbitrary: j rule: holds_archive.induct)
  case (2 m a name content fs)
  then show ?case by (cases j) (auto simp: tar_size_def holds_bytes_iff)
qed simp

lemma first_match_bound: "first_match ys fs = Some j \<Longrightarrow> j < length fs"
  by (induction fs arbitrary: j) (auto split: if_splits)

text \<open>An archive that does not reach the end of the address space.\<close>

definition archive_at :: "mem \<Rightarrow> u64 \<Rightarrow> tar_file list \<Rightarrow> bool" where
  "archive_at m a fs \<longleftrightarrow>
     holds_archive m a fs \<and> PAGE_SIZE \<le> a \<and> unat a + archive_len fs < 2 ^ 64 \<and> length fs \<le> HEADER_LIST_SIZE"

lemma archive_headers_nonzero: "archive_at m a fs \<Longrightarrow> 0 \<notin> set (header_addrs a fs)"
  using header_addrs_nonzero [of a fs 0]
  by (auto simp: archive_at_def PAGE_SIZE_def word_le_nat_alt)

lemma get_file_header_archive:
  assumes "archive_at m a fs" and "holds_string m p ys" and "ys \<noteq> []"
  shows "get_file_header m (header_table a fs) p =
    (case first_match ys fs of
       Some j \<Rightarrow> Inr (int j)
     | None \<Rightarrow> if length fs = HEADER_LIST_SIZE then Inr (- 1) else Inl Null_Deref)"
  using find_header_archive [OF _ assms(2,3) archive_headers_nonzero [OF assms(1)]] assms(1)
  by (simp add: get_file_header_def header_table_def archive_at_def le_antisym split: option.split)

text \<open>The descriptor of an opened file.\<close>

definition opened_as :: "mem \<Rightarrow> file_descriptor_t \<Rightarrow> u8 list \<Rightarrow> bool" where
  "opened_as m fd content \<longleftrightarrow>
     mountpoint_id fd = 0 \<and> buf_read_pos fd = 0 \<and> fd_file_size fd = of_nat (length content) \<and> PAGE_SIZE \<le> file_buffer fd \<and>
     (\<forall>k < length content. m (file_buffer fd + of_nat k) = content ! k)"

lemma ustar_open_match:
  assumes "archive_at m a fs" and "holds_string m p ys" and "ys \<noteq> []" and "first_match ys fs = Some j"
  shows "\<exists>fd. ustar_open m (header_table a fs) p = Inr fd \<and> opened_as m fd (snd (fs ! j)) \<and>
    file_buffer fd = header_addrs a fs ! j + 512"
proof -
  have j: "j < length fs" by (rule first_match_bound [OF assms(4)])
  have t: "header_table a fs ! j = header_addrs a fs ! j" using j by (simp add: header_table_def nth_append)
  have h: "holds_octal m (tar_size (header_addrs a fs ! j)) (length (snd (fs ! j)))"
      "\<forall>k < length (snd (fs ! j)). m (header_addrs a fs ! j + 512 + of_nat k) = snd (fs ! j) ! k"
    using header_addrs_nth [of m a fs j] assms(1) j by (auto simp: archive_at_def)
  have "header_addrs a fs ! j \<in> set (header_addrs a fs)" using j by simp
  then have "a \<le> header_addrs a fs ! j" "unat (header_addrs a fs ! j) + 512 < 2 ^ 64"
    using header_addrs_nonzero [of a fs "header_addrs a fs ! j"] assms(1)
    by (auto simp: archive_at_def PAGE_SIZE_def word_le_nat_alt)
  then have "PAGE_SIZE \<le> header_addrs a fs ! j + 512"
    using assms(1) unat_plus_of_nat [of "header_addrs a fs ! j" 512]
    by (simp add: archive_at_def PAGE_SIZE_def word_le_nat_alt)
  with h t get_file_header_archive [OF assms(1-3)] assms(4) get_file_size_octal [OF h(1)] show ?thesis
    by (simp add: ustar_open_def opened_as_def ucast_of_nat_down)
qed

text \<open>
  C32. The scan of the ram disk. If memory holds an archive of files, each a header with a name and an octal size in front of its
  padded contents, the scan fills the table with the headers of the files in order and leaves the rest of the
  table empty, for up to five files. A sixth file is written outside the table.\<close>

theorem parse_tar_file_archive:
  assumes "holds_archive m a fs"
  shows "parse_tar_file m a (replicate HEADER_LIST_SIZE 0) =
    (if length fs \<le> HEADER_LIST_SIZE then Inr (header_table a fs) else Inl Out_Of_Bounds)"
  using parse_from_archive [OF assms, of "replicate HEADER_LIST_SIZE 0" 0]
  by (simp add: parse_tar_file_def header_table_def)

text \<open>
  The size field of a header is eleven octal digits; reading the digits of any number below \<open>8 ^ 11\<close> gives the number
  back.\<close>

theorem get_file_size_roundtrip:
  assumes "n < 8 ^ 11" and "\<forall>k < 11. m (a + of_nat k) = octal_digit n k"
  shows "get_file_size m a = of_nat n"
  using assms by (intro get_file_size_octal) (simp add: holds_octal_iff)

theorem get_file_size_roundtrip_witness:
  "get_file_size (\<lambda>x. octal_digit 493 (unat x)) 0 = 493"
  using get_file_size_roundtrip [of 493 "\<lambda>x. octal_digit 493 (unat x)" 0] by (simp add: unat_of_nat_small)

text \<open>
  Opening a name that no file of the ram disk matches never returns to the caller. With fewer than five files the
  search dereferences an empty slot of the table; with five it reports the missing file and then takes the header
  at index -1.\<close>

theorem ustar_open_missing:
  assumes "archive_at m a fs" and "holds_string m p ys" and "ys \<noteq> []" and "first_match ys fs = None"
  shows "ustar_open m (header_table a fs) p =
    Inl (if length fs = HEADER_LIST_SIZE then Out_Of_Bounds else Null_Deref)"
  using get_file_header_archive [OF assms(1-3)] assms(4) by (simp add: ustar_open_def)

section \<open>An example archive\<close>

text \<open>One file \<open>ab\<close> with the contents \<open>hi\<close> at \<open>0x10000\<close>, and two names behind it.\<close>

definition example_ram :: mem where
  "example_ram = bytes_at 0x10000 [97, 98] (bytes_at 0x1007c [48, 48, 48, 48, 48, 48, 48, 48, 48, 48, 50]
     (bytes_at 0x10200 [104, 105] (bytes_at 0x11000 [47, 97, 98] (bytes_at 0x11010 [97, 99] (\<lambda>_. 0)))))"

definition example_files :: "tar_file list" where
  "example_files = [([97, 98], [104, 105])]"

lemma example_archive: "archive_at example_ram 0x10000 example_files"
  by (simp add: archive_at_def example_files_def example_ram_def holds_string_def holds_octal_def octal_digit_def
      upt_rec archive_len_def file_span_def padded_def HEADER_LIST_SIZE_def PAGE_SIZE_def)

lemma example_table: "header_table 0x10000 example_files = [0x10000, 0, 0, 0, 0]"
proof -
  have "replicate (HEADER_LIST_SIZE - 1) (0 :: u64) = [0, 0, 0, 0]"
    by (simp add: HEADER_LIST_SIZE_def numeral_eq_Suc)
  then show ?thesis by (simp add: header_table_def example_files_def)
qed

lemma example_names:
  "holds_string example_ram 0x11010 [97, 99]" "holds_string example_ram 0x11000 [47, 97, 98]" "holds_string example_ram 0x11001 [97, 98]"
  by (simp_all add: holds_string_def example_ram_def)

lemma example_match: "first_match [97, 99] example_files = None" "first_match [97, 98] example_files = Some 0"
proof -
  have "{1 ..< min (length [97 :: u8, 98]) (length [97 :: u8, c])} = {1}" for c by auto
  then show "first_match [97, 99] example_files = None" "first_match [97, 98] example_files = Some 0"
    by (simp_all add: example_files_def loose_match_def)
qed

theorem parse_tar_file_archive_witness:
  "parse_tar_file example_ram 0x10000 (replicate HEADER_LIST_SIZE 0) = Inr [0x10000, 0, 0, 0, 0]"
proof -
  have "holds_archive example_ram 0x10000 example_files" "length example_files \<le> HEADER_LIST_SIZE"
    using example_archive by (simp_all add: archive_at_def)
  then show ?thesis
    using parse_tar_file_archive [of example_ram "0x10000" example_files] by (simp add: example_table)
qed

theorem ustar_open_missing_witness:
  "ustar_open example_ram [0x10000, 0, 0, 0, 0] 0x11010 = Inl Null_Deref"
proof -
  have "length example_files \<noteq> HEADER_LIST_SIZE" by (simp add: example_files_def HEADER_LIST_SIZE_def)
  then show ?thesis
    using ustar_open_missing [OF example_archive example_names(1)] by (simp add: example_table example_match)
qed

end
