(* ===== verification/Vfs.thy ===== *)
theory Vfs
  imports Tar
begin

text \<open>
  The virtual file system, kernel/fs/vfs.c: the table of mount points, the table of opened files and the
  operations on them. A \<open>mountpoint_t\<close> is 176 bytes of kernel memory: the type at offset 0, the device at 32, the mount point at
  96 and two function pointers behind them. The lemmas follow a file from the archive through \<open>vfs_open\<close> to the bytes
  \<open>vfs_read\<close> delivers.
\<close>

section \<open>State\<close>

definition MAX_MOUNTPOINTS :: nat where
  "MAX_MOUNTPOINTS = 12"

definition MAX_OPENED_FILES :: nat where
  "MAX_OPENED_FILES = 10"

definition VFS_TYPE_LEGNTH :: nat where
  "VFS_TYPE_LEGNTH = 32"

record fs =
  file_headers :: "u64 list"
  mountpoints :: "u64 list"
  vfs_opened_files :: "file_descriptor_t list"

definition zero_fd :: file_descriptor_t where
  "zero_fd = \<lparr>fs_file_id = 0, mountpoint_id = 0, fd_filename = replicate VFS_PATH_LENGTH 0, buf_read_pos = 0,
     buf_write_pos = 0, fd_file_size = 0, file_buffer = 0\<rparr>"

definition initial_fs :: fs where
  "initial_fs = \<lparr>file_headers = replicate HEADER_LIST_SIZE 0, mountpoints = replicate MAX_MOUNTPOINTS 0,
     vfs_opened_files = replicate MAX_OPENED_FILES zero_fd\<rparr>"

text \<open>Where the linker puts the string literals and the two functions.\<close>

record fs_symbols =
  lit_initramfs :: u64
  lit_root :: u64
  lit_tar :: u64
  sym_ustar_open :: u64
  sym_ustar_read :: u64

definition mp_type :: "u64 \<Rightarrow> u64" where "mp_type p = p"
definition mp_device :: "u64 \<Rightarrow> u64" where "mp_device p = p + 32"
definition mp_mountpoint :: "u64 \<Rightarrow> u64" where "mp_mountpoint p = p + 96"
definition mp_open :: "u64 \<Rightarrow> u64" where "mp_open p = p + 160"
definition mp_read :: "u64 \<Rightarrow> u64" where "mp_read p = p + 168"

section \<open>Mount points\<close>

definition create_mountpoint :: "nat \<Rightarrow> nat \<Rightarrow> fs_symbols \<Rightarrow> u64 \<Rightarrow> u64 \<Rightarrow> u64 \<Rightarrow> mm \<Rightarrow> (u64 \<times> mm) result" where
  "create_mountpoint d n sy device target fs_type s =
     bindE (kalloc d n 176 s) (\<lambda>(p, s1).
       let m1 = strncpy (vm_bytes s1) (mp_device p) device VFS_PATH_LENGTH;
           m2 = strncpy m1 (mp_type p) fs_type 32;
           m3 = strncpy m2 (mp_mountpoint p) target VFS_PATH_LENGTH
       in if strncmp m3 fs_type (lit_tar sy) VFS_PATH_LENGTH = 0
          then Inr (p, set_bytes (store64 (store64 m3 (mp_open p) (sym_ustar_open sy)) (mp_read p) (sym_ustar_read sy)) s1)
          else bindE (kfree (fst s1) p) (\<lambda>h. Inr (0, h, snd (set_bytes m3 s1))))"

fun add_mountpoint :: "u64 \<Rightarrow> u64 list \<Rightarrow> bool \<times> u64 list" where
  "add_mountpoint mp [] = (False, [])"
| "add_mountpoint mp (x # xs) =
     (if x = 0 then (True, mp # xs) else let (ok, ys) = add_mountpoint mp xs in (ok, x # ys))"

fun get_mountpoint :: "mem \<Rightarrow> u64 \<Rightarrow> u64 list \<Rightarrow> u64 result" where
  "get_mountpoint m path [] = Inr 0"
| "get_mountpoint m path (x # xs) =
     (if x = 0 then Inl Null_Deref
      else if strncmp m (mp_mountpoint x) path VFS_PATH_LENGTH = 0 then Inr x
      else get_mountpoint m path xs)"

fun clear_mountpoint :: "u64 \<Rightarrow> u64 list \<Rightarrow> u64 list" where
  "clear_mountpoint mp [] = []"
| "clear_mountpoint mp (x # xs) = (if x = mp then 0 # xs else x # clear_mountpoint mp xs)"

definition remove_mountpoint :: "u64 \<Rightarrow> mm \<times> fs \<Rightarrow> (mm \<times> fs) result" where
  "remove_mountpoint mp s =
     bindE (kfree (fst (fst s)) mp) (\<lambda>h.
       Inr ((h, snd (fst s)), (snd s)\<lparr>mountpoints := clear_mountpoint mp (mountpoints (snd s))\<rparr>))"

definition mount_new :: "u64 \<Rightarrow> mm \<Rightarrow> fs \<Rightarrow> (bool \<times> mm \<times> fs) result" where
  "mount_new p s f =
     (let (ok, mps) = add_mountpoint p (mountpoints f)
      in if ok then Inr (True, s, f\<lparr>mountpoints := mps\<rparr>) else Inl Panic)"

definition vfs_mount :: "nat \<Rightarrow> nat \<Rightarrow> fs_symbols \<Rightarrow> u64 \<Rightarrow> u64 \<Rightarrow> u64 \<Rightarrow> mm \<times> fs \<Rightarrow> (bool \<times> mm \<times> fs) result" where
  "vfs_mount d n sy device target fs_type s =
     bindE (create_mountpoint d n sy device target fs_type (fst s)) (\<lambda>(p, s1). mount_new p s1 (snd s))"

definition vfs_init :: "nat \<Rightarrow> nat \<Rightarrow> fs_symbols \<Rightarrow> mm \<times> fs \<Rightarrow> (bool \<times> mm \<times> fs) result" where
  "vfs_init d n sy s =
     bindE (create_mountpoint d n sy (lit_initramfs sy) (lit_root sy) (lit_tar sy) (fst s)) (\<lambda>(p, s1).
       mount_new p s1 (snd s))"

text \<open>
  The search of \<open>vfs_umount\<close> gives the index at which its loop stops; the entry there is cleared before it is read again
  for \<open>kfree\<close>, and index 12 is behind the table.
\<close>

fun umount_index :: "mem \<Rightarrow> u64 \<Rightarrow> nat \<Rightarrow> u64 list \<Rightarrow> nat result" where
  "umount_index m device i [] = Inr i"
| "umount_index m device i (x # xs) =
     (if x = 0 then Inl Null_Deref
      else if strncmp m (mp_device x) device VFS_PATH_LENGTH = 0 then Inr i
      else umount_index m device (Suc i) xs)"

definition vfs_umount :: "u64 \<Rightarrow> u64 \<Rightarrow> mm \<times> fs \<Rightarrow> (int \<times> mm \<times> fs) result" where
  "vfs_umount device target s =
     bindE (umount_index (vm_bytes (fst s)) device 0 (mountpoints (snd s))) (\<lambda>i.
       if i < length (mountpoints (snd s))
       then let mps = (mountpoints (snd s))[i := 0]
            in bindE (kfree (fst (fst s)) (mps ! i)) (\<lambda>h.
                 Inr (1, (h, snd (fst s)), (snd s)\<lparr>mountpoints := mps\<rparr>))
       else Inl Out_Of_Bounds)"

section \<open>Files\<close>

fun store_fd :: "file_descriptor_t \<Rightarrow> int \<Rightarrow> file_descriptor_t list \<Rightarrow> int \<times> file_descriptor_t list" where
  "store_fd fd i [] = (- 1, [])"
| "store_fd fd i (x # xs) =
     (if hd (fd_filename x) = 0 then (i, fd # xs) else let (r, ys) = store_fd fd (i + 1) xs in (r, x # ys))"

definition vfs_open :: "fs_symbols \<Rightarrow> u64 \<Rightarrow> u64 \<Rightarrow> mm \<times> fs \<Rightarrow> (int \<times> mm \<times> fs) result" where
  "vfs_open sy filename flags s =
     (let m = vm_bytes (fst s)
      in bindE (get_mountpoint m filename (mountpoints (snd s))) (\<lambda>mountpoint.
         if mountpoint = 0 then Inl Null_Deref
         else if strncmp m (lit_tar sy) (mp_type mountpoint) 3 = 0
         then bindE (ustar_open m (file_headers (snd s)) (filename + 1)) (\<lambda>fd.
                let (i, fds) = store_fd fd 0 (vfs_opened_files (snd s))
                in Inr (i, fst s, (snd s)\<lparr>vfs_opened_files := fds\<rparr>))
         else Inr (- 1, s)))"

definition vfs_close :: "int \<Rightarrow> mm \<times> fs \<Rightarrow> bool \<times> mm \<times> fs" where
  "vfs_close file_handle s = (True, s)"

definition get_fd :: "fs \<Rightarrow> int \<Rightarrow> file_descriptor_t result" where
  "get_fd f h = (if 0 \<le> h \<and> nat h < length (vfs_opened_files f) then Inr (vfs_opened_files f ! nat h) else Inl Out_Of_Bounds)"

definition set_fd :: "int \<Rightarrow> file_descriptor_t \<Rightarrow> fs \<Rightarrow> fs" where
  "set_fd h fd f = f\<lparr>vfs_opened_files := (vfs_opened_files f)[nat h := fd]\<rparr>"

text \<open>
  \<open>buf_read_pos\<close> is an \<open>int\<close>: it is sign-extended when it is added to the buffer address, and the sum with
  \<open>bytes_read\<close> is truncated when it is stored.
\<close>

definition vfs_read :: "fs_symbols \<Rightarrow> int \<Rightarrow> u64 \<Rightarrow> u64 \<Rightarrow> mm \<times> fs \<Rightarrow> (u64 \<times> mm \<times> fs) result" where
  "vfs_read sy file_handle buf nbytes s =
     (let m = vm_bytes (fst s)
      in bindE (get_fd (snd s) file_handle) (\<lambda>fd.
         if length (mountpoints (snd s)) \<le> mountpoint_id fd then Inl Out_Of_Bounds
         else let mp = mountpoints (snd s) ! mountpoint_id fd
              in if mp = 0 then Inl Null_Deref
                 else if strncmp m (lit_tar sy) (mp_type mp) 3 = 0
                 then bindE (ustar_read m (file_buffer fd + scast (buf_read_pos fd)) buf nbytes) (\<lambda>(bytes_read, m').
                        Inr (bytes_read, set_bytes m' (fst s),
                             set_fd file_handle (fd\<lparr>buf_read_pos := ucast (scast (buf_read_pos fd) + bytes_read)\<rparr>) (snd s)))
                 else Inr (- 1, s)))"

definition vfs_seek :: "int \<Rightarrow> u64 \<Rightarrow> mm \<times> fs \<Rightarrow> (u64 \<times> mm \<times> fs) result" where
  "vfs_seek file_handle pos s =
     bindE (get_fd (snd s) file_handle) (\<lambda>fd.
       Inr (pos, fst s, set_fd file_handle (fd\<lparr>buf_read_pos := ucast pos\<rparr>) (snd s)))"


section \<open>Lemmas\<close>

lemma vfs_get_set [simp]:
  "mountpoints (set_fd h fd f) = mountpoints f" "file_headers (set_fd h fd f) = file_headers f"
  by (simp_all add: set_fd_def)

lemma get_set_fd: "get_fd f h = Inr fd0 \<Longrightarrow> get_fd (set_fd h fd f) h = Inr fd"
  by (auto simp: get_fd_def set_fd_def split: if_splits)

lemma set_set_fd: "set_fd h fd' (set_fd h fd f) = set_fd h fd' f"
  by (simp add: set_fd_def)

text \<open>A mount point whose path has one character matches every path.\<close>

lemma strncmp_one_char: "m (x + 1) = 0 \<Longrightarrow> 1 < n \<Longrightarrow> strncmp m x y n = 0"
  unfolding strncmp_zero_iff by (rule exI [of _ 1]) (simp add: agree_from_1_def)

lemma strncmp_same_string:
  assumes "holds_string m x cs" and "holds_string m y cs" and "cs \<noteq> []"
  shows "strncmp m x y (length cs) = 0"
proof -
  have "agree_from_1 m x y (length cs)" "m (x + of_nat (length cs)) = m (y + of_nat (length cs))"
    using assms(1,2) by (auto simp: holds_string_iff agree_from_1_def)
  moreover have "1 \<le> length cs" using assms(3) by (simp add: Suc_le_eq)
  ultimately show ?thesis unfolding strncmp_zero_iff by (intro exI [of _ "length cs"]) simp
qed

text \<open>The strings \<open>tar\<close> and \<open>/\<close>, and the root file system that \<open>vfs_init\<close> mounts.\<close>

definition str_tar :: "u8 list" where "str_tar = [116, 97, 114]"
definition str_root :: "u8 list" where "str_root = [47]"

definition tar_mount :: "fs_symbols \<Rightarrow> mem \<Rightarrow> u64 \<Rightarrow> bool" where
  "tar_mount sy m p \<longleftrightarrow> p \<noteq> 0 \<and> holds_string m (lit_tar sy) str_tar \<and> holds_string m (mp_type p) str_tar"

definition root_mount :: "fs_symbols \<Rightarrow> mem \<Rightarrow> u64 \<Rightarrow> bool" where
  "root_mount sy m p \<longleftrightarrow> tar_mount sy m p \<and> holds_string m (mp_mountpoint p) str_root"

lemma tar_mount_type: "tar_mount sy m p \<Longrightarrow> strncmp m (lit_tar sy) (mp_type p) 3 = 0"
  using strncmp_same_string [of m "lit_tar sy" str_tar "mp_type p"] by (simp add: tar_mount_def str_tar_def numeral_3_eq_3)

lemma root_mount_match: "root_mount sy m p \<Longrightarrow> get_mountpoint m path (p # mps) = Inr p"
  by (simp add: root_mount_def tar_mount_def holds_string_def str_root_def strncmp_one_char VFS_PATH_LENGTH_def)

lemma vfs_read_step:
  assumes "get_fd f h = Inr fd" and "mountpoint_id fd < length (mountpoints f)"
    and "tar_mount sy (vm_bytes s) (mountpoints f ! mountpoint_id fd)"
    and "PAGE_SIZE \<le> file_buffer fd + scast (buf_read_pos fd)" and "PAGE_SIZE \<le> buf"
  shows "vfs_read sy h buf nbytes (s, f) =
    Inr (nbytes, set_bytes (memcpy (vm_bytes s) buf (file_buffer fd + scast (buf_read_pos fd)) (unat nbytes)) s,
         set_fd h (fd\<lparr>buf_read_pos := ucast (scast (buf_read_pos fd) + nbytes)\<rparr>) f)"
  using assms tar_mount_type [OF assms(3)]
  by (simp add: vfs_read_def ustar_read_def tar_mount_def linorder_not_less [symmetric])

lemma vfs_open_step:
  assumes "mountpoints f = p # mps" and "root_mount sy (vm_bytes s) p" and "archive_at (vm_bytes s) a fs"
    and "file_headers f = header_table a fs" and "holds_string (vm_bytes s) path (c # ys)" and "ys \<noteq> []"
    and "first_match ys fs = Some j"
  shows "\<exists>fd. vfs_open sy path flags (s, f) =
      (let (i, fds) = store_fd fd 0 (vfs_opened_files f) in Inr (i, s, f\<lparr>vfs_opened_files := fds\<rparr>)) \<and>
    opened_as (vm_bytes s) fd (snd (fs ! j)) \<and> file_buffer fd = header_addrs a fs ! j + 512"
proof -
  have "holds_string (vm_bytes s) (path + 1) ys" using assms(5) by (simp add: holds_string_def)
  from ustar_open_match [OF assms(3) this assms(6,7)] obtain fd
    where "ustar_open (vm_bytes s) (header_table a fs) (path + 1) = Inr fd" "opened_as (vm_bytes s) fd (snd (fs ! j))"
      "file_buffer fd = header_addrs a fs ! j + 512"
    by blast
  moreover have "p \<noteq> 0" "tar_mount sy (vm_bytes s) p" using assms(2) by (simp_all add: root_mount_def tar_mount_def)
  ultimately show ?thesis
    using root_mount_match [OF assms(2)] tar_mount_type assms(1,4) by (auto simp: vfs_open_def Let_def)
qed

text \<open>The first free slot of the table of opened files.\<close>

definition free_slot :: "file_descriptor_t list \<Rightarrow> nat \<Rightarrow> bool" where
  "free_slot fds i \<longleftrightarrow> i < length fds \<and> hd (fd_filename (fds ! i)) = 0 \<and> (\<forall>k < i. hd (fd_filename (fds ! k)) \<noteq> 0)"

lemma store_fd_free: "free_slot fds i \<Longrightarrow> store_fd fd b fds = (b + int i, fds[i := fd])"
proof (induction fd b fds arbitrary: i rule: store_fd.induct)
  case (2 fd b x xs)
  show ?case
  proof (cases i)
    case 0
    then show ?thesis using 2(2) by (simp add: free_slot_def)
  next
    case (Suc k)
    then have "hd (fd_filename x) \<noteq> 0" "free_slot xs k" using 2(2) by (auto simp: free_slot_def)
    with "2.IH" Suc show ?thesis by simp
  qed
qed (simp add: free_slot_def)

lemma store_fd_full: "\<forall>x \<in> set fds. hd (fd_filename x) \<noteq> 0 \<Longrightarrow> store_fd fd b fds = (- 1, fds)"
  by (induction fds arbitrary: b) auto


lemma kfree_null: "unat (mapped_end h - heap_start) < 2 ^ 38 \<Longrightarrow> kfree h 0 = Inl Page_Fault"
proof -
  have "2 ^ 38 \<le> unat (- 5 - heap_start)"
    by (simp add: heap_start_def KERNEL_HEAP_START_def)
  moreover assume "unat (mapped_end h - heap_start) < 2 ^ 38"
  ultimately show ?thesis by (simp add: kfree_def write_used_def heap_access_def)
qed

text \<open>Reading does not touch the strings a mount is recognised by.\<close>

definition apart :: "u64 \<Rightarrow> nat \<Rightarrow> u64 \<Rightarrow> nat \<Rightarrow> bool" where
  "apart buf n a k \<longleftrightarrow> list_all (\<lambda>i. n \<le> unat (a + of_nat i - buf)) [0 ..< k]"

lemma apart_iff: "apart buf n a k \<longleftrightarrow> (\<forall>i < k. n \<le> unat (a + of_nat i - buf))"
  by (auto simp: apart_def list_all_iff)

lemma holds_string_memcpy:
  assumes "holds_string m a cs" and "apart buf n a (Suc (length cs))" and "n < 2 ^ 64"
  shows "holds_string (memcpy m buf src n) a cs"
proof -
  have "memcpy m buf src n (a + of_nat i) = m (a + of_nat i)" if "i < Suc (length cs)" for i
    using that assms(2,3) by (intro memcpy_outside) (simp_all add: apart_iff)
  then show ?thesis using assms(1) by (simp add: holds_string_iff)
qed

lemma tar_mount_memcpy:
  assumes "tar_mount sy m p" and "apart buf n (lit_tar sy) 4" and "apart buf n (mp_type p) 4" and "n < 2 ^ 64"
  shows "tar_mount sy (memcpy m buf src n) p"
proof -
  have len: "Suc (length str_tar) = 4" by (simp add: str_tar_def)
  show ?thesis
    using assms holds_string_memcpy [of m _ str_tar buf n src] by (simp add: tar_mount_def len)
qed

lemma scast_small:
  fixes w :: u32
  assumes "unat w = k" and "k < 2 ^ 31"
  shows "scast w = (of_nat k :: u64)"
proof -
  have "\<not> bit (unat w) 31" using assms by (simp add: bit_iff_odd)
  then have "\<not> bit w 31" by (simp add: bit_unsigned_iff)
  then have "\<not> bit w i" if "31 \<le> i" for i
    using that bit_imp_le_length [of w i] by (cases "i = 31") auto
  then have "bit (scast w :: u64) i = bit (ucast w :: u64) i" if "i < 64" for i
    by (auto simp: bit_simps min_def)
  then have "scast w = (ucast w :: u64)" by (intro bit_word_eqI) simp
  then show ?thesis using assms(1) by (simp add: ucast_as_of_nat del: of_nat_unat)
qed

lemma vfs_read_at:
  assumes "get_fd f h = Inr fd" and "mountpoint_id fd < length (mountpoints f)"
    and "tar_mount sy (vm_bytes s) (mountpoints f ! mountpoint_id fd)"
    and "unat (buf_read_pos fd) = pos" and "pos < 2 ^ 31" and "PAGE_SIZE \<le> file_buffer fd"
    and "unat (file_buffer fd) + pos < 2 ^ 64" and "PAGE_SIZE \<le> buf" and "n < 2 ^ 64"
  shows "vfs_read sy h buf (of_nat n) (s, f) =
    Inr (of_nat n, set_bytes (memcpy (vm_bytes s) buf (file_buffer fd + of_nat pos) n) s,
         set_fd h (fd\<lparr>buf_read_pos := of_nat (pos + n)\<rparr>) f)"
proof -
  have pos: "scast (buf_read_pos fd) = (of_nat pos :: u64)" using assms(4,5) by (rule scast_small)
  have "PAGE_SIZE \<le> file_buffer fd + of_nat pos"
    using assms(6,7) unat_plus_of_nat [of "file_buffer fd" pos] by (simp add: word_le_nat_alt)
  moreover have "ucast (of_nat pos + of_nat n :: u64) = (of_nat (pos + n) :: u32)"
    by (simp only: of_nat_add [symmetric]) (simp only: ucast_of_nat_down len_bit0 len_num1)
  ultimately show ?thesis
    using vfs_read_step [OF assms(1-3), of buf "of_nat n"] assms(8,9) unat_of_nat_small [of n, where 'a = 64]
    by (simp only: pos) simp
qed

subsection \<open>Mounting the root\<close>

lemma strnlen_string: "holds_string m a cs \<Longrightarrow> length cs < n \<Longrightarrow> strnlen m a n = length cs"
proof (rule ccontr)
  assume h: "holds_string m a cs" "length cs < n" and ne: "strnlen m a n \<noteq> length cs"
  show False
  proof (cases "strnlen m a n < length cs")
    case True
    then show False using h strnlen_end [of m a n] by (auto simp: holds_string_iff)
  next
    case False
    then show False using ne h(1) strnlen_nonzero [of "length cs" m a n] by (auto simp: holds_string_iff)
  qed
qed

lemma strncpy_string:
  assumes "holds_string m src cs" and "length cs < n" and "n \<le> unat (dst - src)" and "n < 2 ^ 64"
  shows "holds_string (strncpy m dst src n) dst cs"
proof -
  have "unat (of_nat i :: u64) = i" if "i \<le> length cs" for i
    using that assms(2,4) by (intro unat_of_nat_small) simp
  then show ?thesis
    using assms by (simp add: holds_string_iff strncpy_eq strnlen_string [OF assms(1,2)])
qed

text \<open>A write to \<open>[dst, dst + n)\<close> keeps the strings that end below it or start behind it.\<close>

lemma holds_string_keep:
  assumes "holds_string m a cs" and "\<And>b. n \<le> unat (b - dst) \<Longrightarrow> m' b = m b"
    and "unat dst + n \<le> 2 ^ 64" and "unat a + length cs < unat dst \<or> unat dst + n \<le> unat a" and "unat a + length cs < 2 ^ 64"
  shows "holds_string m' a cs"
proof -
  have "m' (a + of_nat i) = m (a + of_nat i)" if "i \<le> length cs" for i
  proof (rule assms(2), rule unat_outside [OF assms(3)])
    have "unat (a + of_nat i) = unat a + i" using that assms(5) by (intro unat_plus_of_nat) simp
    then show "unat (a + of_nat i) < unat dst \<or> unat dst + n \<le> unat (a + of_nat i)" using that assms(4) by auto
  qed
  then show ?thesis using assms(1) by (simp add: holds_string_iff)
qed

lemma strncpy_outside: "n < 2 ^ 64 \<Longrightarrow> n \<le> unat (dst - src) \<Longrightarrow> n \<le> unat (b - dst) \<Longrightarrow> strncpy m dst src n b = m b"
  using strnlen_le [of m src n] by (auto simp: strncpy_eq)

lemma strncpy_keeps_string:
  assumes "holds_string m a cs" and "n < 2 ^ 64" and "n \<le> unat (dst - src)" and "unat dst + n \<le> 2 ^ 64"
    and "unat a + length cs < unat dst \<or> unat dst + n \<le> unat a" and "unat a + length cs < 2 ^ 64"
  shows "holds_string (strncpy m dst src n) a cs"
  by (rule holds_string_keep [OF assms(1) _ assms(4-6)]) (rule strncpy_outside [OF assms(2,3)])

lemma below_dst:
  fixes x p :: u64
  assumes "unat x + 256 \<le> unat p" and "unat p + 176 < 2 ^ 64" and "k \<le> 176" and "n \<le> 256"
  shows "n \<le> unat (p + of_nat k - x)"
proof -
  have "unat (p + of_nat k) = unat p + k" using assms(2,3) by (intro unat_plus_of_nat) simp
  then show ?thesis using assms by (simp add: unat_sub_if_size word_size)
qed

lemma mount_offsets:
  "mp_type p = p + of_nat 0" "mp_device p = p + of_nat 32" "mp_mountpoint p = p + of_nat 96" "mp_open p = p + of_nat 160"
  "mp_read p = p + of_nat 168"
  by (simp_all add: mp_type_def mp_device_def mp_mountpoint_def mp_open_def mp_read_def)

lemma stores_outside: "16 \<le> unat (b - mp_open p) \<Longrightarrow> store64 (store64 m (mp_open p) v) (mp_read p) w b = m b"
proof -
  assume *: "16 \<le> unat (b - mp_open p)"
  have "8 \<le> unat x \<Longrightarrow> unat (x - 8) = unat x - 8" for x :: u64 by (simp add: unat_sub_if_size)
  from this [of "b - mp_open p"] have "unat (b - mp_open p - 8) = unat (b - mp_open p) - 8" using * by simp
  moreover have "b - mp_read p = b - mp_open p - 8" by (simp add: mp_read_def mp_open_def algebra_simps)
  ultimately have "unat (b - mp_read p) = unat (b - mp_open p) - 8" by (simp only:)
  with * show ?thesis by (simp add: store64_other)
qed

text \<open>Where the fields of a mount point at \<open>p\<close> lie, and that a string below \<open>p\<close> overlaps none of them.\<close>

lemma mount_layout:
  fixes p :: u64
  assumes "unat p + 176 < 2 ^ 64"
  shows "unat (mp_type p) = unat p" and "unat (mp_device p) = unat p + 32" and "unat (mp_mountpoint p) = unat p + 96"
    and "unat (mp_open p) = unat p + 160"
    and "unat x + 256 \<le> unat p \<Longrightarrow> 64 \<le> unat (mp_device p - x) \<and> 32 \<le> unat (mp_type p - x) \<and> 64 \<le> unat (mp_mountpoint p - x)"
proof -
  have off: "unat (p + of_nat k) = unat p + k" if "k \<le> 176" for k
    using that assms by (intro unat_plus_of_nat) simp
  show "unat (mp_type p) = unat p" "unat (mp_device p) = unat p + 32" "unat (mp_mountpoint p) = unat p + 96"
      "unat (mp_open p) = unat p + 160"
    using off [of 0] off [of 32] off [of 96] off [of 160] by (simp_all add: mount_offsets)
  show "64 \<le> unat (mp_device p - x) \<and> 32 \<le> unat (mp_type p - x) \<and> 64 \<le> unat (mp_mountpoint p - x)" if "unat x + 256 \<le> unat p"
    using below_dst [OF that assms, of 32 64] below_dst [OF that assms, of 0 32] below_dst [OF that assms, of 96 64]
    by (simp add: mount_offsets)
qed

lemma create_mountpoint_tar:
  fixes p :: u64
  assumes alloc: "kalloc d n 176 s = Inr (p, s1)"
    and strs: "holds_string (vm_bytes s1) fs_type str_tar" "holds_string (vm_bytes s1) (lit_tar sy) str_tar"
      "holds_string (vm_bytes s1) target ts" "length ts < 64"
    and low: "unat device + 256 \<le> unat p" "unat fs_type + 256 \<le> unat p" "unat (lit_tar sy) + 256 \<le> unat p" "unat target + 256 \<le> unat p"
    and top: "unat p + 176 < 2 ^ 64"
  shows "\<exists>s2. create_mountpoint d n sy device target fs_type s = Inr (p, s2) \<and> tar_mount sy (vm_bytes s2) p \<and>
    holds_string (vm_bytes s2) (mp_mountpoint p) ts"
proof -
  let ?M = "vm_bytes s1"
  define m1 where "m1 = strncpy ?M (mp_device p) device VFS_PATH_LENGTH"
  define m2 where "m2 = strncpy m1 (mp_type p) fs_type 32"
  define m3 where "m3 = strncpy m2 (mp_mountpoint p) target VFS_PATH_LENGTH"
  define m5 where "m5 = store64 (store64 m3 (mp_open p) (sym_ustar_open sy)) (mp_read p) (sym_ustar_read sy)"
  note addr = mount_layout(1-4) [OF top]
  have dst: "64 \<le> unat (mp_device p - device)" "32 \<le> unat (mp_type p - fs_type)" "64 \<le> unat (mp_mountpoint p - target)"
    using mount_layout(5) [OF top] low by blast+
  have k1: "holds_string m1 a cs"
    if "holds_string ?M a cs" "unat a + length cs < unat p + 32 \<or> unat p + 96 \<le> unat a" "unat a + length cs < 2 ^ 64" for a cs
    unfolding m1_def VFS_PATH_LENGTH_def by (rule strncpy_keeps_string [OF that(1)]) (use that top dst addr in auto)
  have k2: "holds_string m2 a cs"
    if "holds_string m1 a cs" "unat a + length cs < unat p \<or> unat p + 32 \<le> unat a" "unat a + length cs < 2 ^ 64" for a cs
    unfolding m2_def by (rule strncpy_keeps_string [OF that(1)]) (use that top dst addr in auto)
  have k3: "holds_string m3 a cs"
    if "holds_string m2 a cs" "unat a + length cs < unat p + 96 \<or> unat p + 160 \<le> unat a" "unat a + length cs < 2 ^ 64" for a cs
    unfolding m3_def VFS_PATH_LENGTH_def by (rule strncpy_keeps_string [OF that(1)]) (use that top dst addr in auto)
  have k5: "holds_string m5 a cs"
    if "holds_string m3 a cs" "unat a + length cs < unat p + 160" "unat a + length cs < 2 ^ 64" for a cs
    using holds_string_keep [OF that(1), of 16 "mp_open p" m5] that(2,3) top addr stores_outside [of _ p] by (auto simp: m5_def)
  have l3: "length str_tar = 3" by (simp add: str_tar_def)
  have tar1: "holds_string m1 fs_type str_tar" using k1 [OF strs(1)] low(2) top by (simp add: l3)
  have tar2: "holds_string m2 (mp_type p) str_tar"
    using strncpy_string [OF tar1 _ dst(2)] by (simp add: m2_def l3)
  have tar3: "holds_string m3 (mp_type p) str_tar" using k3 [OF tar2] addr top by (simp add: l3)
  have fs3: "holds_string m3 fs_type str_tar" using k3 [OF k2 [OF tar1]] low(2) top by (simp add: l3)
  have lit3: "holds_string m3 (lit_tar sy) str_tar" using k3 [OF k2 [OF k1 [OF strs(2)]]] low(3) top by (simp add: l3)
  have tgt2: "holds_string m2 target ts" using k2 [OF k1 [OF strs(3)]] low(4) strs(4) top by simp
  have tgt3: "holds_string m3 (mp_mountpoint p) ts"
    using strncpy_string [OF tgt2 _ dst(3)] strs(4) by (simp add: m3_def VFS_PATH_LENGTH_def)
  have "strncmp m3 fs_type (lit_tar sy) VFS_PATH_LENGTH = 0"
    using strncmp_strings [OF fs3 lit3] by (simp add: str_tar_def loose_match_def VFS_PATH_LENGTH_def)
  then have "create_mountpoint d n sy device target fs_type s = Inr (p, set_bytes m5 s1)"
    using alloc by (simp add: create_mountpoint_def m1_def m2_def m3_def m5_def Let_def)
  moreover have "tar_mount sy m5 p"
    using k5 [OF tar3] k5 [OF lit3] low(3) addr top by (auto simp: tar_mount_def l3)
  moreover have "holds_string m5 (mp_mountpoint p) ts" using k5 [OF tgt3] addr strs(4) top by simp
  ultimately show ?thesis by auto
qed

section \<open>Properties\<close>

lemma copied_content:
  assumes "opened_as m fd content" and "l < n" and "n \<le> length content" and "n < 2 ^ 64" and "n \<le> unat (buf - file_buffer fd)"
  shows "memcpy m buf (file_buffer fd) n (buf + of_nat l) = content ! l"
proof -
  have "unat (of_nat l :: u64) = l" using assms(2,4) by (intro unat_of_nat_small) simp
  then have "memcpy m buf (file_buffer fd) n (buf + of_nat l) = m (file_buffer fd + of_nat l)"
    using assms(2,4,5) by (simp add: memcpy_eq)
  also have "\<dots> = content ! l" using assms(1-3) by (simp add: opened_as_def)
  finally show ?thesis .
qed


text \<open>
  \<open>vfs_init\<close> mounts the root: if the heap gives it an object behind the string literals, it fills the first slot of the empty mount
  table with a mount point of type \<open>tar\<close> at \<open>/\<close>, and from then on every path resolves to it.\<close>

theorem vfs_init_mounts_root:
  assumes "kalloc d n 176 s = Inr (p, s1)" and "mountpoints f = replicate MAX_MOUNTPOINTS 0"
    and "holds_string (vm_bytes s1) (lit_tar sy) str_tar" and "holds_string (vm_bytes s1) (lit_root sy) str_root"
    and "unat (lit_initramfs sy) + 256 \<le> unat p" and "unat (lit_root sy) + 256 \<le> unat p" and "unat (lit_tar sy) + 256 \<le> unat p"
    and "unat p + 176 < 2 ^ 64"
  shows "\<exists>s2 f2. vfs_init d n sy (s, f) = Inr (True, s2, f2) \<and> mountpoints f2 = p # replicate (MAX_MOUNTPOINTS - 1) 0 \<and>
    root_mount sy (vm_bytes s2) p \<and> (\<forall>path. get_mountpoint (vm_bytes s2) path (mountpoints f2) = Inr p)"
proof -
  have "length str_root < 64" by (simp add: str_root_def)
  from create_mountpoint_tar [OF assms(1,3,3,4) this assms(5,7,7,6,8)] obtain s2
    where s2: "create_mountpoint d n sy (lit_initramfs sy) (lit_root sy) (lit_tar sy) s = Inr (p, s2)" "root_mount sy (vm_bytes s2) p"
    by (auto simp: root_mount_def)
  have "replicate MAX_MOUNTPOINTS (0 :: u64) = 0 # replicate (MAX_MOUNTPOINTS - 1) 0"
    by (simp add: MAX_MOUNTPOINTS_def numeral_eq_Suc)
  with s2 assms(2) show ?thesis
    using root_mount_match [OF s2(2)] by (simp add: vfs_init_def mount_new_def)
qed

text \<open>
  \<open>vfs_umount\<close> never returns. Either it dereferences an empty slot of the mount table, or it runs behind the table, or it frees the
  entry it has just cleared: \<open>kfree(NULL)\<close> writes just below address 0, which is not mapped.\<close>

theorem vfs_umount_never_returns:
  assumes "unat (mapped_end (fst (fst s)) - heap_start) < 2 ^ 38"
  shows "\<exists>e. vfs_umount device target s = Inl e"
proof -
  have "kfree (fst (fst s)) 0 = Inl Page_Fault"
    using assms by (intro kfree_null) simp
  then show ?thesis
    by (auto simp: vfs_umount_def bindE_def Let_def split: sum.split)
qed


text \<open>
  C33. Reading in pieces is reading at once: two reads of \<open>n1\<close> and \<open>n2\<close> bytes into adjacent buffers leave the memory, the position and the
  other files exactly as one read of \<open>n1 + n2\<close> bytes does, as long as the position stays a positive \<open>int\<close> and the first piece does not
  overwrite the strings by which the mount is recognised. The size of the file plays no role: reads run on behind its end.\<close>

theorem vfs_read_append:
  assumes "get_fd f h = Inr fd" and "mountpoint_id fd < length (mountpoints f)"
    and "tar_mount sy (vm_bytes s) (mountpoints f ! mountpoint_id fd)"
    and "unat (buf_read_pos fd) = pos" and "pos + n1 + n2 < 2 ^ 31"
    and "PAGE_SIZE \<le> file_buffer fd" and "unat (file_buffer fd) + pos + n1 < 2 ^ 64"
    and "PAGE_SIZE \<le> buf" and "unat buf + n1 < 2 ^ 64"
    and "apart buf n1 (lit_tar sy) 4" and "apart buf n1 (mp_type (mountpoints f ! mountpoint_id fd)) 4"
  shows "bindE (vfs_read sy h buf (of_nat n1) (s, f)) (\<lambda>(_, st). vfs_read sy h (buf + of_nat n1) (of_nat n2) st) =
    bindE (vfs_read sy h buf (of_nat (n1 + n2)) (s, f)) (\<lambda>(_, st). Inr (of_nat n2, st))"
proof -
  let ?src = "file_buffer fd + of_nat pos" and ?fd = "fd\<lparr>buf_read_pos := of_nat (pos + n1)\<rparr>"
  let ?m = "memcpy (vm_bytes s) buf ?src n1"
  have small: "n1 < 2 ^ 64" "n2 < 2 ^ 64" "n1 + n2 < 2 ^ 64" "pos + n1 < 2 ^ 31" using assms(5) by simp_all
  have p1: "unat (buf_read_pos ?fd) = pos + n1" using small(4) by (simp add: unat_of_nat_small del: of_nat_add)
  have one: "vfs_read sy h buf (of_nat n) (s, f) =
      Inr (of_nat n, set_bytes (memcpy (vm_bytes s) buf ?src n) s, set_fd h (fd\<lparr>buf_read_pos := of_nat (pos + n)\<rparr>) f)"
    if "n < 2 ^ 64" for n
    using assms that by (intro vfs_read_at) simp_all
  have "PAGE_SIZE \<le> buf + of_nat n1"
    using assms(8) unat_plus_of_nat [of buf n1] assms(9) by (simp add: word_le_nat_alt)
  moreover have "tar_mount sy ?m (mountpoints f ! mountpoint_id fd)"
    using assms small by (intro tar_mount_memcpy)
  ultimately have "vfs_read sy h (buf + of_nat n1) (of_nat n2) (set_bytes ?m s, set_fd h ?fd f) =
      Inr (of_nat n2, set_bytes (memcpy ?m (buf + of_nat n1) (?src + of_nat n1) n2) s, set_fd h (fd\<lparr>buf_read_pos := of_nat (pos + n1 + n2)\<rparr>) f)"
    using vfs_read_at [OF get_set_fd [OF assms(1)], of ?fd sy "set_bytes ?m s" "pos + n1" "buf + of_nat n1" n2] assms(2,3,6,7) small p1
    by (simp add: set_set_fd algebra_simps)
  then show ?thesis
    using one [OF small(1)] one [OF small(3)] memcpy_add [of "vm_bytes s" buf ?src n1 n2] by (simp add: algebra_simps)
qed


section \<open>An example state\<close>

definition example_sy :: fs_symbols where
  "example_sy = \<lparr>lit_initramfs = 0x21010, lit_root = 0x21020, lit_tar = 0x21000, sym_ustar_open = 0, sym_ustar_read = 0\<rparr>"

definition example_bytes :: mem where
  "example_bytes = bytes_at 0x20000 str_tar (bytes_at 0x20060 str_root (bytes_at 0x21000 str_tar example_ram))"

definition example_fs :: fs where
  "example_fs = initial_fs\<lparr>file_headers := [0x10000, 0, 0, 0, 0], mountpoints := 0x20000 # replicate 11 0\<rparr>"

lemma example_root: "root_mount example_sy example_bytes 0x20000"
  by (simp add: root_mount_def tar_mount_def example_sy_def example_bytes_def holds_string_def str_tar_def str_root_def
      mp_type_def mp_mountpoint_def example_ram_def)

lemma example_bytes_archive: "archive_at example_bytes 0x10000 example_files"
  by (simp add: archive_at_def example_files_def example_bytes_def example_ram_def str_tar_def str_root_def holds_string_def
      holds_octal_def octal_digit_def upt_rec archive_len_def file_span_def padded_def HEADER_LIST_SIZE_def PAGE_SIZE_def)

lemma example_bytes_path: "holds_string example_bytes 0x11000 [47, 97, 98]"
  by (simp add: example_bytes_def example_ram_def holds_string_def str_tar_def str_root_def)

lemma example_slot: "free_slot (vfs_opened_files example_fs) 0"
  by (simp add: free_slot_def example_fs_def initial_fs_def MAX_OPENED_FILES_def zero_fd_def VFS_PATH_LENGTH_def hd_replicate)


theorem vfs_umount_never_returns_witness:
  "\<exists>e. vfs_umount 0x21010 0x21020 (example_mm, example_fs) = Inl e"
  by (rule vfs_umount_never_returns) (simp add: example_mm_def fresh_heap_def boot_heap_def heap_start_def KERNEL_HEAP_START_def PAGE_SIZE_def)

definition example_fd :: file_descriptor_t where
  "example_fd = zero_fd\<lparr>fd_filename := [97], file_buffer := 0x10200\<rparr>"

theorem vfs_read_append_witness:
  "bindE (vfs_read example_sy 0 0x30000 (of_nat 1) (set_bytes example_bytes example_mm, set_fd 0 example_fd example_fs))
      (\<lambda>(_, st). vfs_read example_sy 0 (0x30000 + of_nat 1) (of_nat 1) st) =
    bindE (vfs_read example_sy 0 0x30000 (of_nat (1 + 1)) (set_bytes example_bytes example_mm, set_fd 0 example_fd example_fs))
      (\<lambda>(_, st). Inr (of_nat 1, st))"
proof (rule vfs_read_append [where fd = example_fd and pos = 0])
  show "get_fd (set_fd 0 example_fd example_fs) 0 = Inr example_fd"
    using example_slot by (simp add: get_fd_def set_fd_def free_slot_def)
qed (use example_root in \<open>simp_all add: example_fd_def example_fs_def zero_fd_def root_mount_def apart_def PAGE_SIZE_def example_sy_def
    mp_type_def upt_rec\<close>)

definition example_literals :: mem where
  "example_literals = bytes_at 0x21000 str_tar (bytes_at 0x21020 str_root (\<lambda>_. 0))"

lemma example_kalloc_any:
  assumes "5 \<le> unat sz" and "unat sz \<le> 4000" and "7 \<le> n"
  shows "\<exists>h'. kalloc 0 n sz (set_bytes m example_mm) = Inr (haddr 5, h', snd (set_bytes m example_mm))"
proof -
  obtain obs where obs: "obj_chain (objs (snd example_mm)) (current_head (fst example_mm, snd example_mm)) obs" "length obs < n"
      "\<forall>ob \<in> set obs. vo_base ob \<noteq> heap_start"
    using example_chain assms(3) by auto
  have "heap_rep (fst example_mm) [(False, 4091)]" using fresh_heap_rep by (simp add: example_mm_def)
  moreover have "no_growth (vmm_lengthen 0 n) (snd (set_bytes m example_mm))"
    using obs by (intro vmm_no_growth [of _ "fst example_mm" obs]) (auto simp: set_bytes_def current_head_def split: if_splits)
  ultimately have "\<exists>h'. kmalloc n (vmm_lengthen 0 n) sz (fst example_mm, snd (set_bytes m example_mm)) =
      Inr (haddr 5, h', snd (set_bytes m example_mm))"
    using kmalloc_refines [of "fst example_mm" "[(False, 4091)]" "vmm_lengthen 0 n" "snd (set_bytes m example_mm)" sz n] assms by auto
  then show ?thesis by (simp add: kalloc_def set_bytes_def upd_def)
qed

lemmas example_kalloc_bytes = example_kalloc_any [where n = 7, simplified]

theorem vfs_init_mounts_root_witness:
  "\<exists>s2 f2. vfs_init 0 7 example_sy (set_bytes example_literals example_mm, initial_fs) = Inr (True, s2, f2) \<and>
    mountpoints f2 = haddr 5 # replicate (MAX_MOUNTPOINTS - 1) 0 \<and> root_mount example_sy (vm_bytes s2) (haddr 5) \<and>
    (\<forall>path. get_mountpoint (vm_bytes s2) path (mountpoints f2) = Inr (haddr 5))"
proof -
  obtain h' where "kalloc 0 7 176 (set_bytes example_literals example_mm) = Inr (haddr 5, h', snd (set_bytes example_literals example_mm))"
    using example_kalloc_bytes [of 176 example_literals] by auto
  then show ?thesis
  proof (rule vfs_init_mounts_root)
    have bytes: "vm_bytes (h', snd (set_bytes example_literals example_mm)) = example_literals"
      by (simp add: vm_bytes_def set_bytes_def fun_eq_iff)
    show "holds_string (vm_bytes (h', snd (set_bytes example_literals example_mm))) (lit_tar example_sy) str_tar"
      "holds_string (vm_bytes (h', snd (set_bytes example_literals example_mm))) (lit_root example_sy) str_root"
      unfolding bytes by (simp_all add: example_literals_def holds_string_def str_tar_def str_root_def example_sy_def)
  qed (simp_all add: initial_fs_def example_sy_def haddr_def heap_start_def KERNEL_HEAP_START_def)
qed

end
