(* ===== verification/Scheduler.thy ===== *)
theory Scheduler
  imports Vmm
begin

text \<open>
  Processes and threads, kernel/sched/scheduler.c. Both live in the kernel heap and are linked by \<open>next\<close> pointers; \<open>kfree\<close> leaves their
  contents in place, as the source relies on. The address space of a process is the \<open>vmm_t\<close> at offset 16 of the process. The lemmas show the
  round robin order, that contexts survive it, and that only the current thread is running.
\<close>

section \<open>Data\<close>

datatype status_t = READY | RUNNING | DEAD

record cpu_context_t =
  rax :: u64  rbx :: u64  rcx :: u64  rdx :: u64  rdi :: u64  rsi :: u64  rbp :: u64
  r8 :: u64  r9 :: u64  r10 :: u64  r11 :: u64  r12 :: u64  r13 :: u64  r14 :: u64  r15 :: u64
  vec :: u64
  error_code :: u64
  rip_i :: u64
  cs_i :: u64
  flags_i :: u64
  rsp_i :: u64
  ss_i :: u64

definition CODE_OFFSET :: u64 where "CODE_OFFSET = 0x8"
definition DATA_OFFSET :: u64 where "DATA_OFFSET = 0x10"
definition USER_CODE_OFFSET :: u64 where "USER_CODE_OFFSET = 0x1b"
definition USER_DATA_OFFSET :: u64 where "USER_DATA_OFFSET = 0x23"
definition NAME_MAX :: nat where "NAME_MAX = 10"
definition MAX_RESOURCES :: nat where "MAX_RESOURCES = 5"

record thread_t =
  tid :: u64
  th_parent :: u64
  th_context :: cpu_context_t
  th_stack :: u64
  th_status :: status_t
  th_name :: "u8 list"
  th_next :: u64

record process_t =
  pid :: u64
  p_threads :: u64
  p_name :: "u8 list"
  resource_table :: "u64 list"
  p_next :: u64

record sched =
  threads :: "u64 \<rightharpoonup> thread_t"
  procs :: "u64 \<rightharpoonup> process_t"
  idle_proc :: u64
  head_proc :: u64
  current_process :: u64
  current_thread :: u64
  next_tid :: u64
  next_pid :: u64

definition initial_sched :: sched where
  "initial_sched = \<lparr>threads = Map.empty, procs = Map.empty, idle_proc = 0, head_proc = 0, current_process = 0,
     current_thread = 0, next_tid = 0, next_pid = 0\<rparr>"

definition proc_vmm :: "u64 \<Rightarrow> u64" where
  "proc_vmm p = p + 16"

definition zero_context :: cpu_context_t where
  "zero_context = \<lparr>rax = 0, rbx = 0, rcx = 0, rdx = 0, rdi = 0, rsi = 0, rbp = 0, r8 = 0, r9 = 0, r10 = 0, r11 = 0, r12 = 0,
     r13 = 0, r14 = 0, r15 = 0, vec = 0, error_code = 0, rip_i = 0, cs_i = 0, flags_i = 0, rsp_i = 0, ss_i = 0\<rparr>"

definition zero_thread :: thread_t where
  "zero_thread = \<lparr>tid = 0, th_parent = 0, th_context = zero_context, th_stack = 0, th_status = READY, th_name = replicate NAME_MAX 0, th_next = 0\<rparr>"

definition zero_process :: process_t where
  "zero_process = \<lparr>pid = 0, p_threads = 0, p_name = replicate NAME_MAX 0, resource_table = replicate MAX_RESOURCES 0, p_next = 0\<rparr>"

definition get_thread :: "sched \<Rightarrow> u64 \<Rightarrow> thread_t result" where
  "get_thread sc t = (case threads sc t of None \<Rightarrow> Inl Null_Deref | Some th \<Rightarrow> Inr th)"

definition put_thread :: "u64 \<Rightarrow> thread_t \<Rightarrow> sched \<Rightarrow> sched" where
  "put_thread t th sc = sc\<lparr>threads := (threads sc)(t \<mapsto> th)\<rparr>"

definition get_proc :: "sched \<Rightarrow> u64 \<Rightarrow> process_t result" where
  "get_proc sc p = (case procs sc p of None \<Rightarrow> Inl Null_Deref | Some pr \<Rightarrow> Inr pr)"

definition put_proc :: "u64 \<Rightarrow> process_t \<Rightarrow> sched \<Rightarrow> sched" where
  "put_proc p pr sc = sc\<lparr>procs := (procs sc)(p \<mapsto> pr)\<rparr>"

section \<open>Creation\<close>

text \<open>
  \<open>wrapper\<close> is the address of \<open>kernel_thread_wrapper\<close>, which user threads start in as well.
\<close>

definition new_context :: "u64 \<Rightarrow> u64 \<Rightarrow> u64 \<Rightarrow> u64 \<Rightarrow> bool \<Rightarrow> cpu_context_t" where
  "new_context wrapper func func_arg stack is_user = zero_context\<lparr>rdi := func, rsi := func_arg, rip_i := wrapper,
     cs_i := (if is_user then USER_CODE_OFFSET else CODE_OFFSET), flags_i := 0x202,
     rsp_i := stack + KERNEL_STACK_SIZE - 8, ss_i := (if is_user then USER_DATA_OFFSET else DATA_OFFSET)\<rparr>"

fun last_thread :: "nat \<Rightarrow> sched \<Rightarrow> u64 \<Rightarrow> u64 result" where
  "last_thread 0 sc t = Inl Out_Of_Fuel"
| "last_thread (Suc n) sc t =
     bindE (get_thread sc t) (\<lambda>th. if th_next th \<noteq> 0 then last_thread n sc (th_next th) else Inr t)"

definition append_thread :: "nat \<Rightarrow> u64 \<Rightarrow> u64 \<Rightarrow> sched \<Rightarrow> sched result" where
  "append_thread n p t sc =
     bindE (get_proc sc p) (\<lambda>pr.
       if p_threads pr \<noteq> 0
       then bindE (last_thread n sc (p_threads pr)) (\<lambda>l.
            bindE (get_thread sc l) (\<lambda>lt. Inr (put_thread l (lt\<lparr>th_next := t\<rparr>) sc)))
       else Inr (put_proc p (pr\<lparr>p_threads := t\<rparr>) sc))"

text \<open>\<open>memcpy(name, t->name, NAME_MAX)\<close> copies the empty name of the thread over the string passed as its name.\<close>

definition create_thread ::
  "nat \<Rightarrow> nat \<Rightarrow> u64 \<Rightarrow> u64 \<Rightarrow> u64 \<Rightarrow> u64 \<Rightarrow> u64 \<Rightarrow> bool \<Rightarrow> mm \<times> sched \<Rightarrow> (u64 \<times> mm \<times> sched) result" where
  "create_thread d n wrapper p name func func_arg is_user st =
     bindE (kalloc d n 224 (fst st)) (\<lambda>(t, s1).
     bindE (append_thread n p t (put_thread t zero_thread (snd st))) (\<lambda>sc1.
       let s2 = set_bytes (bytes_at name (th_name zero_thread) (vm_bytes s1)) s1;
           sc2 = sc1\<lparr>next_tid := next_tid sc1 + 1\<rparr>
       in bindE (if is_user then alloc_user_stack d n (proc_vmm (current_process sc2)) USER_STACK_START (proc_vmm p) s2
                 else alloc_kernel_stack d n s2) (\<lambda>(stack, s3).
            Inr (t, s3, put_thread t (zero_thread\<lparr>tid := next_tid sc1, th_status := READY, th_next := 0, th_stack := stack,
                   th_parent := p, th_context := new_context wrapper func func_arg stack is_user\<rparr>) sc2))))"

definition create_proc ::
  "nat \<Rightarrow> nat \<Rightarrow> u64 \<Rightarrow> u64 \<Rightarrow> u64 \<Rightarrow> u64 \<Rightarrow> vmm_value \<Rightarrow> bool \<Rightarrow> bool \<Rightarrow> mm \<times> sched \<Rightarrow> (u64 \<times> mm \<times> sched) result" where
  "create_proc d n wrapper lit_thread func func_arg vmm_instance add_to_queue is_user st =
     bindE (kalloc d n 128 (fst st)) (\<lambda>(p, s1).
       let sc1 = (put_proc p (zero_process\<lparr>pid := next_pid (snd st)\<rparr>) (snd st))\<lparr>next_pid := next_pid (snd st) + 1\<rparr>;
           s2 = store_vmm (proc_vmm p) vmm_instance s1
       in bindE (create_thread d n wrapper p lit_thread func func_arg is_user (s2, sc1)) (\<lambda>(t, s3, sc2).
          bindE (get_proc sc2 p) (\<lambda>pr.
            Inr (p, s3,
                 if add_to_queue
                 then (put_proc p (pr\<lparr>p_next := (if head_proc sc2 = 0 then 0 else head_proc sc2)\<rparr>) sc2)\<lparr>head_proc := p\<rparr>
                 else sc2))))"

text \<open>What \<open>kernel_thread_wrapper\<close> does when the function of the thread returns.\<close>

definition exit_thread :: "mm \<times> sched \<Rightarrow> (mm \<times> sched) result" where
  "exit_thread st =
     bindE (get_thread (snd st) (current_thread (snd st))) (\<lambda>th.
       Inr (fst st, put_thread (current_thread (snd st)) (th\<lparr>th_status := DEAD\<rparr>) (snd st)))"

section \<open>Switching and reaping\<close>

definition next_process :: "sched \<Rightarrow> u64 result" where
  "next_process sc =
     (if head_proc sc \<noteq> 0
      then bindE (get_proc sc (current_process sc)) (\<lambda>pr.
             Inr (if p_next pr = 0 then head_proc sc else p_next pr))
      else Inr (idle_proc sc))"

definition switch_process :: "nat \<Rightarrow> mm \<times> sched \<Rightarrow> (mm \<times> sched) result" where
  "switch_process n st =
     bindE (next_process (snd st)) (\<lambda>p.
     bindE (switch_vm_space n (proc_vmm p) (fst st)) (\<lambda>s1. Inr (s1, (snd st)\<lparr>current_process := p\<rparr>)))"

fun proc_before :: "nat \<Rightarrow> sched \<Rightarrow> u64 \<Rightarrow> u64 \<Rightarrow> u64 result" where
  "proc_before 0 sc q p = Inl Out_Of_Fuel"
| "proc_before (Suc n) sc q p =
     bindE (get_proc sc q) (\<lambda>pr. if p_next pr \<noteq> p then proc_before n sc (p_next pr) p else Inr q)"

definition unlink_process :: "nat \<Rightarrow> u64 \<Rightarrow> sched \<Rightarrow> sched result" where
  "unlink_process n p sc =
     (if head_proc sc = p
      then bindE (get_proc sc p) (\<lambda>pr. Inr (sc\<lparr>head_proc := p_next pr\<rparr>))
      else bindE (proc_before n sc (head_proc sc) p) (\<lambda>q.
           bindE (get_proc sc q) (\<lambda>qr.
           bindE (get_proc sc p) (\<lambda>pr. Inr (put_proc q (qr\<lparr>p_next := p_next pr\<rparr>) sc)))))"

fun thread_before :: "nat \<Rightarrow> sched \<Rightarrow> u64 \<Rightarrow> u64 \<Rightarrow> u64 result" where
  "thread_before 0 sc q t = Inl Out_Of_Fuel"
| "thread_before (Suc n) sc q t =
     bindE (get_thread sc q) (\<lambda>th. if th_next th \<noteq> t then thread_before n sc (th_next th) t else Inr q)"

definition unlink_thread :: "nat \<Rightarrow> u64 \<Rightarrow> sched \<Rightarrow> sched result" where
  "unlink_thread n t sc =
     bindE (get_thread sc t) (\<lambda>th.
     bindE (get_proc sc (th_parent th)) (\<lambda>pr.
       if p_threads pr = 0 then Inl Panic
       else if p_threads pr = t then Inr (put_proc (th_parent th) (pr\<lparr>p_threads := th_next th\<rparr>) sc)
       else bindE (thread_before n sc (p_threads pr) t) (\<lambda>q.
            bindE (get_thread sc q) (\<lambda>qh. Inr (put_thread q (qh\<lparr>th_next := th_next th\<rparr>) sc)))))"

text \<open>The regions of a process in front of the kernel text are freed; the list is read before each is freed.\<close>

fun free_regions :: "nat \<Rightarrow> nat \<Rightarrow> objref option \<Rightarrow> mm \<Rightarrow> mm result" where
  "free_regions 0 n r s = Inl Out_Of_Fuel"
| "free_regions (Suc k) n None s = Inl Null_Deref"
| "free_regions (Suc k) n (Some r) s =
     bindE (get_obj s r) (\<lambda>ob.
       if vo_base ob \<noteq> KERNEL_TEXT_START
       then bindE (vmm_free n (vo_base ob) s) (free_regions k n (vo_next ob))
       else Inr s)"

definition release_process :: "nat \<Rightarrow> u64 \<Rightarrow> mm \<times> sched \<Rightarrow> (mm \<times> sched) result" where
  "release_process n p st =
     bindE (free_regions n n (Some (Head (proc_vmm p))) (fst st)) (\<lambda>s1.
     bindE (switch_vm_space n (proc_vmm (idle_proc (snd st))) s1) (\<lambda>s2.
       case vmms (snd s2) (proc_vmm p) of
         None \<Rightarrow> Inl Null_Deref
       | Some vm \<Rightarrow>
           bindE (vmm_hashmap_remove n (pml4t vm) (hmap (snd s2))) (\<lambda>(_, hm).
           bindE (kfree (fst s2) p) (\<lambda>h. Inr ((h, (snd s2)\<lparr>hmap := hm\<rparr>), snd st)))))"

text \<open>\<open>k\<close> bounds the depth of the mutual recursion and the length of the thread list.\<close>

fun reap_thread :: "nat \<Rightarrow> nat \<Rightarrow> u64 \<Rightarrow> mm \<times> sched \<Rightarrow> (mm \<times> sched) result"
  and reap_process :: "nat \<Rightarrow> nat \<Rightarrow> u64 \<Rightarrow> mm \<times> sched \<Rightarrow> (mm \<times> sched) result"
  and reap_threads :: "nat \<Rightarrow> nat \<Rightarrow> u64 \<Rightarrow> mm \<times> sched \<Rightarrow> (mm \<times> sched) result"
where
  "reap_thread 0 n t st = Inl Out_Of_Fuel"
| "reap_thread (Suc k) n t st =
     bindE (get_thread (snd st) t) (\<lambda>th.
     bindE (vmm_free n (th_stack th) (fst st)) (\<lambda>s1.
     bindE (unlink_thread n t (snd st)) (\<lambda>sc1.
     bindE (get_proc sc1 (th_parent th)) (\<lambda>pr.
     bindE (if p_threads pr = 0 then reap_process k n (th_parent th) (s1, sc1) else Inr (s1, sc1)) (\<lambda>(s2, sc2).
     bindE (kfree (fst s2) t) (\<lambda>h. Inr ((h, snd s2), sc2)))))))"
| "reap_process 0 n p st = Inl Out_Of_Fuel"
| "reap_process (Suc k) n p st =
     bindE (unlink_process n p (snd st)) (\<lambda>sc1.
     bindE (get_proc sc1 p) (\<lambda>pr.
     bindE (reap_threads k n (p_threads pr) (fst st, sc1)) (release_process n p)))"
| "reap_threads 0 n t st = Inl Out_Of_Fuel"
| "reap_threads (Suc k) n t st =
     (if t = 0 then Inr st
      else bindE (get_thread (snd st) t) (\<lambda>th.
           bindE (reap_thread k n t st) (reap_threads k n (th_next th))))"

section \<open>The scheduler\<close>

definition save_context :: "cpu_context_t \<Rightarrow> sched \<Rightarrow> sched result" where
  "save_context context sc =
     bindE (get_proc sc (idle_proc sc)) (\<lambda>ip.
       if current_thread sc \<noteq> p_threads ip
       then bindE (get_thread sc (current_thread sc)) (\<lambda>th. Inr (put_thread (current_thread sc) (th\<lparr>th_context := context\<rparr>) sc))
       else Inr sc)"

definition retire :: "nat \<Rightarrow> nat \<Rightarrow> u64 \<Rightarrow> mm \<times> sched \<Rightarrow> (mm \<times> sched) result" where
  "retire k n prev_t st =
     bindE (get_thread (snd st) prev_t) (\<lambda>th.
       if th_status th = DEAD then reap_thread k n prev_t st
       else Inr (fst st, put_thread prev_t (th\<lparr>th_status := READY\<rparr>) (snd st)))"

definition switch_thread :: "nat \<Rightarrow> mm \<times> sched \<Rightarrow> (mm \<times> sched) result" where
  "switch_thread n st =
     bindE (get_thread (snd st) (current_thread (snd st))) (\<lambda>th.
       if th_next th \<noteq> 0 then Inr (fst st, (snd st)\<lparr>current_thread := th_next th\<rparr>)
       else bindE (switch_process n st) (\<lambda>(s1, sc1).
            bindE (get_proc sc1 (current_process sc1)) (\<lambda>pr. Inr (s1, sc1\<lparr>current_thread := p_threads pr\<rparr>))))"

definition mark_running :: "mm \<times> sched \<Rightarrow> (mm \<times> sched) result" where
  "mark_running st =
     bindE (get_thread (snd st) (current_thread (snd st))) (\<lambda>th.
       Inr (fst st, if th_status th = READY then put_thread (current_thread (snd st)) (th\<lparr>th_status := RUNNING\<rparr>) (snd st) else snd st))"

text \<open>The result stands for \<open>&current_thread->context\<close>.\<close>

definition schedule :: "nat \<Rightarrow> nat \<Rightarrow> cpu_context_t \<Rightarrow> mm \<times> sched \<Rightarrow> (cpu_context_t \<times> mm \<times> sched) result" where
  "schedule k n context st =
     bindE (save_context context (snd st)) (\<lambda>sc1.
     bindE (retire k n (current_thread sc1) (fst st, sc1)) (\<lambda>st2.
     bindE (switch_thread n st2) (\<lambda>st3.
     bindE (mark_running st3) (\<lambda>st4.
     bindE (get_thread (snd st4) (current_thread (snd st4))) (\<lambda>th. Inr (th_context th, st4))))))"

definition sched_init :: "nat \<Rightarrow> nat \<Rightarrow> u64 \<Rightarrow> u64 \<Rightarrow> u64 \<Rightarrow> mm \<times> sched \<Rightarrow> (mm \<times> sched) result" where
  "sched_init d n wrapper lit_thread idle_main st =
     bindE (create_vmm d n (fst st)) (\<lambda>(vm, s1).
     bindE (create_proc d n wrapper lit_thread idle_main 0 vm False False (s1, snd st)) (\<lambda>(p, s2, sc2).
     bindE (get_proc sc2 p) (\<lambda>pr.
       Inr (s2, sc2\<lparr>idle_proc := p, current_process := p, current_thread := p_threads pr\<rparr>))))"


section \<open>Status of threads\<close>

lemma get_thread_Inr [simp]: "get_thread sc t = Inr th \<longleftrightarrow> threads sc t = Some th"
  by (simp add: get_thread_def split: option.split)

lemma get_proc_Inr [simp]: "get_proc sc p = Inr pr \<longleftrightarrow> procs sc p = Some pr"
  by (simp add: get_proc_def split: option.split)

lemma put_simps [simp]:
  "threads (put_thread t th sc) = (threads sc)(t \<mapsto> th)" "procs (put_thread t th sc) = procs sc"
  "threads (put_proc p pr sc) = threads sc" "procs (put_proc p pr sc) = (procs sc)(p \<mapsto> pr)"
  "head_proc (put_thread t th sc) = head_proc sc" "idle_proc (put_thread t th sc) = idle_proc sc"
  "current_process (put_thread t th sc) = current_process sc" "current_thread (put_thread t th sc) = current_thread sc"
  "head_proc (put_proc p pr sc) = head_proc sc" "idle_proc (put_proc p pr sc) = idle_proc sc"
  "current_process (put_proc p pr sc) = current_process sc" "current_thread (put_proc p pr sc) = current_thread sc"
  by (simp_all add: put_thread_def put_proc_def)

text \<open>\<open>keeps_status sc sc'\<close>: no thread appears and every thread keeps its status.\<close>

definition keeps_status :: "sched \<Rightarrow> sched \<Rightarrow> bool" where
  "keeps_status sc sc' \<longleftrightarrow>
     (\<forall>t th'. threads sc' t = Some th' \<longrightarrow> (\<exists>th. threads sc t = Some th \<and> th_status th' = th_status th)) \<and>
     current_thread sc' = current_thread sc"

lemma keeps_status_refl: "keeps_status sc sc"
  by (simp add: keeps_status_def)

lemma keeps_status_trans: "keeps_status sc sc' \<Longrightarrow> keeps_status sc' sc'' \<Longrightarrow> keeps_status sc sc''"
  by (fastforce simp: keeps_status_def)

lemma keeps_status_next: "threads sc q = Some th \<Longrightarrow> keeps_status sc (put_thread q (th\<lparr>th_next := x\<rparr>) sc)"
  by (auto simp: keeps_status_def)

lemma keeps_status_proc: "keeps_status sc (put_proc p pr sc)"
  by (simp add: keeps_status_def)

lemma unlink_thread_keeps: "unlink_thread n t sc = Inr sc' \<Longrightarrow> keeps_status sc sc'"
  by (auto simp: unlink_thread_def bindE_eq_Inr intro: keeps_status_proc keeps_status_next split: if_splits)

lemma unlink_process_keeps: "unlink_process n p sc = Inr sc' \<Longrightarrow> keeps_status sc sc'"
  by (auto simp: unlink_process_def bindE_eq_Inr keeps_status_def split: if_splits)

lemma release_process_keeps: "release_process n p st = Inr st' \<Longrightarrow> snd st' = snd st"
  by (auto simp: release_process_def bindE_eq_Inr split: option.splits)

lemma reap_keeps:
  "reap_thread k n t st = Inr st' \<Longrightarrow> keeps_status (snd st) (snd st')"
  "reap_process k n p st = Inr st' \<Longrightarrow> keeps_status (snd st) (snd st')"
  "reap_threads k n t st = Inr st' \<Longrightarrow> keeps_status (snd st) (snd st')"
proof (induction k n t st and k n p st and k n t st arbitrary: st' and st' and st' rule: reap_thread_reap_process_reap_threads.induct)
  case (2 k n t st)
  from "2.prems" obtain th s1 sc1 pr st2 h where
      a: "threads (snd st) t = Some th" "vmm_free n (th_stack th) (fst st) = Inr s1" "unlink_thread n t (snd st) = Inr sc1"
      "procs sc1 (th_parent th) = Some pr"
      "(if p_threads pr = 0 then reap_process k n (th_parent th) (s1, sc1) else Inr (s1, sc1)) = Inr st2"
      and st': "st' = ((h, snd (fst st2)), snd st2)"
    by (auto simp: bindE_eq_Inr)
  have "keeps_status sc1 (snd st2)"
    using a(5) "2.IH" [OF _ a(2,3)] a(1,4) by (auto simp: keeps_status_refl split: if_splits)
  with unlink_thread_keeps [OF a(3)] st' show ?case by (auto intro: keeps_status_trans)
next
  case (4 k n p st)
  from "4.prems" obtain sc1 pr st2 where a: "unlink_process n p (snd st) = Inr sc1" "procs sc1 p = Some pr"
      "reap_threads k n (p_threads pr) (fst st, sc1) = Inr st2" "release_process n p st2 = Inr st'"
    by (auto simp: bindE_eq_Inr)
  have "keeps_status sc1 (snd st2)" using "4.IH" [OF a(1) _ a(3)] a(2) by simp
  with unlink_process_keeps [OF a(1)] release_process_keeps [OF a(4)] show ?case by (auto intro: keeps_status_trans)
next
  case (6 k n t st)
  show ?case
  proof (cases "t = 0")
    case True
    then show ?thesis using "6.prems" by (simp add: keeps_status_refl)
  next
    case False
    then obtain th st2 where a: "threads (snd st) t = Some th" "reap_thread k n t st = Inr st2" "reap_threads k n (th_next th) st2 = Inr st'"
      using "6.prems" by (auto simp: bindE_eq_Inr)
    from "6.IH"(1) [OF False _ a(2)] "6.IH"(2) [OF False _ a(2,3)] a(1) show ?thesis by (auto intro: keeps_status_trans)
  qed
qed simp_all

text \<open>Only the current thread can be running.\<close>

definition only_current_running :: "sched \<Rightarrow> bool" where
  "only_current_running sc \<longleftrightarrow> (\<forall>t th. threads sc t = Some th \<and> th_status th = RUNNING \<longrightarrow> t = current_thread sc)"

definition none_running :: "sched \<Rightarrow> bool" where
  "none_running sc \<longleftrightarrow> (\<forall>t th. threads sc t = Some th \<longrightarrow> th_status th \<noteq> RUNNING)"

lemma keeps_status_running: "keeps_status sc sc' \<Longrightarrow> only_current_running sc \<Longrightarrow> only_current_running sc'"
  by (fastforce simp: keeps_status_def only_current_running_def)

lemma save_context_status:
  "save_context c sc = Inr sc' \<Longrightarrow> only_current_running sc \<Longrightarrow> only_current_running sc' \<and> current_thread sc' = current_thread sc"
  by (auto simp: save_context_def bindE_eq_Inr only_current_running_def split: if_splits)

lemma retire_status:
  assumes "retire k n (current_thread (snd st)) st = Inr st'" and "only_current_running (snd st)"
  shows "none_running (snd st')"
proof -
  obtain th where th: "threads (snd st) (current_thread (snd st)) = Some th"
      "if th_status th = DEAD then reap_thread k n (current_thread (snd st)) st = Inr st'
       else st' = (fst st, put_thread (current_thread (snd st)) (th\<lparr>th_status := READY\<rparr>) (snd st))"
    using assms(1) by (auto simp: retire_def bindE_eq_Inr split: if_splits)
  show ?thesis
  proof (cases "th_status th = DEAD")
    case True
    then have "none_running (snd st)" using th(1) assms(2) by (fastforce simp: only_current_running_def none_running_def)
    moreover have "keeps_status (snd st) (snd st')" using True th(2) reap_keeps(1) by auto
    ultimately show ?thesis by (fastforce simp: keeps_status_def none_running_def)
  next
    case False
    then show ?thesis using th assms(2) by (auto simp: only_current_running_def none_running_def)
  qed
qed

lemma switch_thread_status: "switch_thread n st = Inr st' \<Longrightarrow> threads (snd st') = threads (snd st)"
  by (auto simp: switch_thread_def switch_process_def bindE_eq_Inr split: if_splits)

lemma schedule_status:
  assumes "schedule k n c st = Inr (c', st')" and "only_current_running (snd st)"
  shows "only_current_running (snd st')"
proof -
  obtain sc1 st2 st3 where a: "save_context c (snd st) = Inr sc1" "retire k n (current_thread sc1) (fst st, sc1) = Inr st2"
      "switch_thread n st2 = Inr st3" "mark_running st3 = Inr st'"
    using assms(1) by (auto simp: schedule_def bindE_eq_Inr)
  have "none_running (snd st2)"
    using retire_status [of k n "(fst st, sc1)" st2] a(2) save_context_status [OF a(1) assms(2)] by simp
  then have "none_running (snd st3)" using switch_thread_status [OF a(3)] by (simp add: none_running_def)
  then show ?thesis using a(4) by (auto simp: mark_running_def bindE_eq_Inr none_running_def only_current_running_def split: if_splits)
qed

lemma append_thread_keeps: "append_thread n p t sc = Inr sc' \<Longrightarrow> keeps_status sc sc'"
  by (auto simp: append_thread_def bindE_eq_Inr intro: keeps_status_proc keeps_status_next split: if_splits)

text \<open>Creating threads and processes makes no thread running.\<close>

definition running :: "sched \<Rightarrow> u64 set" where
  "running sc = {t. \<exists>th. threads sc t = Some th \<and> th_status th = RUNNING}"

lemma only_current_running_iff: "only_current_running sc \<longleftrightarrow> running sc \<subseteq> {current_thread sc}"
  by (auto simp: only_current_running_def running_def)

lemma keeps_status_subset: "keeps_status sc sc' \<Longrightarrow> running sc' \<subseteq> running sc"
  by (fastforce simp: keeps_status_def running_def)

lemma create_thread_status:
  assumes "create_thread d n w p nm f a u st = Inr (t, st')"
  shows "running (snd st') \<subseteq> running (snd st) \<and> current_thread (snd st') = current_thread (snd st)"
proof -
  obtain sc1 s3 stack where a: "append_thread n p t (put_thread t zero_thread (snd st)) = Inr sc1"
      "st' = (s3, put_thread t (zero_thread\<lparr>tid := next_tid sc1, th_status := READY, th_next := 0, th_stack := stack,
         th_parent := p, th_context := new_context w f a stack u\<rparr>) (sc1\<lparr>next_tid := next_tid sc1 + 1\<rparr>))"
    using assms by (auto simp: create_thread_def bindE_eq_Inr Let_def)
  have k: "keeps_status (put_thread t zero_thread (snd st)) sc1" by (rule append_thread_keeps [OF a(1)])
  have "running (snd st') \<subseteq> running sc1" by (auto simp: a(2) running_def split: if_splits)
  also have "\<dots> \<subseteq> running (put_thread t zero_thread (snd st))" by (rule keeps_status_subset [OF k])
  also have "\<dots> \<subseteq> running (snd st)" by (auto simp: running_def zero_thread_def split: if_splits)
  finally show ?thesis using k by (simp add: a(2) keeps_status_def)
qed

lemma create_proc_status:
  assumes "create_proc d n w l f a vm q u st = Inr (p, st')"
  shows "running (snd st') \<subseteq> running (snd st) \<and> current_thread (snd st') = current_thread (snd st)"
proof -
  obtain s1 t s3 sc2 where a: "create_thread d n w p l f a u (store_vmm (proc_vmm p) vm s1,
        (put_proc p (zero_process\<lparr>pid := next_pid (snd st)\<rparr>) (snd st))\<lparr>next_pid := next_pid (snd st) + 1\<rparr>) = Inr (t, s3, sc2)"
      "threads (snd st') = threads sc2" "current_thread (snd st') = current_thread sc2"
    using assms by (auto simp: create_proc_def bindE_eq_Inr Let_def split: if_splits)
  from create_thread_status [OF a(1)] a(2,3) show ?thesis by (simp add: running_def)
qed

text \<open>The events that act on the scheduler: a timer or keyboard tick, the end of the current thread, a new process.\<close>

inductive sched_step :: "mm \<times> sched \<Rightarrow> mm \<times> sched \<Rightarrow> bool" where
  tick: "schedule k n context st = Inr (c, st') \<Longrightarrow> sched_step st st'"
| thread_exit: "exit_thread st = Inr st' \<Longrightarrow> sched_step st st'"
| new_process: "create_proc d n wrapper lit_thread func func_arg vm add_to_queue is_user st = Inr (p, st') \<Longrightarrow> sched_step st st'"

lemma sched_step_status: "sched_step st st' \<Longrightarrow> only_current_running (snd st) \<Longrightarrow> only_current_running (snd st')"
proof (induction rule: sched_step.induct)
  case (thread_exit st st')
  then show ?case by (auto simp: exit_thread_def bindE_eq_Inr only_current_running_def split: if_splits)
next
  case (tick k n ctx st c st')
  then show ?case by (blast intro: schedule_status)
next
  case (new_process d n wrapper lit_thread func func_arg vm add_to_queue is_user st p st')
  then show ?case using create_proc_status [OF new_process.hyps] by (auto simp: only_current_running_iff)
qed


section \<open>The run queue as a ring\<close>

fun links :: "(u64 \<rightharpoonup> u64) \<Rightarrow> u64 \<Rightarrow> u64 list \<Rightarrow> bool" where
  "links nx a [] \<longleftrightarrow> a = 0"
| "links nx a (x # xs) \<longleftrightarrow> a = x \<and> x \<noteq> 0 \<and> (case nx x of None \<Rightarrow> False | Some b \<Rightarrow> links nx b xs)"

lemma links_start: "links nx a xs \<Longrightarrow> xs \<noteq> [] \<Longrightarrow> a = hd xs \<and> a \<noteq> 0"
  by (cases xs) auto

lemma links_nth: "links nx a xs \<Longrightarrow> i < length xs \<Longrightarrow> nx (xs ! i) = Some (if Suc i < length xs then xs ! Suc i else 0) \<and> xs ! i \<noteq> 0"
proof (induction nx a xs arbitrary: i rule: links.induct)
  case (2 nx a x xs)
  then obtain b where b: "nx x = Some b" "links nx b xs" "x \<noteq> 0" by (auto split: option.splits)
  show ?case
  proof (cases i)
    case 0
    then show ?thesis using b links_start [OF b(2)] by (cases xs) (auto simp: hd_conv_nth)
  next
    case (Suc k)
    then show ?thesis using "2.IH" [OF b(1,2), of k] "2.prems"(2) by simp
  qed
qed simp

type_synonym run_list = "(u64 \<times> u64 list) list"

definition ring :: "run_list \<Rightarrow> (u64 \<times> u64) list" where
  "ring q = concat (map (\<lambda>(p, ts). map (Pair p) ts) q)"

lemma ring_Cons [simp]: "ring ((p, ts) # q) = map (Pair p) ts @ ring q" and ring_Nil [simp]: "ring [] = []"
  by (simp_all add: ring_def)

lemma ring_0: "q \<noteq> [] \<Longrightarrow> \<forall>x \<in> set q. snd x \<noteq> [] \<Longrightarrow> ring q \<noteq> [] \<and> ring q ! 0 = (fst (q ! 0), hd (snd (q ! 0)))"
  by (cases q) (auto simp: nth_append hd_conv_nth)

text \<open>Position \<open>r\<close> of the ring is thread \<open>j\<close> of process \<open>i\<close>; its successor is the next thread or the first thread of the next process.\<close>

definition ring_at :: "run_list \<Rightarrow> nat \<Rightarrow> nat \<Rightarrow> nat \<Rightarrow> bool" where
  "ring_at q r i j \<longleftrightarrow> i < length q \<and> j < length (snd (q ! i)) \<and> ring q ! r = (fst (q ! i), snd (q ! i) ! j) \<and>
     (if Suc j < length (snd (q ! i)) then Suc r < length (ring q) \<and> ring q ! Suc r = (fst (q ! i), snd (q ! i) ! Suc j)
      else if Suc i < length q then Suc r < length (ring q) \<and> ring q ! Suc r = (fst (q ! Suc i), hd (snd (q ! Suc i)))
      else Suc r = length (ring q))"

lemma ring_position: "r < length (ring q) \<Longrightarrow> \<forall>x \<in> set q. snd x \<noteq> [] \<Longrightarrow> \<exists>i j. ring_at q r i j"
proof (induction q arbitrary: r)
  case (Cons x q)
  obtain p ts where x: "x = (p, ts)" by (cases x)
  show ?case
  proof (cases "r < length ts")
    case True
    have "q \<noteq> [] \<Longrightarrow> ring q \<noteq> [] \<and> ring q ! 0 = (fst (q ! 0), hd (snd (q ! 0)))" using ring_0 Cons.prems(2) by simp
    moreover from this have "Suc r < length ts + length (ring q)" if "q \<noteq> []"
      using that True length_greater_0_conv [of "ring q"] by linarith
    moreover have "Suc r = length ts" if "\<not> Suc r < length ts" using that True by simp
    ultimately have "ring_at (x # q) r 0 r" using True
      by (cases "Suc r < length ts"; cases "q = []") (auto simp: ring_at_def x nth_append)
    then show ?thesis by blast
  next
    case False
    then have "r - length ts < length (ring q)" using Cons.prems(1) by (simp add: x)
    from Cons.IH [OF this] Cons.prems(2) obtain i j where ij: "ring_at q (r - length ts) i j" by auto
    have nth: "ring (x # q) ! r = ring q ! (r - length ts)" "ring (x # q) ! Suc r = ring q ! Suc (r - length ts)"
      using False by (simp_all add: x nth_append Suc_diff_le)
    have len: "Suc r < length (ring (x # q)) \<longleftrightarrow> Suc (r - length ts) < length (ring q)"
        "Suc r = length (ring (x # q)) \<longleftrightarrow> Suc (r - length ts) = length (ring q)"
      using False by (auto simp: x)
    have "ring_at (x # q) r (Suc i) j"
      using ij unfolding ring_at_def nth len length_Cons Suc_less_eq nth_Cons_Suc by blast
    then show ?thesis by blast
  qed
qed simp

definition thread_next :: "sched \<Rightarrow> u64 \<rightharpoonup> u64" where
  "thread_next sc t = map_option th_next (threads sc t)"

definition proc_next :: "sched \<Rightarrow> u64 \<rightharpoonup> u64" where
  "proc_next sc p = map_option p_next (procs sc p)"

lemma next_simps [simp]:
  "thread_next (sc\<lparr>current_thread := x\<rparr>) = thread_next sc" "proc_next (sc\<lparr>current_thread := x\<rparr>) = proc_next sc"
  "thread_next (sc\<lparr>current_process := x\<rparr>) = thread_next sc" "proc_next (sc\<lparr>current_process := x\<rparr>) = proc_next sc"
  by (simp_all add: thread_next_def proc_next_def fun_eq_iff)

definition run_queue :: "sched \<Rightarrow> run_list \<Rightarrow> bool" where
  "run_queue sc q \<longleftrightarrow> q \<noteq> [] \<and> links (proc_next sc) (head_proc sc) (map fst q) \<and>
     (\<forall>x \<in> set q. snd x \<noteq> [] \<and>
        (case procs sc (fst x) of None \<Rightarrow> False | Some pr \<Rightarrow> links (thread_next sc) (p_threads pr) (snd x)))"

definition space_ready :: "nat \<Rightarrow> mm \<Rightarrow> u64 \<Rightarrow> bool" where
  "space_ready n s p \<longleftrightarrow>
     (case vmms (snd s) (proc_vmm p) of None \<Rightarrow> False | Some vm \<Rightarrow> \<not> isl (get_ptbl_vaddr n (hmap (snd s)) (pml4t vm)))"

definition alive :: "sched \<Rightarrow> u64 \<Rightarrow> bool" where
  "alive sc t \<longleftrightarrow> (case threads sc t of None \<Rightarrow> False | Some th \<Rightarrow> th_status th \<noteq> DEAD)"

definition idle_outside :: "sched \<Rightarrow> run_list \<Rightarrow> bool" where
  "idle_outside sc q \<longleftrightarrow> (case procs sc (idle_proc sc) of None \<Rightarrow> False | Some ip \<Rightarrow> p_threads ip \<notin> snd ` set (ring q))"

text \<open>The processor translates with the tables of the current process.\<close>

definition in_space :: "mm \<times> sched \<Rightarrow> bool" where
  "in_space st \<longleftrightarrow>
     (case vmms (snd (fst st)) (proc_vmm (current_process (snd st))) of None \<Rightarrow> False | Some vm \<Rightarrow> cr3 (snd (fst st)) = pml4t vm)"

lemma in_space_iff: "in_space (s, sc) \<longleftrightarrow> (\<exists>vm. vmms (snd s) (proc_vmm (current_process sc)) = Some vm \<and> cr3 (snd s) = pml4t vm)"
  by (simp add: in_space_def split: option.split)

definition on_ring :: "nat \<Rightarrow> run_list \<Rightarrow> nat \<Rightarrow> mm \<times> sched \<Rightarrow> bool" where
  "on_ring n q r st \<longleftrightarrow>
     run_queue (snd st) q \<and> (\<forall>x \<in> set (ring q). alive (snd st) (snd x)) \<and> (\<forall>x \<in> set q. space_ready n (fst st) (fst x)) \<and>
     idle_outside (snd st) q \<and> in_space st \<and> r < length (ring q) \<and> (current_process (snd st), current_thread (snd st)) = ring q ! r"

definition contexts :: "sched \<Rightarrow> u64 \<rightharpoonup> cpu_context_t" where
  "contexts sc t = map_option th_context (threads sc t)"

lemma thread_next_put: "threads sc t = Some th \<Longrightarrow> th_next th' = th_next th \<Longrightarrow> thread_next (put_thread t th' sc) = thread_next sc"
  by (auto simp: thread_next_def)

lemma proc_next_put [simp]: "proc_next (put_thread t th sc) = proc_next sc"
  by (simp add: proc_next_def fun_eq_iff)

lemma on_ring_put_thread:
  assumes "on_ring n q r (s, sc)" and "threads sc t = Some th" and "th_next th' = th_next th" and "th_status th' \<noteq> DEAD"
  shows "on_ring n q r (s, put_thread t th' sc)"
  using assms thread_next_put [OF assms(2,3)]
  by (auto simp: on_ring_def run_queue_def alive_def idle_outside_def in_space_def split: option.splits)

lemma on_ring_current:
  assumes "on_ring n q r st"
  obtains th where "threads (snd st) (current_thread (snd st)) = Some th" "th_status th \<noteq> DEAD"
proof -
  have "ring q ! r \<in> set (ring q)" using assms by (simp add: on_ring_def)
  then have "alive (snd st) (current_thread (snd st))" using assms by (metis on_ring_def snd_conv)
  then show ?thesis using that by (auto simp: alive_def split: option.splits)
qed

lemma save_context_ring:
  assumes "on_ring n q r (s, sc)"
  shows "\<exists>sc'. save_context c sc = Inr sc' \<and> on_ring n q r (s, sc') \<and> contexts sc' = (contexts sc)(current_thread sc \<mapsto> c) \<and>
    current_thread sc' = current_thread sc"
proof -
  obtain th where th: "threads sc (current_thread sc) = Some th" "th_status th \<noteq> DEAD" using on_ring_current [OF assms] by auto
  obtain ip where ip: "procs sc (idle_proc sc) = Some ip" "p_threads ip \<notin> snd ` set (ring q)"
    using assms by (auto simp: on_ring_def idle_outside_def split: option.splits)
  have "ring q ! r \<in> set (ring q)" "snd (ring q ! r) = current_thread sc"
    using assms by (auto simp: on_ring_def dest: sym)
  then have "current_thread sc \<noteq> p_threads ip" using ip(2) by (metis imageI)
  then have "save_context c sc = Inr (put_thread (current_thread sc) (th\<lparr>th_context := c\<rparr>) sc)"
    using ip th by (simp add: save_context_def get_proc_def get_thread_def)
  moreover have "on_ring n q r (s, put_thread (current_thread sc) (th\<lparr>th_context := c\<rparr>) sc)"
    using th by (intro on_ring_put_thread [OF assms]) simp_all
  ultimately show ?thesis by (auto simp: contexts_def)
qed

lemma retire_ring:
  assumes "on_ring n q r st"
  shows "\<exists>st'. retire k n (current_thread (snd st)) st = Inr st' \<and> on_ring n q r st' \<and> contexts (snd st') = contexts (snd st) \<and>
    fst st' = fst st"
proof -
  obtain th where th: "threads (snd st) (current_thread (snd st)) = Some th" "th_status th \<noteq> DEAD" using on_ring_current [OF assms] .
  have "on_ring n q r (fst st, put_thread (current_thread (snd st)) (th\<lparr>th_status := READY\<rparr>) (snd st))"
    using th assms by (intro on_ring_put_thread) simp_all
  with th show ?thesis by (auto simp: retire_def get_thread_def contexts_def)
qed

lemma mark_running_ring:
  assumes "on_ring n q r st"
  shows "\<exists>st' th. mark_running st = Inr st' \<and> on_ring n q r st' \<and> contexts (snd st') = contexts (snd st) \<and> fst st' = fst st \<and>
    threads (snd st') (current_thread (snd st')) = Some th"
proof -
  obtain th where th: "threads (snd st) (current_thread (snd st)) = Some th" "th_status th \<noteq> DEAD" using on_ring_current [OF assms] .
  have "on_ring n q r (fst st, put_thread (current_thread (snd st)) (th\<lparr>th_status := RUNNING\<rparr>) (snd st))"
    using th assms by (intro on_ring_put_thread) simp_all
  with th assms show ?thesis by (auto simp: mark_running_def get_thread_def contexts_def)
qed

lemma switch_vm_space_ready:
  assumes "space_ready n s p"
  shows "\<exists>s'. switch_vm_space n (proc_vmm p) s = Inr s' \<and> hmap (snd s') = hmap (snd s) \<and> vmms (snd s') = vmms (snd s) \<and>
    in_space (s', sc\<lparr>current_process := p\<rparr>)"
proof -
  obtain vm t where "vmms (snd s) (proc_vmm p) = Some vm" "get_ptbl_vaddr n (hmap (snd s)) (pml4t vm) = Inr t"
    using assms unfolding space_ready_def by (cases "vmms (snd s) (proc_vmm p)") (auto simp: isl_def split: sum.splits, metis isl_def sum.exhaust)
  then show ?thesis by (simp add: switch_vm_space_def in_space_def)
qed


lemma Suc_mod_length: "i < length xs \<Longrightarrow> Suc i mod length xs = (if Suc i < length xs then Suc i else 0)"
  by (cases "Suc i = length xs") auto

lemma ring_queue_next:
  assumes "run_queue sc q" and "i < length q" and "current_process sc = fst (q ! i)"
  shows "next_process sc = Inr (fst (q ! (Suc i mod length q)))"
proof -
  have l: "links (proc_next sc) (head_proc sc) (map fst q)" using assms(1) by (simp add: run_queue_def)
  have h: "head_proc sc = fst (q ! 0)" "head_proc sc \<noteq> 0"
    using links_start [OF l] assms(1) by (auto simp: run_queue_def hd_map hd_conv_nth)
  have "proc_next sc (fst (q ! i)) = Some (if Suc i < length q then fst (q ! Suc i) else 0)"
    using links_nth [OF l, of i] assms(2) by simp
  then obtain pr where pr: "procs sc (fst (q ! i)) = Some pr" "p_next pr = (if Suc i < length q then fst (q ! Suc i) else 0)"
    by (auto simp: proc_next_def)
  have "fst (q ! Suc i) \<noteq> 0" if "Suc i < length q" using links_nth [OF l, of "Suc i"] that by simp
  moreover note Suc_mod_length [OF assms(2)]
  ultimately show ?thesis using pr h assms(3) by (simp add: next_process_def get_proc_def)
qed

text \<open>The switch to the next thread of a process, and from the last thread of a process to the first one of the next process.\<close>

lemma queue_proc:
  assumes "run_queue sc q" and "i < length q"
  obtains pr where "procs sc (fst (q ! i)) = Some pr" "links (thread_next sc) (p_threads pr) (snd (q ! i))" "snd (q ! i) \<noteq> []"
  using assms(1) nth_mem [OF assms(2)] that by (fastforce simp: run_queue_def split: option.splits)

lemma ring_thread:
  assumes "run_queue sc q" and i: "i < length q" "j < length (snd (q ! i))"
  obtains th where "threads sc (snd (q ! i) ! j) = Some th" "snd (q ! i) ! j \<noteq> 0"
    "th_next th = (if Suc j < length (snd (q ! i)) then snd (q ! i) ! Suc j else 0)"
proof -
  obtain pr where "procs sc (fst (q ! i)) = Some pr" "links (thread_next sc) (p_threads pr) (snd (q ! i))"
    using queue_proc [OF assms(1) i(1)] .
  from links_nth [OF this(2) i(2)] show ?thesis using that by (auto simp: thread_next_def)
qed

lemma switch_within_process:
  assumes on: "on_ring n q r st" and ij: "ring_at q r i j" and j: "Suc j < length (snd (q ! i))"
  shows "\<exists>st'. switch_thread n st = Inr st' \<and> on_ring n q (Suc r mod length (ring q)) st' \<and> threads (snd st') = threads (snd st) \<and>
    vmms (snd (fst st')) = vmms (snd (fst st))"
proof -
  have rq: "run_queue (snd st) q" and i: "i < length q" "j < length (snd (q ! i))" and cur: "current_process (snd st) = fst (q ! i)" "current_thread (snd st) = snd (q ! i) ! j"
    using on ij by (auto simp: on_ring_def ring_at_def)
  have r': "Suc r mod length (ring q) < length (ring q)" "ring q ! (Suc r mod length (ring q)) = (fst (q ! i), snd (q ! i) ! Suc j)"
    using ij j by (auto simp: ring_at_def)
  obtain th where th: "threads (snd st) (current_thread (snd st)) = Some th" "th_next th = snd (q ! i) ! Suc j"
    using ring_thread [OF rq i] j cur(2) by auto
  have "snd (q ! i) ! Suc j \<noteq> 0" using ring_thread [OF rq i(1) j] by blast
  then have "switch_thread n st = Inr (fst st, (snd st)\<lparr>current_thread := snd (q ! i) ! Suc j\<rparr>)"
    using th by (simp add: switch_thread_def get_thread_def)
  moreover have "on_ring n q (Suc r mod length (ring q)) (fst st, (snd st)\<lparr>current_thread := snd (q ! i) ! Suc j\<rparr>)"
    using on r' by (auto simp: on_ring_def cur run_queue_def alive_def idle_outside_def in_space_def split: option.splits)
  ultimately show ?thesis by auto
qed

lemma switch_to_next_process:
  assumes on: "on_ring n q r st" and ij: "ring_at q r i j" and j: "\<not> Suc j < length (snd (q ! i))"
  shows "\<exists>st'. switch_thread n st = Inr st' \<and> on_ring n q (Suc r mod length (ring q)) st' \<and> threads (snd st') = threads (snd st) \<and>
    vmms (snd (fst st')) = vmms (snd (fst st))"
proof -
  let ?i = "Suc i mod length q"
  have rq: "run_queue (snd st) q" and r: "r < length (ring q)" and i: "i < length q" "j < length (snd (q ! i))"
    and cur: "current_process (snd st) = fst (q ! i)" "current_thread (snd st) = snd (q ! i) ! j"
    using on ij by (auto simp: on_ring_def ring_at_def)
  have ne: "\<forall>x \<in> set q. snd x \<noteq> []" and z: "ring q \<noteq> [] \<and> ring q ! 0 = (fst (q ! 0), hd (snd (q ! 0)))"
    using ring_0 [of q] rq by (auto simp: run_queue_def)
  have i': "?i < length q" using i(1) by (intro mod_less_divisor) auto
  obtain th where th: "threads (snd st) (current_thread (snd st)) = Some th" "th_next th = 0"
    using ring_thread [OF rq i] j cur(2) by auto
  obtain s' where s': "switch_vm_space n (proc_vmm (fst (q ! ?i))) (fst st) = Inr s'" "hmap (snd s') = hmap (snd (fst st))"
      "vmms (snd s') = vmms (snd (fst st))" "in_space (s', (snd st)\<lparr>current_process := fst (q ! ?i)\<rparr>)"
    using switch_vm_space_ready [of n "fst st" "fst (q ! ?i)"] on nth_mem [OF i'] unfolding on_ring_def by blast
  obtain pr where pr: "procs (snd st) (fst (q ! ?i)) = Some pr" "links (thread_next (snd st)) (p_threads pr) (snd (q ! ?i))"
    using queue_proc [OF rq i'] .
  let ?sc = "(snd st)\<lparr>current_process := fst (q ! ?i), current_thread := hd (snd (q ! ?i))\<rparr>"
  have "p_threads pr = hd (snd (q ! ?i))" using links_start [OF pr(2)] ne i' by simp
  then have sw: "switch_thread n st = Inr (s', ?sc)"
    using th ring_queue_next [OF rq i(1) cur(1)] s'(1) pr(1)
    by (simp add: switch_thread_def switch_process_def get_thread_def get_proc_def)
  have "ring q ! (Suc r mod length (ring q)) = (fst (q ! ?i), hd (snd (q ! ?i)))"
    using ij j z Suc_mod_length [OF i(1)] by (cases "Suc i < length q") (auto simp: ring_at_def)
  moreover have "Suc r mod length (ring q) < length (ring q)" using r by (intro mod_less_divisor) auto
  ultimately have "on_ring n q (Suc r mod length (ring q)) (s', ?sc)"
    using on s'(2-4)
    by (auto simp: on_ring_def run_queue_def alive_def idle_outside_def space_ready_def in_space_def split: option.splits)
  then show ?thesis using sw s'(3) by auto
qed

lemma switch_thread_ring:
  assumes "on_ring n q r st"
  shows "\<exists>st'. switch_thread n st = Inr st' \<and> on_ring n q (Suc r mod length (ring q)) st' \<and> threads (snd st') = threads (snd st) \<and>
    vmms (snd (fst st')) = vmms (snd (fst st))"
proof -
  have "r < length (ring q)" "\<forall>x \<in> set q. snd x \<noteq> []" using assms by (auto simp: on_ring_def run_queue_def)
  from ring_position [OF this] obtain i j where "ring_at q r i j" by blast
  then show ?thesis
    using switch_within_process [OF assms] switch_to_next_process [OF assms] by blast
qed

lemma schedule_ring:
  assumes "on_ring n q r st"
  shows "\<exists>c' st'. schedule k n c st = Inr (c', st') \<and> on_ring n q (Suc r mod length (ring q)) st' \<and>
    contexts (snd st') = (contexts (snd st))(current_thread (snd st) \<mapsto> c) \<and> contexts (snd st') (current_thread (snd st')) = Some c' \<and>
    vmms (snd (fst st')) = vmms (snd (fst st))"
proof -
  have "on_ring n q r (fst st, snd st)" using assms by simp
  from save_context_ring [OF this] obtain sc1 where 1: "save_context c (snd st) = Inr sc1" "on_ring n q r (fst st, sc1)"
      "contexts sc1 = (contexts (snd st))(current_thread (snd st) \<mapsto> c)"
    by blast
  from retire_ring [OF 1(2), of k] obtain st2 where 2: "retire k n (current_thread sc1) (fst st, sc1) = Inr st2" "on_ring n q r st2"
      "contexts (snd st2) = contexts sc1" "fst st2 = fst st"
    by (metis fst_conv snd_conv)
  from switch_thread_ring [OF 2(2)] obtain st3 where 3: "switch_thread n st2 = Inr st3"
      "on_ring n q (Suc r mod length (ring q)) st3" "threads (snd st3) = threads (snd st2)"
      "vmms (snd (fst st3)) = vmms (snd (fst st2))"
    by blast
  from mark_running_ring [OF 3(2)] obtain st4 th where 4: "mark_running st3 = Inr st4"
      "on_ring n q (Suc r mod length (ring q)) st4" "contexts (snd st4) = contexts (snd st3)" "fst st4 = fst st3"
      "threads (snd st4) (current_thread (snd st4)) = Some th"
    by blast
  have "contexts (snd st3) = contexts (snd st2)" using 3(3) by (simp add: contexts_def fun_eq_iff)
  moreover have "contexts (snd st4) (current_thread (snd st4)) = Some (th_context th)" using 4(5) by (simp add: contexts_def)
  ultimately show ?thesis using 1 2 3 4 by (auto simp: schedule_def get_thread_def)
qed


text \<open>A run of ticks, each with the context of the thread it interrupts; the result is the context in force at the end.\<close>

abbreviation ticks :: "nat \<Rightarrow> nat \<Rightarrow> cpu_context_t \<Rightarrow> cpu_context_t list \<Rightarrow> mm \<times> sched \<Rightarrow> (cpu_context_t \<times> mm \<times> sched) result" where
  "ticks k n \<equiv> run_steps (schedule k n)"

text \<open>The contexts of the threads by their place in the ring.\<close>

definition ring_contexts :: "run_list \<Rightarrow> sched \<Rightarrow> nat \<Rightarrow> cpu_context_t option" where
  "ring_contexts q sc i = contexts sc (snd (ring q ! i))"

lemma on_ring_thread: "on_ring n q i st \<Longrightarrow> i < length (ring q) \<and> current_thread (snd st) = snd (ring q ! i)"
  by (auto simp: on_ring_def dest: sym [of _ "ring q ! i"])

lemma ring_contexts_update:
  assumes "distinct (map snd (ring q))" and "i < length (ring q)" and "j < length (ring q)"
    and "contexts sc' = (contexts sc)(snd (ring q ! i) \<mapsto> c)"
  shows "ring_contexts q sc' j = (if j = i then Some c else ring_contexts q sc j)"
  using assms nth_eq_iff_index_eq [OF assms(1), of j i] by (simp add: ring_contexts_def)

interpretation turn: ring_stepper "schedule k n" "on_ring n q" "length (ring q)" for k n q
  by unfold_locales (use on_ring_thread schedule_ring in blast)+

interpretation robin: round_robin "schedule k n" "\<lambda>i st. on_ring n q i st \<and> distinct (map snd (ring q)) \<and> vmms (snd (fst st)) = V"
    "length (ring q)" "\<lambda>st. ring_contexts q (snd st)" for k n q V
proof
  fix i st c c' st'
  assume "on_ring n q i st \<and> distinct (map snd (ring q)) \<and> vmms (snd (fst st)) = V" "schedule k n c st = Inr (c', st')"
  then have i: "i < length (ring q)" "distinct (map snd (ring q))" "on_ring n q (Suc i mod length (ring q)) st'"
      "contexts (snd st') = (contexts (snd st))(snd (ring q ! i) \<mapsto> c)" "contexts (snd st') (current_thread (snd st')) = Some c'"
    using schedule_ring [of n q i st k c] on_ring_thread [of n q i st] by auto
  show "ring_contexts q (snd st') (Suc i mod length (ring q)) = Some c'"
    using i(5) on_ring_thread [OF i(3)] by (simp add: ring_contexts_def)
  show "ring_contexts q (snd st') j = (if j = i then Some c else ring_contexts q (snd st) j)" if "j < length (ring q)" for j
    by (rule ring_contexts_update [OF i(2,1) that i(4)])
next
  fix i st c
  assume i: "on_ring n q i st \<and> distinct (map snd (ring q)) \<and> vmms (snd (fst st)) = V"
  show "i < length (ring q)" using i on_ring_thread by blast
  show "\<exists>c' st'. schedule k n c st = Inr (c', st') \<and>
      on_ring n q (Suc i mod length (ring q)) st' \<and> distinct (map snd (ring q)) \<and> vmms (snd (fst st')) = V"
    using i schedule_ring [of n q i st k c] by blast
qed

section \<open>Properties\<close>

lemma sched_init_running:
  assumes "sched_init d n wrapper lit_thread idle_main (s, initial_sched) = Inr st0"
  shows "only_current_running (snd st0)"
proof -
  obtain vm s1 p s2 sc2 where cp: "create_proc d n wrapper lit_thread idle_main 0 vm False False (s1, initial_sched) = Inr (p, s2, sc2)"
      and st0: "threads (snd st0) = threads sc2"
    using assms by (auto simp: sched_init_def bindE_eq_Inr)
  have "running sc2 = {}" using create_proc_status [OF cp] by (auto simp: running_def initial_sched_def)
  then show ?thesis using st0 by (auto simp: only_current_running_def running_def)
qed

text \<open>
  C11. At most one thread has status \<open>RUNNING\<close>, and it is the current one: this holds after initialisation (lemma \<open>sched_init_running\<close>) and in every
  state reached from there by ticks, with the reaping of dead threads and processes they include, thread exits and new processes.\<close>

theorem only_current_thread_runs:
  assumes "only_current_running (snd st0)" and "sched_step\<^sup>*\<^sup>* st0 st"
  shows "only_current_running (snd st)"
  using assms(2,1) by (induction rule: rtranclp_induct) (auto intro: sched_step_status)

text \<open>
  C10. Round robin: while no thread exits, every thread of the run queue becomes the current thread, with its process, after at most as many
  ticks as there are threads in the queue, whatever the other threads do; the address space of its process is in force.\<close>

theorem every_thread_scheduled:
  assumes "on_ring n q r st" and "i < length (ring q)"
  shows "\<exists>m. 0 < m \<and> m \<le> length (ring q) \<and> (\<forall>cs. length cs = m \<longrightarrow>
    (\<exists>c' st'. ticks k n c0 cs st = Inr (c', st') \<and> (current_process (snd st'), current_thread (snd st')) = ring q ! i \<and> in_space st'))"
proof -
  obtain m where "0 < m" "m \<le> length (ring q)"
      and run: "length cs = m \<Longrightarrow> \<exists>c' st'. ticks k n c0 cs st = Inr (c', st') \<and> on_ring n q i st'" for cs
    using turn.reaches_every_place [OF assms, of k c0] by blast
  moreover have "on_ring n q i st' \<Longrightarrow> (current_process (snd st'), current_thread (snd st')) = ring q ! i \<and> in_space st'" for st'
    by (simp add: on_ring_def)
  ultimately show ?thesis by (intro exI [of _ m]) blast
qed

text \<open>
  A thread that is interrupted with context \<open>c\<close> is resumed with context \<open>c\<close>: after one round of ticks over the queue it is the current
  thread again and the context in force is the one it was interrupted with.\<close>

theorem context_restored:
  assumes "on_ring n q r st" and "distinct (map snd (ring q))" and "Suc (length cs) = length (ring q)"
  shows "\<exists>st'. ticks k n c0 (c # cs) st = Inr (c, st') \<and> current_thread (snd st') = current_thread (snd st)"
proof -
  obtain st' where "ticks k n c0 (c # cs) st = Inr (c, st')" "on_ring n q r st'"
    using robin.round_restores [of n q r st "vmms (snd (fst st))" cs k c0 c] assms by blast
  then show ?thesis using on_ring_thread [OF assms(1)] on_ring_thread [of n q r st'] by simp
qed


section \<open>An example queue\<close>

text \<open>Two processes with one thread each, their address spaces rooted in a registered table, and the idle process beside them.\<close>

definition example_thread :: "u64 \<Rightarrow> thread_t" where
  "example_thread p = zero_thread\<lparr>th_parent := p\<rparr>"

definition example_sched :: sched where
  "example_sched = \<lparr>
     threads = [0x110 \<mapsto> example_thread 0x100, 0x210 \<mapsto> example_thread 0x200, 0x310 \<mapsto> example_thread 0x300],
     procs = [0x100 \<mapsto> zero_process\<lparr>p_threads := 0x110, p_next := 0x200\<rparr>, 0x200 \<mapsto> zero_process\<lparr>p_threads := 0x210\<rparr>,
              0x300 \<mapsto> zero_process\<lparr>p_threads := 0x310\<rparr>],
     idle_proc = 0x300, head_proc = 0x100, current_process = 0x100, current_thread = 0x110, next_tid = 3, next_pid = 3\<rparr>"

definition example_vmm :: vmm_t where
  "example_vmm = \<lparr>current_vmm_epoch = 0, previous_vmm_epoch = 0, pml4t = 0x1000\<rparr>"

definition example_spaces :: mm where
  "example_spaces = upd (\<lambda>v. v\<lparr>vmms := [0x110 \<mapsto> example_vmm, 0x210 \<mapsto> example_vmm], cr3 := 0x1000\<rparr>) example_mm"

definition example_queue :: run_list where
  "example_queue = [(0x100, [0x110]), (0x200, [0x210])]"

lemma example_ring: "ring example_queue = [(0x100, 0x110), (0x200, 0x210)]"
  by (simp add: example_queue_def)

lemma example_on_ring: "on_ring 7 example_queue 0 (example_spaces, example_sched)"
proof -
  have "get_ptbl_vaddr 7 example_hmap 0x1000 = Inr 0xb000"
    using example_lookup(1) [of 6] by simp
  then have "\<forall>x \<in> set example_queue. space_ready 7 example_spaces (fst x)"
    by (simp add: example_queue_def space_ready_def example_spaces_def proc_vmm_def example_vmm_def example_mm_def upd_def)
  moreover have "run_queue example_sched example_queue"
    by (simp add: run_queue_def example_sched_def example_queue_def thread_next_def proc_next_def zero_process_def zero_thread_def example_thread_def)
  moreover have "in_space (example_spaces, example_sched)"
    by (simp add: in_space_def example_spaces_def example_sched_def proc_vmm_def example_vmm_def)
  ultimately show ?thesis
    by (simp add: on_ring_def example_ring alive_def idle_outside_def example_sched_def zero_process_def zero_thread_def example_thread_def)
qed

theorem only_current_thread_runs_witness:
  "\<exists>c st. schedule 1 7 zero_context (example_spaces, example_sched) = Inr (c, st) \<and> only_current_running (snd st)"
proof -
  obtain c st where st: "schedule 1 7 zero_context (example_spaces, example_sched) = Inr (c, st)"
    using schedule_ring [OF example_on_ring] by blast
  then have "sched_step\<^sup>*\<^sup>* (example_spaces, example_sched) st" by (blast intro: tick)
  moreover have "only_current_running (snd (example_spaces, example_sched))"
    by (auto simp: only_current_running_def example_sched_def example_thread_def zero_thread_def split: if_splits)
  ultimately show ?thesis using only_current_thread_runs st by blast
qed

theorem every_thread_scheduled_witness:
  "\<exists>m. 0 < m \<and> m \<le> 2 \<and> (\<forall>cs. length cs = m \<longrightarrow>
    (\<exists>c' st'. ticks 1 7 zero_context cs (example_spaces, example_sched) = Inr (c', st') \<and>
       (current_process (snd st'), current_thread (snd st')) = (0x200, 0x210) \<and> in_space st'))"
  using every_thread_scheduled [OF example_on_ring, of 1 1 zero_context] by (simp add: example_ring numeral_2_eq_2)

theorem context_restored_witness:
  "\<exists>st'. ticks 1 7 zero_context [zero_context\<lparr>rax := 5\<rparr>, zero_context] (example_spaces, example_sched) = Inr (zero_context\<lparr>rax := 5\<rparr>, st') \<and>
    current_thread (snd st') = 0x110"
  using context_restored [OF example_on_ring, of "[zero_context]" 1 zero_context "zero_context\<lparr>rax := 5\<rparr>"]
  by (simp add: example_ring example_sched_def del: run_steps.simps)

end
