(* ===== verification/Resources.thy ===== *)
theory Resources
  imports Vfs Scheduler Vga
begin

text \<open>
  The resource tables of processes, kernel/fs/resource_handling.c, and the state that the upper half of the kernel works on: memory,
  scheduler, file system, the resources in the heap and the console. The lemmas give the contract of the handles: a registered resource
  is found under its handle, the handle is the least free one, and other handles are untouched.
\<close>

section \<open>State\<close>

datatype resource_type_t = FILE | MESSAGE_ENDPOINT | SHARED_MEM

text \<open>The four functions of a resource are addresses; 0 is \<open>NULL\<close>.\<close>

record resource_t =
  res_type :: resource_type_t
  internal_handle :: int
  res_read :: u64
  res_write :: u64
  res_open :: u64
  res_close :: u64

record kernel =
  kmm :: mm
  ksched :: sched
  kfs :: fs
  kres :: "u64 \<rightharpoonup> resource_t"
  kcon :: console

definition MAX_HANDLES :: int where
  "MAX_HANDLES = 100"

section \<open>Operations\<close>

text \<open>\<open>vfs_read\<close> and \<open>vfs_open\<close> on the kernel state.\<close>

definition kvfs_read :: "fs_symbols \<Rightarrow> int \<Rightarrow> u64 \<Rightarrow> u64 \<Rightarrow> kernel \<Rightarrow> (u64 \<times> kernel) result" where
  "kvfs_read sy h buf len k = bindE (vfs_read sy h buf len (kmm k, kfs k)) (\<lambda>(r, s, f). Inr (r, k\<lparr>kmm := s, kfs := f\<rparr>))"

definition kvfs_open :: "fs_symbols \<Rightarrow> u64 \<Rightarrow> u64 \<Rightarrow> kernel \<Rightarrow> (int \<times> kernel) result" where
  "kvfs_open sy filename flags k = bindE (vfs_open sy filename flags (kmm k, kfs k)) (\<lambda>(r, s, f). Inr (r, k\<lparr>kmm := s, kfs := f\<rparr>))"

definition read_resource :: "fs_symbols \<Rightarrow> resource_t \<Rightarrow> u64 \<Rightarrow> u64 \<Rightarrow> kernel \<Rightarrow> (u64 \<times> kernel) result" where
  "read_resource sy resource buf len k =
     (case res_type resource of
        FILE \<Rightarrow> kvfs_read sy (internal_handle resource) buf len k
      | _ \<Rightarrow> Inr (0, k))"

text \<open>The guard allows handles up to 99, the table has five entries.\<close>

definition get_resource :: "kernel \<Rightarrow> u64 \<Rightarrow> int \<Rightarrow> u64 result" where
  "get_resource k process handle =
     (if handle < 0 \<or> handle \<ge> MAX_HANDLES then Inr 0
      else bindE (get_proc (ksched k) process) (\<lambda>pr.
        if nat handle < length (resource_table pr) then Inr (resource_table pr ! nat handle) else Inl Out_Of_Bounds))"

definition set_table :: "u64 \<Rightarrow> nat \<Rightarrow> u64 \<Rightarrow> kernel \<Rightarrow> kernel result" where
  "set_table process i r k =
     bindE (get_proc (ksched k) process) (\<lambda>pr.
       Inr (k\<lparr>ksched := put_proc process (pr\<lparr>resource_table := (resource_table pr)[i := r]\<rparr>) (ksched k)\<rparr>))"

definition remove_resource :: "u64 \<Rightarrow> int \<Rightarrow> kernel \<Rightarrow> (bool \<times> kernel) result" where
  "remove_resource process handle k =
     bindE (get_resource k process handle) (\<lambda>r.
       if r = 0 then Inr (False, k)
       else case kres k r of
              None \<Rightarrow> Inl Null_Deref
            | Some res \<Rightarrow>
                if res_close res = 0 then Inr (False, k)
                else bindE (set_table process (nat handle) 0 k) (\<lambda>k'. Inr (True, k')))"

fun free_handle :: "nat \<Rightarrow> u64 list \<Rightarrow> nat option" where
  "free_handle i [] = None"
| "free_handle i (r # rs) = (if r = 0 then Some i else free_handle (Suc i) rs)"

text \<open>\<open>&resource\<close> is never \<open>NULL\<close> for the only caller; the guard on the process remains.\<close>

definition register_resource :: "nat \<Rightarrow> nat \<Rightarrow> u64 \<Rightarrow> resource_t \<Rightarrow> kernel \<Rightarrow> (int \<times> kernel) result" where
  "register_resource d n process resource k =
     (if process = 0 then Inr (- 1, k)
      else bindE (get_proc (ksched k) process) (\<lambda>pr.
        case free_handle 0 (take MAX_RESOURCES (resource_table pr)) of
          None \<Rightarrow> Inr (- 1, k)
        | Some handle \<Rightarrow>
            bindE (kalloc d n 40 (kmm k)) (\<lambda>(r, s1).
            bindE (set_table process handle r (k\<lparr>kmm := s1, kres := (kres k)(r \<mapsto> resource)\<rparr>)) (\<lambda>k'.
              Inr (int handle, k')))))"

definition file_resource :: "u64 \<Rightarrow> int \<Rightarrow> resource_t" where
  "file_resource sym_read_resource h =
     \<lparr>res_type = FILE, internal_handle = h, res_read = sym_read_resource, res_write = 0, res_open = 0, res_close = 0\<rparr>"

definition register_file_resource :: "nat \<Rightarrow> nat \<Rightarrow> fs_symbols \<Rightarrow> u64 \<Rightarrow> u64 \<Rightarrow> kernel \<Rightarrow> (int \<times> kernel) result" where
  "register_file_resource d n sy sym_read_resource filename k =
     bindE (kvfs_open sy filename 0 k) (\<lambda>(h, k1).
       register_resource d n (current_process (ksched k1)) (file_resource sym_read_resource h) k1)"

section \<open>Handles\<close>

definition table_of :: "kernel \<Rightarrow> u64 \<Rightarrow> u64 list option" where
  "table_of k p = map_option resource_table (procs (ksched k) p)"

lemma free_handle_Some:
  "free_handle i rs = Some h \<Longrightarrow> i \<le> h \<and> h < i + length rs \<and> rs ! (h - i) = 0 \<and> (\<forall>j. i \<le> j \<and> j < h \<longrightarrow> rs ! (j - i) \<noteq> 0)"
proof (induction i rs rule: free_handle.induct)
  case (2 i r rs)
  show ?case
  proof (cases "r = 0")
    case True
    then show ?thesis using 2(2) by simp
  next
    case False
    with 2 have ih: "Suc i \<le> h" "h < Suc i + length rs" "rs ! (h - Suc i) = 0" "\<forall>j. Suc i \<le> j \<and> j < h \<longrightarrow> rs ! (j - Suc i) \<noteq> 0" by auto
    have "(r # rs) ! (j - i) \<noteq> 0" if "i \<le> j" "j < h" for j
      using ih(4) that False by (cases "j = i") (auto simp: nth_Cons')
    moreover have "(r # rs) ! (h - i) = 0" using ih(1,3) by (simp add: nth_Cons')
    ultimately show ?thesis using ih by auto
  qed
qed simp

lemma free_handle_None: "free_handle i rs = None \<longleftrightarrow> 0 \<notin> set rs"
  by (induction i rs rule: free_handle.induct) auto

lemma set_table_simps:
  "procs (ksched k) p = Some pr \<Longrightarrow> set_table p i r k =
     Inr (k\<lparr>ksched := put_proc p (pr\<lparr>resource_table := (resource_table pr)[i := r]\<rparr>) (ksched k)\<rparr>)"
  by (simp add: set_table_def get_proc_def)

lemma register_resource_least:
  assumes "procs (ksched k) p = Some pr" and "resource_table pr = tbl" and "length tbl = MAX_RESOURCES" and "p \<noteq> 0"
    and "kalloc d n 40 (kmm k) = Inr (r, s1)" and "0 \<in> set tbl"
  shows "\<exists>h. register_resource d n p res k = Inr (int h, k\<lparr>kmm := s1, kres := (kres k)(r \<mapsto> res),
        ksched := put_proc p (pr\<lparr>resource_table := tbl[h := r]\<rparr>) (ksched k)\<rparr>) \<and>
    h < MAX_RESOURCES \<and> tbl ! h = 0 \<and> (\<forall>j < h. tbl ! j \<noteq> 0)"
proof -
  obtain h where h: "free_handle 0 tbl = Some h" using free_handle_None assms(6) by fastforce
  let ?k = "k\<lparr>kmm := s1, kres := (kres k)(r \<mapsto> res)\<rparr>"
  have "register_resource d n p res k = Inr (int h, ?k\<lparr>ksched := put_proc p (pr\<lparr>resource_table := tbl[h := r]\<rparr>) (ksched k)\<rparr>)"
    using assms h set_table_simps [of ?k p pr h r] by (simp add: register_resource_def get_proc_def)
  then show ?thesis using free_handle_Some [OF h] assms(3) by auto
qed


text \<open>
  A file that a process has opened can never be closed again: the resource is registered without a close function, and removing a resource
  without one reports failure and changes nothing. So a process can open at most five files in its life.\<close>

theorem file_resource_not_removable:
  assumes "get_resource k p h = Inr r" and "kres k r = Some (file_resource rd ih)"
  shows "remove_resource p h k = Inr (False, k)"
  using assms by (simp add: remove_resource_def file_resource_def)


definition example_kernel :: kernel where
  "example_kernel = \<lparr>kmm = set_bytes example_bytes example_mm, ksched = example_sched, kfs = example_fs, kres = Map.empty, kcon = blank_console\<rparr>"


theorem file_resource_not_removable_witness:
  "remove_resource 0x100 0 (example_kernel\<lparr>ksched := put_proc 0x100 (zero_process\<lparr>resource_table := [9, 0, 0, 0, 0]\<rparr>) example_sched,
      kres := [9 \<mapsto> file_resource 1 0]\<rparr>) =
   Inr (False, example_kernel\<lparr>ksched := put_proc 0x100 (zero_process\<lparr>resource_table := [9, 0, 0, 0, 0]\<rparr>) example_sched,
      kres := [9 \<mapsto> file_resource 1 0]\<rparr>)"
  by (rule file_resource_not_removable [where r = 9 and rd = 1 and ih = 0]) (simp_all add: get_resource_def get_proc_def MAX_HANDLES_def)

end
