(* ===== verification/Syscall.thy ===== *)
theory Syscall
  imports Resources
begin

text \<open>
  System calls, kernel/syscalls/syscall.c: the handler reads its number and arguments from the saved registers. The lemmas compose the components below
  it: a file opened and read through system calls delivers the bytes of the archive.
\<close>

text \<open>A C string in memory, up to \<open>n\<close> characters.\<close>

fun read_cstring :: "nat \<Rightarrow> mem \<Rightarrow> u64 \<Rightarrow> u8 list result" where
  "read_cstring 0 m a = Inl Out_Of_Fuel"
| "read_cstring (Suc n) m a = (if m a = 0 then Inr [] else bindE (read_cstring n m (a + 1)) (\<lambda>cs. Inr (m a # cs)))"

text \<open>\<open>read_sym\<close> is the address of \<open>read_resource\<close>; a call through any other pointer leaves the kernel text.\<close>

definition syscall_read :: "fs_symbols \<Rightarrow> u64 \<Rightarrow> cpu_context_t \<Rightarrow> kernel \<Rightarrow> kernel result" where
  "syscall_read sy read_sym context k =
     bindE (get_proc (ksched k) (current_process (ksched k))) (\<lambda>pr.
       if unat (rdi context) < length (resource_table pr)
       then case (let r = resource_table pr ! unat (rdi context) in if r = 0 then None else kres k r) of
              None \<Rightarrow> Inl Null_Deref
            | Some res \<Rightarrow>
                if res_read res = read_sym
                then bindE (read_resource sy res (rsi context) (rdx context) k) (\<lambda>(_, k'). Inr k')
                else Inl Page_Fault
       else Inl Out_Of_Bounds)"

definition syscall_handler ::
  "nat \<Rightarrow> nat \<Rightarrow> fs_symbols \<Rightarrow> u64 \<Rightarrow> cpu_context_t \<Rightarrow> kernel \<Rightarrow> (cpu_context_t \<times> kernel) result" where
  "syscall_handler d n sy read_sym context k =
     (if rax context = 0
      then bindE (syscall_read sy read_sym context k) (\<lambda>k'. Inr (context, k'))
      else if rax context = 1
      then bindE (read_cstring n (vm_bytes (kmm k)) (rdi context)) (\<lambda>str.
           bindE (printf (map of_char ''%s'') [Arg_str str] (kcon k)) (\<lambda>c. Inr (context, k\<lparr>kcon := c\<rparr>)))
      else if rax context = 2
      then bindE (register_file_resource d n sy read_sym (rdi context) k) (\<lambda>(h, k'). Inr (context\<lparr>rax := of_int h\<rparr>, k'))
      else if rax context = 60
      then bindE (get_thread (ksched k) (current_thread (ksched k))) (\<lambda>th.
             Inr (context, k\<lparr>ksched := put_thread (current_thread (ksched k)) (th\<lparr>th_status := DEAD\<rparr>) (ksched k)\<rparr>))
      else Inl Panic)"

section \<open>Lemmas\<close>

lemma read_cstring_string: "holds_string m a cs \<Longrightarrow> length cs < n \<Longrightarrow> read_cstring n m a = Inr cs"
proof (induction cs arbitrary: a n)
  case Nil
  then show ?case by (cases n) (simp_all add: holds_string_def)
next
  case (Cons c cs)
  then obtain l where n: "n = Suc l" "length cs < l" by (cases n) auto
  have "m a = c" "c \<noteq> 0" "holds_string m (a + 1) cs" using Cons.prems(1) by (auto simp: holds_string_def)
  with Cons.IH n show ?case by simp
qed

lemma takeWhile_string: "0 \<notin> set cs \<Longrightarrow> takeWhile (\<lambda>b. b \<noteq> 0) cs = cs"
  by (induction cs) auto

text \<open>Handle \<open>h\<close> of the current process reads from the descriptor \<open>fd\<close>.\<close>

definition handle_reads :: "u64 \<Rightarrow> kernel \<Rightarrow> nat \<Rightarrow> file_descriptor_t \<Rightarrow> bool" where
  "handle_reads read_sym k h fd \<longleftrightarrow> (\<exists>pr i. procs (ksched k) (current_process (ksched k)) = Some pr \<and> h < length (resource_table pr) \<and>
     resource_table pr ! h \<noteq> 0 \<and> kres k (resource_table pr ! h) = Some (file_resource read_sym (int i)) \<and> get_fd (kfs k) (int i) = Inr fd)"

lemma handle_reads_kmm [simp]: "handle_reads rs (k\<lparr>kmm := s\<rparr>) h fd = handle_reads rs k h fd"
  by (simp add: handle_reads_def)

lemma syscall_open_step:
  assumes fs: "mountpoints (kfs k) = p # mps" "root_mount sy (vm_bytes (kmm k)) p" "archive_at (vm_bytes (kmm k)) a fs"
      "file_headers (kfs k) = header_table a fs" "holds_string (vm_bytes (kmm k)) path (c # ys)" "ys \<noteq> []"
      "first_match ys fs = Some j" "free_slot (vfs_opened_files (kfs k)) i"
    and tbl: "table_of k (current_process (ksched k)) = Some tbl" "length tbl = MAX_RESOURCES" "0 \<in> set tbl" "current_process (ksched k) \<noteq> 0"
    and alloc: "kalloc d n 40 (kmm k) = Inr (r, s1)" "r \<noteq> 0"
    and c1: "rax ctx = 2" "rdi ctx = path"
  obtains h fd k1 where "syscall_handler d n sy read_sym ctx k = Inr (ctx\<lparr>rax := of_nat h\<rparr>, k1)"
    and "handle_reads read_sym k1 h fd" and "h < MAX_RESOURCES" and "kmm k1 = s1" and "kcon k1 = kcon k"
    and "mountpoints (kfs k1) = mountpoints (kfs k)" and "opened_as (vm_bytes (kmm k)) fd (snd (fs ! j))" and "file_buffer fd = header_addrs a fs ! j + 512"
proof -
  obtain fd where fd: "vfs_open sy path 0 (kmm k, kfs k) = Inr (int i, kmm k, (kfs k)\<lparr>vfs_opened_files := (vfs_opened_files (kfs k))[i := fd]\<rparr>)"
      "opened_as (vm_bytes (kmm k)) fd (snd (fs ! j))" "file_buffer fd = header_addrs a fs ! j + 512"
    using vfs_open_step [OF fs(1-7), of 0] store_fd_free [OF fs(8), of _ 0] by auto
  let ?f = "(kfs k)\<lparr>vfs_opened_files := (vfs_opened_files (kfs k))[i := fd]\<rparr>"
  obtain pr where pr: "procs (ksched k) (current_process (ksched k)) = Some pr" "resource_table pr = tbl"
    using tbl(1) by (auto simp: table_of_def)
  let ?res = "file_resource read_sym (int i)"
  let ?ka = "k\<lparr>kfs := ?f\<rparr>"
  obtain h where h: "register_resource d n (current_process (ksched k)) ?res ?ka = Inr (int h, ?ka\<lparr>kmm := s1, kres := (kres k)(r \<mapsto> ?res),
        ksched := put_proc (current_process (ksched k)) (pr\<lparr>resource_table := tbl[h := r]\<rparr>) (ksched k)\<rparr>)" (is "_ = Inr (_, ?k1)")
      "h < MAX_RESOURCES"
    using register_resource_least [of ?ka "current_process (ksched k)" pr tbl d n r s1 ?res] pr tbl alloc by auto
  have "syscall_handler d n sy read_sym ctx k = Inr (ctx\<lparr>rax := of_nat h\<rparr>, ?k1)"
    using c1 fd(1) h(1) by (simp add: syscall_handler_def register_file_resource_def kvfs_open_def)
  moreover have "handle_reads read_sym ?k1 h fd"
    using h(2) tbl(2) alloc(2) fs(8) by (auto simp: handle_reads_def get_fd_def free_slot_def)
  ultimately show ?thesis using that [of h ?k1 fd] h(2) fd(2,3) by simp
qed

lemma syscall_read_step:
  assumes "handle_reads read_sym k h fd" and "h < MAX_RESOURCES" and "mountpoints (kfs k) = p # mps" and "tar_mount sy (vm_bytes (kmm k)) p"
    and "opened_as m0 fd content" and "nb < 2 ^ 64" and "PAGE_SIZE \<le> buf"
    and "rax c2 = 0" and "rdi c2 = of_nat h" and "rsi c2 = buf" and "rdx c2 = of_nat nb"
  shows "\<exists>f. syscall_handler d n sy read_sym c2 k = Inr (c2, k\<lparr>kmm := set_bytes (memcpy (vm_bytes (kmm k)) buf (file_buffer fd) nb) (kmm k), kfs := f\<rparr>)"
proof -
  obtain pr i where hr: "procs (ksched k) (current_process (ksched k)) = Some pr" "h < length (resource_table pr)"
      "resource_table pr ! h \<noteq> 0" "kres k (resource_table pr ! h) = Some (file_resource read_sym (int i))" "get_fd (kfs k) (int i) = Inr fd"
    using assms(1) by (auto simp: handle_reads_def)
  have "unat (of_nat h :: u64) = h" using assms(2) by (simp add: unat_of_nat_small MAX_RESOURCES_def)
  moreover have "vfs_read sy (int i) buf (of_nat nb) (kmm k, kfs k) = Inr (of_nat nb, set_bytes (memcpy (vm_bytes (kmm k)) buf (file_buffer fd) nb) (kmm k),
      set_fd (int i) (fd\<lparr>buf_read_pos := ucast (scast (buf_read_pos fd) + of_nat nb :: u64)\<rparr>) (kfs k))"
    using vfs_read_step [OF hr(5), of sy "kmm k" buf "of_nat nb"] assms(3-7) by (simp add: opened_as_def unat_of_nat_small)
  ultimately show ?thesis
    using hr assms(8-) by (auto simp: syscall_handler_def syscall_read_def get_proc_def read_resource_def kvfs_read_def file_resource_def)
qed

lemma syscall_write_step:
  assumes "rax c = 1" and "holds_string (vm_bytes (kmm k)) (rdi c) cs" and "length cs < n"
    and "console_wf (kcon k)" and "\<not> locked (printf_lock (kcon k))"
  shows "\<exists>con. syscall_handler d n sy read_sym c k = Inr (c, k\<lparr>kcon := con\<rparr>) \<and>
    screen_abs con = fold term_put cs (screen_abs (kcon k)) \<and> console_wf con \<and> \<not> locked (printf_lock con)"
proof -
  have tw: "takeWhile (\<lambda>b. b \<noteq> 0) cs = cs" using assms(2) by (intro takeWhile_string) (simp add: holds_string_def)
  obtain con where "printf (map of_char ''%s'') [Arg_str cs] (kcon k) = Inr con" "screen_abs con = fold term_put cs (screen_abs (kcon k))"
      "console_wf con" "\<not> locked (printf_lock con)"
    using printf_terminal [OF assms(4,5), of "map of_char ''%s''" "[Arg_str cs]"] by (auto simp: tw)
  then show ?thesis
    using assms(1) read_cstring_string [OF assms(2,3)] by (auto simp: syscall_handler_def)
qed

section \<open>Properties\<close>


text \<open>
  The write call prints the string at the address in \<open>rdi\<close> on the console, up to its terminator, and returns with the registers unchanged.\<close>

theorem syscall_write_prints:
  assumes "rax c = 1" and "holds_string (vm_bytes (kmm k)) (rdi c) cs" and "length cs < n"
    and "console_wf (kcon k)" and "\<not> locked (printf_lock (kcon k))"
  shows "\<exists>con. syscall_handler d n sy read_sym c k = Inr (c, k\<lparr>kcon := con\<rparr>) \<and>
    screen_abs con = fold term_put cs (screen_abs (kcon k)) \<and> console_wf con \<and> \<not> locked (printf_lock con)"
  by (rule syscall_write_step [OF assms])


theorem syscall_write_prints_witness:
  "\<exists>con. syscall_handler 0 7 example_sy 1 (zero_context\<lparr>rax := 1, rdi := 0x11000\<rparr>) example_kernel =
      Inr (zero_context\<lparr>rax := 1, rdi := 0x11000\<rparr>, example_kernel\<lparr>kcon := con\<rparr>) \<and>
    screen_abs con = fold term_put [47, 97, 98] (screen_abs blank_console)"
  using syscall_write_prints [of "zero_context\<lparr>rax := 1, rdi := 0x11000\<rparr>" example_kernel "[47, 97, 98]" 7 0 example_sy 1]
    example_bytes_path blank_console_wf
  by (auto simp: example_kernel_def blank_console_def)

end
