(* ===== verification/Interrupts.thy ===== *)
theory Interrupts
  imports Syscall Keyboard
begin

text \<open>
  Segment and interrupt descriptors and the interrupt dispatcher: kernel/cpu/gdt64.c, kernel/cpu/isr.c and the vector numbers that the stubs of
  kernel/cpu/isr_stubs.S push. The lemmas decode the packed descriptors back to the addresses they were built from, and say which
  handler each of the 256 vectors of the processor reaches.
\<close>

section \<open>The interrupt descriptor table\<close>

record idt_entry =
  low_addr :: u16
  code_selector :: u16
  ist :: u8
  gate_flags :: u8
  mid_addr :: u16
  high_addr :: u32
  idt_reserved :: u32

definition zero_gate :: idt_entry where
  "zero_gate = \<lparr>low_addr = 0, code_selector = 0, ist = 0, gate_flags = 0, mid_addr = 0, high_addr = 0, idt_reserved = 0\<rparr>"

definition NUM_STUBS :: nat where
  "NUM_STUBS = 256"

text \<open>\<open>dpl << 5\<close> is done on \<open>int\<close> and truncated to the byte of the flags.\<close>

definition make_gate :: "u64 \<Rightarrow> u8 \<Rightarrow> idt_entry" where
  "make_gate isr_addr dpl =
     \<lparr>low_addr = ucast (isr_addr AND 0xffff), code_selector = 8, ist = 1, gate_flags = 0x8e OR push_bit 5 dpl,
      mid_addr = ucast (drop_bit 16 isr_addr AND 0xffff), high_addr = ucast (drop_bit 32 isr_addr), idt_reserved = 0\<rparr>"

definition set_idt_entry :: "u8 \<Rightarrow> u64 \<Rightarrow> u8 \<Rightarrow> idt_entry list \<Rightarrow> idt_entry list" where
  "set_idt_entry v isr_addr dpl idt = idt[unat v := make_gate isr_addr dpl]"

fun setup_idt_loop :: "u64 \<Rightarrow> nat list \<Rightarrow> idt_entry list \<Rightarrow> idt_entry list" where
  "setup_idt_loop start_isr_stubs [] idt = idt"
| "setup_idt_loop start_isr_stubs (v # vs) idt =
     setup_idt_loop start_isr_stubs vs (set_idt_entry (of_nat v) (start_isr_stubs + of_nat v * 16) 0 idt)"

definition setup_idt :: "u64 \<Rightarrow> idt_entry list \<Rightarrow> idt_entry list" where
  "setup_idt start_isr_stubs idt =
     set_idt_entry 0xfe (start_isr_stubs + 0xfe * 16) 3 (setup_idt_loop start_isr_stubs [0 ..< NUM_STUBS] idt)"

record idtr =
  idtr_limit :: u16
  idtr_base :: u64

definition load_idt :: "u64 \<Rightarrow> idtr" where
  "load_idt idt = \<lparr>idtr_limit = of_nat (NUM_STUBS * 16 - 1), idtr_base = idt\<rparr>"

text \<open>How the processor reads a gate.\<close>

definition gate_addr :: "idt_entry \<Rightarrow> u64" where
  "gate_addr g = ucast (low_addr g) OR push_bit 16 (ucast (mid_addr g)) OR push_bit 32 (ucast (high_addr g))"

definition gate_dpl :: "idt_entry \<Rightarrow> u8" where
  "gate_dpl g = drop_bit 5 (gate_flags g) AND 3"

definition gate_present :: "idt_entry \<Rightarrow> bool" where
  "gate_present g \<longleftrightarrow> bit (gate_flags g) 7"

lemma gate_addr_make: "gate_addr (make_gate a dpl) = a"
proof (rule bit_word_eqI)
  fix k :: nat
  assume k: "k < LENGTH(64)"
  have m: "(0xffff :: u64) = mask 16" by (simp add: mask_numeral)
  show "bit (gate_addr (make_gate a dpl)) k = bit a k"
    using k unfolding gate_addr_def make_gate_def m by (cases "k < 32") (auto simp: bit_simps simp del: mask_numeral)
qed

lemma setup_idt_loop_nth:
  "length idt = 256 \<Longrightarrow> set vs \<subseteq> {..< 256} \<Longrightarrow> v < 256 \<Longrightarrow>
     length (setup_idt_loop a vs idt) = 256 \<and>
     setup_idt_loop a vs idt ! v = (if v \<in> set vs then make_gate (a + of_nat v * 16) 0 else idt ! v)"
proof (induction a vs idt rule: setup_idt_loop.induct)
  case (2 a u vs idt)
  then have "unat (of_nat u :: u8) = u" by (simp add: unat_of_nat_small)
  with 2 show ?case by (auto simp: set_idt_entry_def nth_list_update)
qed simp

section \<open>Segments\<close>

record gdt_segment_t =
  seg_limit :: u16
  base0 :: u16
  base1 :: u8
  access_byte :: u8
  flags_and_limit :: u8
  base2 :: u8

record gdt64_segment_t = gdt_segment_t +
  base3 :: u32
  seg_reserved :: u32

record tss_t =
  rsp0 :: u64
  rsp1 :: u64
  rsp2 :: u64
  ist1 :: u64

record gdt64_t =
  null_segment :: gdt_segment_t
  code_segment :: gdt_segment_t
  data_segment :: gdt_segment_t
  user_code_segment :: gdt_segment_t
  user_data_segment :: gdt_segment_t
  tss_segment :: gdt64_segment_t

definition flat_segment :: "u8 \<Rightarrow> u8 \<Rightarrow> gdt_segment_t" where
  "flat_segment acc fl = \<lparr>seg_limit = 0xffff, base0 = 0, base1 = 0, access_byte = acc, flags_and_limit = fl, base2 = 0\<rparr>"

text \<open>\<open>sizeof(tss_t)\<close> is 112: the 104 bytes of its fields, rounded up to its alignment of 16.\<close>

definition sizeof_tss :: nat where
  "sizeof_tss = 112"

definition gdt64 :: gdt64_t where
  "gdt64 = \<lparr>
     null_segment = \<lparr>seg_limit = 0, base0 = 0, base1 = 0, access_byte = 0, flags_and_limit = 0, base2 = 0\<rparr>,
     code_segment = flat_segment 0x9a 0xaf, data_segment = flat_segment 0x92 0xa0,
     user_code_segment = flat_segment 0xfa 0xaf, user_data_segment = flat_segment 0xf2 0xa0,
     tss_segment = \<lparr>seg_limit = of_nat (sizeof_tss - 1), base0 = 0, base1 = 0, access_byte = 0x89,
       flags_and_limit = 0x20 OR of_nat ((sizeof_tss - 1) div 2 ^ 16), base2 = 0, base3 = 0, seg_reserved = 0\<rparr>\<rparr>"

definition initial_tss :: tss_t where
  "initial_tss = \<lparr>rsp0 = 0, rsp1 = 0, rsp2 = 0, ist1 = 0\<rparr>"

definition set_tss_base :: "u64 \<Rightarrow> gdt64_segment_t \<Rightarrow> gdt64_segment_t" where
  "set_tss_base tss seg =
     seg\<lparr>base0 := ucast tss, base1 := ucast (drop_bit 16 tss), base2 := ucast (drop_bit 24 tss), base3 := ucast (drop_bit 32 tss)\<rparr>"

definition remap_gdt :: "nat \<Rightarrow> nat \<Rightarrow> u64 \<Rightarrow> gdt64_t \<Rightarrow> tss_t \<Rightarrow> mm \<Rightarrow> (gdt64_t \<times> tss_t \<times> mm) result" where
  "remap_gdt d n tss_addr g tss s =
     bindE (alloc_kernel_stack d n s) (\<lambda>(stack1, s1).
     bindE (alloc_kernel_stack d n s1) (\<lambda>(stack2, s2).
       Inr (g\<lparr>tss_segment := set_tss_base tss_addr (tss_segment g)\<rparr>,
            tss\<lparr>ist1 := stack1 + KERNEL_STACK_SIZE - 8, rsp1 := stack2 + KERNEL_STACK_SIZE - 8\<rparr>, s2)))"

definition segment_base :: "gdt64_segment_t \<Rightarrow> u64" where
  "segment_base g = ucast (base0 g) OR push_bit 16 (ucast (base1 g)) OR push_bit 24 (ucast (base2 g)) OR push_bit 32 (ucast (base3 g))"

lemma segment_base_set: "segment_base (set_tss_base a seg) = a"
proof (rule bit_word_eqI)
  fix k :: nat
  assume "k < LENGTH(64)"
  then show "bit (segment_base (set_tss_base a seg)) k = bit a k"
    by (cases "k < 32"; cases "k < 24") (auto simp: segment_base_def set_tss_base_def bit_simps)
qed


text \<open>How a selector picks a descriptor: its index, and the privilege in its two lowest bits.\<close>

definition segment_at :: "gdt64_t \<Rightarrow> u64 \<Rightarrow> gdt_segment_t option" where
  "segment_at g sel =
     (let i = unat (drop_bit 3 sel)
      in if i = 1 then Some (code_segment g) else if i = 2 then Some (data_segment g)
         else if i = 3 then Some (user_code_segment g) else if i = 4 then Some (user_data_segment g) else None)"

definition seg_dpl :: "gdt_segment_t \<Rightarrow> u8" where
  "seg_dpl g = drop_bit 5 (access_byte g) AND 3"

definition seg_usable :: "bool \<Rightarrow> gdt_segment_t \<Rightarrow> bool" where
  "seg_usable code g \<longleftrightarrow> bit (access_byte g) 7 \<and> bit (access_byte g) 4 \<and> bit (access_byte g) 3 = code"

section \<open>Interrupts\<close>

text \<open>
  The vector that the stub at position \<open>v\<close> pushes: the stubs behind the 32 exceptions are numbered from 8 on.
\<close>

definition stub_vec :: "nat \<Rightarrow> nat" where
  "stub_vec v = (if v < 32 then v else 8 + (v - 32))"

definition exception_types :: "string list" where
  "exception_types = [''Divide-by-Zero-Error'', ''Debug'', ''NMI'', ''Breakpoint'', ''Overflow'', ''Bound-Range'', ''Invalid-Opcode'',
     ''Device-Not-Available'', ''Double-Fault'', ''Coprocessor-Segment-Overrun'', ''Invalid-TSS'', ''Segment-Not-Present'', ''Stack'',
     ''General-Protection'', ''Page-Fault'']"

record cpu =
  ck :: kernel
  ckbd :: keyboard
  should_sched :: bool
  lapic_mem :: mem
  local_apic_regs :: u64

definition send_local_apic_eoi :: "cpu \<Rightarrow> cpu" where
  "send_local_apic_eoi c = c\<lparr>lapic_mem := store32 (lapic_mem c) (local_apic_regs c + 0xb0) 0\<rparr>"

definition kschedule :: "nat \<Rightarrow> nat \<Rightarrow> cpu_context_t \<Rightarrow> cpu \<Rightarrow> (cpu_context_t \<times> cpu) result" where
  "kschedule r n status c =
     bindE (schedule r n status (kmm (ck c), ksched (ck c))) (\<lambda>(ctx, s, sc).
       Inr (ctx, c\<lparr>ck := (ck c)\<lparr>kmm := s, ksched := sc\<rparr>\<rparr>))"

definition print_on :: "(console \<Rightarrow> console) \<Rightarrow> cpu \<Rightarrow> cpu" where
  "print_on f c = c\<lparr>ck := (ck c)\<lparr>kcon := f (kcon (ck c))\<rparr>\<rparr>"

text \<open>\<open>scancode\<close> is the byte at the data port of the keyboard.\<close>

definition keyboard_interrupt :: "nat \<Rightarrow> nat \<Rightarrow> u8 \<Rightarrow> cpu_context_t \<Rightarrow> cpu \<Rightarrow> (cpu_context_t \<times> cpu) result" where
  "keyboard_interrupt r n scancode status c =
     bindE (keyboard_handler scancode (ckbd c, kcon (ck c))) (\<lambda>(kb, con).
       let c1 = c\<lparr>ckbd := kb, ck := (ck c)\<lparr>kcon := con\<rparr>\<rparr>
       in bindE (if should_sched c1 then kschedule r n status c1 else Inr (status, c1)) (\<lambda>(ctx, c2).
            Inr (ctx, c2\<lparr>should_sched := \<not> should_sched c2\<rparr>)))"

definition interrupt_body ::
  "nat \<Rightarrow> nat \<Rightarrow> nat \<Rightarrow> fs_symbols \<Rightarrow> u64 \<Rightarrow> u8 \<Rightarrow> cpu_context_t \<Rightarrow> cpu \<Rightarrow> (cpu_context_t \<times> cpu) result" where
  "interrupt_body r d n sy read_sym scancode status c =
     (if vec status \<le> 32
      then if unat (vec status) < length exception_types then Inl Hang else Inl Out_Of_Bounds
      else if vec status = 0xf0
      then Inr (status, print_on (printstr (map of_char ''Local APIC interrupt served!!'' @ [10])) c)
      else if vec status = 0x28 then keyboard_interrupt r n scancode status c
      else if vec status = 0x68 then kschedule r n status c
      else if vec status = 0xe6
      then bindE (syscall_handler d n sy read_sym status (ck c)) (\<lambda>(ctx, k). Inr (ctx, c\<lparr>ck := k\<rparr>))
      else Inr (status, print_on (\<lambda>con. printlong (vec status) (printstr ([10] @ map of_char ''Unknown Interrupt'') con)) c))"

definition interrupt_handler ::
  "nat \<Rightarrow> nat \<Rightarrow> nat \<Rightarrow> fs_symbols \<Rightarrow> u64 \<Rightarrow> u8 \<Rightarrow> cpu_context_t \<Rightarrow> cpu \<Rightarrow> (cpu_context_t \<times> cpu) result" where
  "interrupt_handler r d n sy read_sym scancode status c =
     bindE (interrupt_body r d n sy read_sym scancode status c) (\<lambda>(new_context, c1). Inr (new_context, send_local_apic_eoi c1))"

section \<open>Gates\<close>

lemma setup_idt_nth:
  assumes "length idt = 256" and "v < 256"
  shows "setup_idt a idt ! v = make_gate (a + of_nat (16 * v)) (if v = 0xfe then 3 else 0)"
proof -
  have "set [0 ..< 256] \<subseteq> {..< 256 :: nat}" by auto
  from setup_idt_loop_nth [OF assms(1) this assms(2), of a] show ?thesis
    using assms(2) by (auto simp: setup_idt_def set_idt_entry_def NUM_STUBS_def nth_list_update mult.commute)
qed

lemma make_gate_present: "gate_present (make_gate a dpl)"
  by (simp add: gate_present_def make_gate_def bit_simps)

section \<open>Properties\<close>

text \<open>
  C35. After \<open>setup_idt\<close> every vector has a present gate in the kernel code segment whose address, put together as the processor does, is the stub
  of that vector, 16 bytes apart from the next. User code may only raise vector 0xfe: all other gates have privilege level 0.\<close>

theorem setup_idt_gates:
  assumes "length idt = 256" and "v < 256"
  shows "let g = setup_idt a idt ! v
    in gate_addr g = a + of_nat (16 * v) \<and> gate_present g \<and> code_selector g = ucast CODE_OFFSET \<and> gate_dpl g = (if v = 0xfe then 3 else 0)"
proof -
  have "gate_dpl (make_gate x 3) = 3" "gate_dpl (make_gate x 0) = 0" for x by (simp_all add: gate_dpl_def make_gate_def)
  moreover have "code_selector (make_gate x d) = ucast CODE_OFFSET" for x d by (simp add: make_gate_def CODE_OFFSET_def)
  ultimately show ?thesis by (simp add: setup_idt_nth [OF assms] make_gate_present gate_addr_make)
qed

theorem setup_idt_gates_witness:
  "let g = setup_idt 0x5000 (replicate 256 zero_gate) ! 0xfe
   in gate_addr g = 0x5000 + of_nat (16 * 0xfe) \<and> gate_present g \<and> code_selector g = ucast CODE_OFFSET \<and> gate_dpl g = 3"
  using setup_idt_gates [of "replicate 256 zero_gate" "0xfe" "0x5000"] by simp


text \<open>
  Where the 256 vectors of the processor end. Vectors 0 to 56 are taken for exceptions and stop the kernel, 25 of them although the processor never
  raises them as exceptions, and from 15 on the name is read behind the end of the table. Vector 0x40 is the keyboard, 0x80 the
  scheduler, 0xfe the system calls; every other vector, also 0xf0 which the local APIC uses as its spurious vector, is reported as unknown
  and returns to the interrupted context.\<close>

theorem interrupt_vectors:
  assumes "v < 256" and "vec st = of_nat (stub_vec v)"
  shows "interrupt_body r d n sy rs scan st c =
    (if v \<le> 56 then Inl (if stub_vec v < 15 then Hang else Out_Of_Bounds)
     else if v = 0x40 then keyboard_interrupt r n scan st c
     else if v = 0x80 then kschedule r n st c
     else if v = 0xfe then bindE (syscall_handler d n sy rs st (ck c)) (\<lambda>(ctx, k). Inr (ctx, c\<lparr>ck := k\<rparr>))
     else Inr (st, print_on (\<lambda>con. printlong (vec st) (printstr ([10] @ map of_char ''Unknown Interrupt'') con)) c))"
proof -
  have "stub_vec v < 256" using assms(1) by (auto simp: stub_vec_def)
  then have s: "stub_vec v < 2 ^ 64" by simp
  have u: "unat (vec st) = stub_vec v" using s assms(2) by (simp add: unat_of_nat_small)
  have eq: "vec st = of_nat k \<longleftrightarrow> stub_vec v = k" if "k < 2 ^ 64" for k
    using that unat_of_nat_small [of k, where 'a = 64] by (simp only: word_eq_iff_unsigned [where 'a = nat] u) simp
  have le: "vec st \<le> 32 \<longleftrightarrow> stub_vec v \<le> 32" by (simp add: word_le_nat_alt u)
  have nums: "vec st = 0xf0 \<longleftrightarrow> stub_vec v = 0xf0" "vec st = 0x28 \<longleftrightarrow> stub_vec v = 0x28" "vec st = 0x68 \<longleftrightarrow> stub_vec v = 0x68"
      "vec st = 0xe6 \<longleftrightarrow> stub_vec v = 0xe6"
    using eq [of "0xf0"] eq [of "0x28"] eq [of "0x68"] eq [of "0xe6"] by simp_all
  have l: "length exception_types = 15" by (simp add: exception_types_def)
  show ?thesis
    unfolding interrupt_body_def le nums u l using assms(1) by (auto simp: stub_vec_def)
qed


definition example_cpu :: cpu where
  "example_cpu = \<lparr>ck = example_kernel, ckbd = initial_keyboard, should_sched = True, lapic_mem = (\<lambda>_. 0), local_apic_regs = 0x9000\<rparr>"

theorem interrupt_vectors_witness:
  "interrupt_body 1 0 7 example_sy 1 0 (zero_context\<lparr>vec := of_nat (stub_vec 0x21)\<rparr>) example_cpu = Inl Hang"
  using interrupt_vectors [of "0x21" "zero_context\<lparr>vec := of_nat (stub_vec 0x21)\<rparr>" 1 0 7 example_sy 1 0 example_cpu]
  by (simp add: stub_vec_def)

end
