(* ===== verification/Stubs.thy ===== *)
theory Stubs
  imports Interrupts
begin

text \<open>
  The way into and out of the interrupt handler: the delivery of an interrupt by the processor, the stubs of kernel/cpu/isr_stubs.S with the macros of
  include/context_switch.h, and the return. The registers travel through memory as a \<open>cpu_context_t\<close>. The lemmas show that this is a call by value:
  the handler sees exactly the interrupted registers, and the processor goes on with exactly the registers of the context the handler returns.
\<close>

section \<open>The processor\<close>

datatype gpr = RAX | RBX | RCX | RDX | RDI | RSI | RBP | R8 | R9 | R10 | R11 | R12 | R13 | R14 | R15

record regs =
  gprs :: "gpr \<Rightarrow> u64"
  rsp_r :: u64
  rip_r :: u64
  cs_r :: u64
  flags_r :: u64
  ss_r :: u64

definition push64 :: "u64 \<Rightarrow> mem \<times> regs \<Rightarrow> mem \<times> regs" where
  "push64 v st = (store64 (fst st) (rsp_r (snd st) - 8) v, (snd st)\<lparr>rsp_r := rsp_r (snd st) - 8\<rparr>)"

definition push_reg :: "gpr \<Rightarrow> mem \<times> regs \<Rightarrow> mem \<times> regs" where
  "push_reg g st = push64 (gprs (snd st) g) st"

definition pop_reg :: "mem \<Rightarrow> gpr \<Rightarrow> regs \<Rightarrow> regs" where
  "pop_reg m g r = r\<lparr>gprs := (gprs r)(g := load64 m (rsp_r r)), rsp_r := rsp_r r + 8\<rparr>"

text \<open>
  Delivery through a gate with stack table entry 1: the processor takes the stack pointer of the task state segment, aligns it to 16 bytes, and pushes
  the interrupted stack, flags and instruction pointers. An exception may push an error code. The flags TF, IF, NT, RF and VM are cleared.
\<close>

definition deliver :: "u64 \<Rightarrow> u64 \<Rightarrow> u64 option \<Rightarrow> mem \<times> regs \<Rightarrow> mem \<times> regs" where
  "deliver stack isr code st =
     (let r = snd st;
          st1 = push64 (rip_r r) (push64 (cs_r r) (push64 (flags_r r) (push64 (rsp_r r) (push64 (ss_r r) (fst st, r\<lparr>rsp_r := stack AND NOT 0xf\<rparr>)))));
          st2 = (case code of None \<Rightarrow> st1 | Some e \<Rightarrow> push64 e st1)
      in (fst st2, (snd st2)\<lparr>rip_r := isr, cs_r := CODE_OFFSET, flags_r := flags_r r AND NOT 0x34300,
            ss_r := (if cs_r r AND 3 = 0 then ss_r r else 0)\<rparr>))"

definition iretq :: "mem \<Rightarrow> regs \<Rightarrow> regs" where
  "iretq m r = r\<lparr>rip_r := load64 m (rsp_r r), cs_r := load64 m (rsp_r r + 8), flags_r := load64 m (rsp_r r + 16),
     rsp_r := load64 m (rsp_r r + 24), ss_r := load64 m (rsp_r r + 32)\<rparr>"

section \<open>The stubs\<close>

definition push_regs :: "mem \<times> regs \<Rightarrow> mem \<times> regs" where
  "push_regs = fold push_reg [R15, R14, R13, R12, R11, R10, R9, R8, RBP, RSI, RDI, RDX, RCX, RBX, RAX]"

definition pop_regs :: "mem \<Rightarrow> regs \<Rightarrow> regs" where
  "pop_regs m = fold (pop_reg m) [RAX, RBX, RCX, RDX, RDI, RSI, RBP, R8, R9, R10, R11, R12, R13, R14, R15]"

text \<open>The stubs that expect an error code from the processor; the others push a zero.\<close>

definition code_stub :: "nat \<Rightarrow> bool" where
  "code_stub v \<longleftrightarrow> v \<in> {0xa, 0xb, 0xc, 0xd, 0xe, 0x11, 0x15, 0x1d, 0x1e}"

definition stub :: "nat \<Rightarrow> mem \<times> regs \<Rightarrow> mem \<times> regs" where
  "stub v st = push64 (of_nat (stub_vec v)) (if code_stub v then st else push64 0 st)"

text \<open>The common part, up to the call and behind it.\<close>

definition isr_enter :: "mem \<times> regs \<Rightarrow> mem \<times> regs" where
  "isr_enter st = (let st1 = push_regs st in (fst st1, (snd st1)\<lparr>gprs := (gprs (snd st1))(RDI := rsp_r (snd st1))\<rparr>))"

definition isr_leave :: "u64 \<Rightarrow> mem \<Rightarrow> regs \<Rightarrow> regs" where
  "isr_leave context m r = (let r1 = pop_regs m (r\<lparr>rsp_r := context\<rparr>) in iretq m (r1\<lparr>rsp_r := rsp_r r1 + 0x10\<rparr>))"

section \<open>Contexts in memory\<close>

definition load_context :: "mem \<Rightarrow> u64 \<Rightarrow> cpu_context_t" where
  "load_context m a = \<lparr>rax = load64 m a, rbx = load64 m (a + 8), rcx = load64 m (a + 16), rdx = load64 m (a + 24), rdi = load64 m (a + 32),
     rsi = load64 m (a + 40), rbp = load64 m (a + 48), r8 = load64 m (a + 56), r9 = load64 m (a + 64), r10 = load64 m (a + 72),
     r11 = load64 m (a + 80), r12 = load64 m (a + 88), r13 = load64 m (a + 96), r14 = load64 m (a + 104), r15 = load64 m (a + 112),
     vec = load64 m (a + 120), error_code = load64 m (a + 128), rip_i = load64 m (a + 136), cs_i = load64 m (a + 144),
     flags_i = load64 m (a + 152), rsp_i = load64 m (a + 160), ss_i = load64 m (a + 168)\<rparr>"

definition context_words :: "cpu_context_t \<Rightarrow> u64 list" where
  "context_words x = [rax x, rbx x, rcx x, rdx x, rdi x, rsi x, rbp x, r8 x, r9 x, r10 x, r11 x, r12 x, r13 x, r14 x, r15 x,
     vec x, error_code x, rip_i x, cs_i x, flags_i x, rsp_i x, ss_i x]"

definition context_of :: "u64 \<Rightarrow> u64 \<Rightarrow> regs \<Rightarrow> cpu_context_t" where
  "context_of v e r = \<lparr>rax = gprs r RAX, rbx = gprs r RBX, rcx = gprs r RCX, rdx = gprs r RDX, rdi = gprs r RDI, rsi = gprs r RSI, rbp = gprs r RBP,
     r8 = gprs r R8, r9 = gprs r R9, r10 = gprs r R10, r11 = gprs r R11, r12 = gprs r R12, r13 = gprs r R13, r14 = gprs r R14, r15 = gprs r R15,
     vec = v, error_code = e, rip_i = rip_r r, cs_i = cs_r r, flags_i = flags_r r, rsp_i = rsp_r r, ss_i = ss_r r\<rparr>"

definition regs_of :: "cpu_context_t \<Rightarrow> regs" where
  "regs_of x = \<lparr>gprs = (\<lambda>g. case g of RAX \<Rightarrow> rax x | RBX \<Rightarrow> rbx x | RCX \<Rightarrow> rcx x | RDX \<Rightarrow> rdx x | RDI \<Rightarrow> rdi x | RSI \<Rightarrow> rsi x | RBP \<Rightarrow> rbp x
       | R8 \<Rightarrow> r8 x | R9 \<Rightarrow> r9 x | R10 \<Rightarrow> r10 x | R11 \<Rightarrow> r11 x | R12 \<Rightarrow> r12 x | R13 \<Rightarrow> r13 x | R14 \<Rightarrow> r14 x | R15 \<Rightarrow> r15 x),
     rsp_r = rsp_i x, rip_r = rip_i x, cs_r = cs_i x, flags_r = flags_i x, ss_r = ss_i x\<rparr>"

lemma regs_of_context_of [simp]: "regs_of (context_of v e r) = r"
  by (cases r) (auto simp: regs_of_def context_of_def fun_eq_iff split: gpr.split)

lemma length_context_words [simp]: "length (context_words x) = 22"
  by (simp add: context_words_def)

lemma context_wordsD: "(\<And>i. i < 22 \<Longrightarrow> load64 m (a + of_nat (8 * i)) = context_words x ! i) \<Longrightarrow> load_context m a = x"
proof -
  assume w: "\<And>i. i < 22 \<Longrightarrow> load64 m (a + of_nat (8 * i)) = context_words x ! i"
  from w [of 0] w [of 1] w [of 2] w [of 3] w [of 4] w [of 5] w [of 6] w [of 7] w [of 8] w [of 9] w [of 10] w [of 11] w [of 12] w [of 13]
    w [of 14] w [of 15] w [of 16] w [of 17] w [of 18] w [of 19] w [of 20] w [of 21]
  show ?thesis by (simp add: load_context_def context_words_def)
qed

lemma load_context_words: "load_context (words_at a (context_words x) m) a = x"
  by (rule context_wordsD, rule load64_words_at) simp_all

lemma load_context_words_under: "load_context (words_at a (context_words x @ ws) m) a = x"
  by (simp only: words_at_append load_context_words)

section \<open>Entry and return\<close>

lemma fold_push64:
  "fold push64 vs (m, r) = (words_at (rsp_r r - of_nat (8 * length vs)) (rev vs) m, r\<lparr>rsp_r := rsp_r r - of_nat (8 * length vs)\<rparr>)"
proof (induction vs arbitrary: m r)
  case (Cons v vs)
  have "rsp_r r - 8 - of_nat (8 * length vs) = rsp_r r - of_nat (8 * length (v # vs))" by (simp add: algebra_simps)
  with Cons.IH [of "store64 m (rsp_r r - 8) v" "r\<lparr>rsp_r := rsp_r r - 8\<rparr>"] show ?case
    by (simp add: push64_def words_at_append algebra_simps)
qed simp

lemma fold_push_reg: "fold push_reg gs st = fold push64 (map (gprs (snd st)) gs) st"
  by (induction gs arbitrary: st) (simp_all add: push_reg_def push64_def)

text \<open>What is pushed, from the first word to the last.\<close>

definition frame_words :: "nat \<Rightarrow> u64 option \<Rightarrow> regs \<Rightarrow> u64 list" where
  "frame_words v code r = [ss_r r, rsp_r r, flags_r r, cs_r r, rip_r r] @ (case code of None \<Rightarrow> [] | Some e \<Rightarrow> [e]) @
     (if code_stub v then [] else [0]) @ [of_nat (stub_vec v)] @
     map (gprs r) [R15, R14, R13, R12, R11, R10, R9, R8, RBP, RSI, RDI, RDX, RCX, RBX, RAX]"

lemma enter_frame:
  fixes v code r stack
  defines "a \<equiv> (stack AND NOT 0xf) - of_nat (8 * length (frame_words v code r))"
  shows "\<exists>r'. isr_enter (stub v (deliver stack isr code (m, r))) = (words_at a (rev (frame_words v code r)) m, r') \<and> rsp_r r' = a \<and> gprs r' RDI = a"
proof -
  define r0 where "r0 = r\<lparr>rsp_r := stack AND NOT 0xf\<rparr>"
  define hw where "hw = [ss_r r, rsp_r r, flags_r r, cs_r r, rip_r r] @ (case code of None \<Rightarrow> [] | Some e \<Rightarrow> [e])"
  define sw :: "u64 list" where "sw = (if code_stub v then [] else [0]) @ [of_nat (stub_vec v)]"
  define gs where "gs = [R15, R14, R13, R12, R11, R10, R9, R8, RBP, RSI, RDI, RDX, RCX, RBX, RAX]"
  define reload where "reload = (\<lambda>x :: regs. x\<lparr>rip_r := isr, cs_r := CODE_OFFSET, flags_r := flags_r r AND NOT 0x34300, ss_r := (if cs_r r AND 3 = 0 then ss_r r else 0)\<rparr>)"
  have d: "deliver stack isr code (m, r) = (fst (fold push64 hw (m, r0)), reload (snd (fold push64 hw (m, r0))))"
    by (cases code) (simp_all add: deliver_def hw_def r0_def reload_def Let_def)
  have s: "stub v st = fold push64 sw st" for st
    by (simp add: stub_def sw_def)
  have p: "push_regs st = fold push64 (map (gprs (snd st)) gs) st" for st
    unfolding push_regs_def gs_def by (rule fold_push_reg)
  let ?a = "rsp_r r0 - of_nat (8 * length hw)"
  let ?b = "?a - of_nat (8 * length sw)"
  have "isr_enter (stub v (deliver stack isr code (m, r))) =
      (words_at (?b - of_nat (8 * length gs)) (rev (map (gprs r) gs)) (words_at ?b (rev sw) (words_at ?a (rev hw) m)),
       (reload r0)\<lparr>rsp_r := ?b - of_nat (8 * length gs), gprs := (gprs r)(RDI := ?b - of_nat (8 * length gs))\<rparr>)"
    unfolding isr_enter_def p s d by (simp add: fold_push64 Let_def reload_def r0_def)
  moreover have "frame_words v code r = hw @ sw @ map (gprs r) gs" by (simp add: frame_words_def hw_def sw_def gs_def)
  ultimately show ?thesis
    by (simp add: a_def words_at_append algebra_simps r0_def)
qed

text \<open>Where the stub and the processor agree on the error code, the frame is the context of the interrupted registers.\<close>

lemma frame_words_context:
  "code_stub v \<longleftrightarrow> code \<noteq> None \<Longrightarrow>
     rev (frame_words v code r) = context_words (context_of (of_nat (stub_vec v)) (case code of None \<Rightarrow> 0 | Some e \<Rightarrow> e) r)"
  by (cases code) (simp_all add: frame_words_def context_words_def context_of_def)

lemma isr_leave_context: "isr_leave a m r = regs_of (load_context m a)"
  by (auto simp: isr_leave_def pop_regs_def pop_reg_def iretq_def regs_of_def load_context_def Let_def fun_eq_iff add.assoc split: gpr.split)

lemma frame_words_length: "code_stub v \<longleftrightarrow> code \<noteq> None \<Longrightarrow> length (frame_words v code r) = 22"
  by (cases code) (simp_all add: frame_words_def)

text \<open>For a double fault the processor pushes an error code and the stub pushes a zero as well: the handler reads every field behind it one word too low.\<close>

lemma double_fault_frame:
  "rev (frame_words 8 (Some e) r) = context_words (context_of 8 0 r\<lparr>rip_i := e, cs_i := rip_r r, flags_i := cs_r r, rsp_i := flags_r r, ss_i := rsp_r r\<rparr>) @ [ss_r r]"
  by (simp add: frame_words_def context_words_def context_of_def code_stub_def stub_vec_def)

section \<open>An interrupt\<close>

definition cpu_bytes :: "cpu \<Rightarrow> mem" where
  "cpu_bytes c = vm_bytes (kmm (ck c))"

definition set_cpu_bytes :: "mem \<Rightarrow> cpu \<Rightarrow> cpu" where
  "set_cpu_bytes m c = c\<lparr>ck := (ck c)\<lparr>kmm := set_bytes m (kmm (ck c))\<rparr>\<rparr>"

text \<open>
  \<open>interrupt_handler\<close> as the stub calls it, with the address of the context. It returns the address it was given, whose context the system
  calls change in place, or the address of the context in the thread that is scheduled next, 16 bytes behind the start of the \<open>thread_t\<close>.
\<close>

definition schedules :: "cpu_context_t \<Rightarrow> cpu \<Rightarrow> bool" where
  "schedules x c \<longleftrightarrow> vec x = 0x68 \<or> (vec x = 0x28 \<and> should_sched c)"

definition call_handler :: "nat \<Rightarrow> nat \<Rightarrow> nat \<Rightarrow> fs_symbols \<Rightarrow> u64 \<Rightarrow> u8 \<Rightarrow> u64 \<Rightarrow> cpu \<Rightarrow> (u64 \<times> cpu) result" where
  "call_handler r d n sy read_sym scancode status c =
     (let x = load_context (cpu_bytes c) status
      in bindE (interrupt_handler r d n sy read_sym scancode x c) (\<lambda>(new_context, c1).
           let p = (if schedules x c then current_thread (ksched (ck c1)) + 16 else status)
           in Inr (p, set_cpu_bytes (words_at p (context_words new_context) (cpu_bytes c1)) c1)))"

definition take_interrupt ::
  "nat \<Rightarrow> nat \<Rightarrow> nat \<Rightarrow> fs_symbols \<Rightarrow> u64 \<Rightarrow> u8 \<Rightarrow> u64 \<Rightarrow> idt_entry list \<Rightarrow> nat \<Rightarrow> u64 option \<Rightarrow> regs \<Rightarrow> cpu \<Rightarrow> (regs \<times> cpu) result" where
  "take_interrupt r d n sy read_sym scancode stack idt v code rg c =
     (let (m, rg1) = isr_enter (stub v (deliver stack (gate_addr (idt ! v)) code (cpu_bytes c, rg)))
      in bindE (call_handler r d n sy read_sym scancode (gprs rg1 RDI) (set_cpu_bytes m c)) (\<lambda>(context, c1).
           Inr (isr_leave context (cpu_bytes c1) rg1, c1)))"

lemma cpu_bytes_set [simp]: "cpu_bytes (set_cpu_bytes m c) = m"
  by (simp add: cpu_bytes_def set_cpu_bytes_def)

lemma ksched_set_cpu_bytes [simp]: "ksched (ck (set_cpu_bytes m c)) = ksched (ck c)"
  by (simp add: set_cpu_bytes_def)

text \<open>The frame of an interrupt: 22 words below the aligned stack pointer.\<close>

definition frame_addr :: "u64 \<Rightarrow> u64" where
  "frame_addr stack = (stack AND NOT 0xf) - 176"

definition int_frame :: "u64 \<Rightarrow> cpu_context_t \<Rightarrow> mem \<Rightarrow> mem" where
  "int_frame stack x m = words_at (frame_addr stack) (context_words x) m"

lemma schedules_set_cpu_bytes [simp]: "schedules x (set_cpu_bytes m c) = schedules x c"
  by (simp add: schedules_def set_cpu_bytes_def)

text \<open>An interrupt is a call of the handler by value.\<close>

lemma take_interrupt_by_value:
  fixes rg :: regs
  assumes "code_stub v \<longleftrightarrow> code \<noteq> None"
  defines "x \<equiv> context_of (of_nat (stub_vec v)) (case code of None \<Rightarrow> 0 | Some e \<Rightarrow> e) rg"
  shows "take_interrupt r d n sy rs scan stack idt v code rg c =
    bindE (interrupt_handler r d n sy rs scan x (set_cpu_bytes (int_frame stack x (cpu_bytes c)) c)) (\<lambda>(x', c1).
      Inr (regs_of x', set_cpu_bytes (words_at (if schedules x c then current_thread (ksched (ck c1)) + 16 else frame_addr stack)
        (context_words x') (cpu_bytes c1)) c1))"
proof -
  obtain rg' where e: "isr_enter (stub v (deliver stack (gate_addr (idt ! v)) code (cpu_bytes c, rg))) =
      (int_frame stack x (cpu_bytes c), rg')" "gprs rg' RDI = frame_addr stack"
    using enter_frame [of v stack "gate_addr (idt ! v)" code "cpu_bytes c" rg] frame_words_context [OF assms(1), of rg]
    by (auto simp: x_def frame_words_length [OF assms(1)] frame_addr_def int_frame_def)
  show ?thesis
    unfolding take_interrupt_def e(1) Let_def prod.case e(2) call_handler_def
    by (simp add: int_frame_def load_context_words isr_leave_context bindE_assoc Let_def split_def)
qed

section \<open>Scheduling interrupts\<close>

lemma space_ready_set_bytes: "space_ready n (set_bytes m s) p = space_ready n s p"
  by (simp add: space_ready_def set_bytes_def upd_def split: option.split)

lemma in_space_set_bytes: "in_space (set_bytes m s, sc) = in_space (s, sc)"
  by (simp add: in_space_def set_bytes_def split: option.split)

lemma on_ring_set_bytes [simp]: "on_ring n q i (set_bytes m s, sc) = on_ring n q i (s, sc)"
  by (simp add: on_ring_def space_ready_set_bytes in_space_set_bytes)

text \<open>Vector 0x80 is the scheduler.\<close>

definition cpu_ring :: "nat \<Rightarrow> run_list \<Rightarrow> nat \<Rightarrow> cpu \<Rightarrow> bool" where
  "cpu_ring n q i c \<longleftrightarrow> on_ring n q i (kmm (ck c), ksched (ck c)) \<and> distinct (map snd (ring q))"

definition ring_regs :: "run_list \<Rightarrow> cpu \<Rightarrow> nat \<Rightarrow> regs option" where
  "ring_regs q c i = map_option regs_of (ring_contexts q (ksched (ck c)) i)"

lemma schedule_interrupt:
  assumes "cpu_ring n q i c"
  shows "\<exists>x' c'. take_interrupt r d n sy rs scan stack idt 0x80 None rg c = Inr (regs_of x', c') \<and> cpu_ring n q (Suc i mod length (ring q)) c' \<and>
    contexts (ksched (ck c')) = (contexts (ksched (ck c)))(snd (ring q ! i) \<mapsto> context_of 0x68 0 rg) \<and>
    ring_contexts q (ksched (ck c')) (Suc i mod length (ring q)) = Some x'"
proof -
  let ?x = "context_of 0x68 0 rg"
  have st: "of_nat (stub_vec 0x80) = (0x68 :: u64)" "\<not> code_stub 0x80" by (simp_all add: stub_vec_def code_stub_def)
  define m where "m = int_frame stack ?x (cpu_bytes c)"
  define m' where "m' = (\<lambda>x' c1. words_at (if schedules ?x c then current_thread (ksched (ck c1)) + 16 else frame_addr stack) (context_words x') (cpu_bytes c1))"
  have t: "take_interrupt r d n sy rs scan stack idt 0x80 None rg c =
      bindE (interrupt_handler r d n sy rs scan ?x (set_cpu_bytes m c)) (\<lambda>(x', c1). Inr (regs_of x', set_cpu_bytes (m' x' c1) c1))"
    using take_interrupt_by_value [of "0x80" None r d n sy rs scan stack idt rg c] st by (simp add: m_def m'_def)
  have on: "on_ring n q i (set_bytes m (kmm (ck c)), ksched (ck c))" using assms by (simp add: cpu_ring_def)
  obtain x' s sc where x': "schedule r n ?x (set_bytes m (kmm (ck c)), ksched (ck c)) = Inr (x', s, sc)"
      "on_ring n q (Suc i mod length (ring q)) (s, sc)" "contexts sc = (contexts (ksched (ck c)))(snd (ring q ! i) \<mapsto> ?x)"
      "contexts sc (current_thread sc) = Some x'"
    using schedule_ring [OF on, of r ?x] on_ring_thread [OF on] by auto
  define c1 where "c1 = send_local_apic_eoi ((set_cpu_bytes m c)\<lparr>ck := (ck (set_cpu_bytes m c))\<lparr>kmm := s, ksched := sc\<rparr>\<rparr>)"
  have "interrupt_handler r d n sy rs scan ?x (set_cpu_bytes m c) = Inr (x', c1)"
    using x'(1) by (simp add: c1_def interrupt_handler_def interrupt_body_def kschedule_def context_of_def set_cpu_bytes_def)
  with t have "take_interrupt r d n sy rs scan stack idt 0x80 None rg c = Inr (regs_of x', set_cpu_bytes (m' x' c1) c1)" by simp
  moreover have "ksched (ck c1) = sc" "kmm (ck c1) = s" by (simp_all add: c1_def send_local_apic_eoi_def set_cpu_bytes_def)
  moreover from this have "cpu_ring n q (Suc i mod length (ring q)) (set_cpu_bytes (m' x' c1) c1)"
    using x'(2) assms by (simp add: cpu_ring_def set_cpu_bytes_def)
  moreover have "ring_contexts q sc (Suc i mod length (ring q)) = Some x'"
    using x'(4) on_ring_thread [OF x'(2)] by (metis ring_contexts_def snd_conv)
  ultimately show ?thesis
    using x'(3) by (intro exI [of _ x'] exI [of _ "set_cpu_bytes (m' x' c1) c1"]) simp
qed

interpretation timer: round_robin "take_interrupt r d n sy rs scan stack idt 0x80 None" "cpu_ring n q" "length (ring q)" "ring_regs q"
  for r d n sy rs scan stack idt q
proof
  fix i c rg rg' c'
  assume p: "cpu_ring n q i c" and t: "take_interrupt r d n sy rs scan stack idt 0x80 None rg c = Inr (rg', c')"
  then obtain x' where x': "rg' = regs_of x'" "contexts (ksched (ck c')) = (contexts (ksched (ck c)))(snd (ring q ! i) \<mapsto> context_of 0x68 0 rg)"
      "ring_contexts q (ksched (ck c')) (Suc i mod length (ring q)) = Some x'"
    using schedule_interrupt [OF p, of r d sy rs scan stack idt rg] by auto
  show "ring_regs q c' (Suc i mod length (ring q)) = Some rg'" using x'(1,3) by (simp add: ring_regs_def)
  have "distinct (map snd (ring q))" "i < length (ring q)" using p by (auto simp: cpu_ring_def dest: on_ring_thread)
  then show "ring_regs q c' j = (if j = i then Some rg else ring_regs q c j)" if "j < length (ring q)" for j
    using ring_contexts_update [OF _ _ that x'(2)] by (simp add: ring_regs_def)
next
  show "cpu_ring n q i c \<Longrightarrow> i < length (ring q)" for i c by (auto simp: cpu_ring_def dest: on_ring_thread)
qed (use schedule_interrupt in blast)

text \<open>System calls, by value.\<close>

lemma syscall_interrupt:
  fixes rg :: regs
  defines "x \<equiv> context_of 0xe6 0 rg"
  shows "take_interrupt r d n sy rs scan stack idt 0xfe None rg c =
     bindE (syscall_handler d n sy rs x (ck (set_cpu_bytes (int_frame stack x (cpu_bytes c)) c))) (\<lambda>(x', k).
       Inr (regs_of x', set_cpu_bytes (int_frame stack x' (vm_bytes (kmm k))) (send_local_apic_eoi (c\<lparr>ck := k\<rparr>))))"
proof -
  have st: "of_nat (stub_vec 0xfe) = (0xe6 :: u64)" "\<not> code_stub 0xfe" by (simp_all add: stub_vec_def code_stub_def)
  have "(set_cpu_bytes m c)\<lparr>ck := k\<rparr> = c\<lparr>ck := k\<rparr>" for m k by (simp add: set_cpu_bytes_def)
  moreover have "vec x = 0xe6" "\<not> schedules x c" by (simp_all add: x_def context_of_def schedules_def)
  ultimately show ?thesis
    using take_interrupt_by_value [of "0xfe" None r d n sy rs scan stack idt rg c] st
    by (simp add: x_def [symmetric] interrupt_handler_def interrupt_body_def bindE_assoc split_def int_frame_def cpu_bytes_def send_local_apic_eoi_def)
qed

section \<open>Properties\<close>

text \<open>
  C9. An interrupt through the assembly stubs is a call of the C handler by value. Whenever the stub of the vector and the processor agree on the error code, the handler is called with a
  context that holds exactly the interrupted registers, with memory changed in the frame below the aligned interrupt stack only; when it returns a context, the processor goes on with
  exactly the registers of this context, which was read from the frame, or from the thread that is current after scheduling.\<close>

theorem interrupt_by_value:
  assumes "code_stub v \<longleftrightarrow> code \<noteq> None" and "x = context_of (of_nat (stub_vec v)) (case code of None \<Rightarrow> 0 | Some e \<Rightarrow> e) rg"
  shows "take_interrupt r d n sy rs scan stack idt v code rg c =
    bindE (interrupt_handler r d n sy rs scan x (set_cpu_bytes (int_frame stack x (cpu_bytes c)) c)) (\<lambda>(x', c1).
      Inr (regs_of x', set_cpu_bytes (words_at (if schedules x c then current_thread (ksched (ck c1)) + 16 else frame_addr stack)
        (context_words x') (cpu_bytes c1)) c1))"
  unfolding assms(2) by (rule take_interrupt_by_value [OF assms(1)])

text \<open>
  C2. A thread goes on with the registers it was interrupted with. When scheduler interrupts arrive one round of the run queue long, the first with the registers \<open>rg\<close> of the
  current thread and the others with any registers of the threads that run in between, then every interrupt returns, and after the last one the processor has
  exactly the registers \<open>rg\<close>, instruction pointer, flags, stack and segments included, and the thread is current again.\<close>

theorem registers_restored:
  assumes "on_ring n q i (kmm (ck c), ksched (ck c))" and "distinct (map snd (ring q))" and "Suc (length rgs) = length (ring q)"
  shows "\<exists>c'. run_steps (take_interrupt r d n sy rs scan stack idt 0x80 None) rg0 (rg # rgs) c = Inr (rg, c') \<and>
    current_thread (ksched (ck c')) = current_thread (ksched (ck c))"
proof -
  have "cpu_ring n q i c" using assms(1,2) by (simp add: cpu_ring_def)
  from timer.round_restores [OF this assms(3), of r d sy rs scan stack idt rg0 rg] obtain c' where
      "run_steps (take_interrupt r d n sy rs scan stack idt 0x80 None) rg0 (rg # rgs) c = Inr (rg, c')" "cpu_ring n q i c'"
    by blast
  then show ?thesis using on_ring_thread [OF assms(1)] by (auto simp: cpu_ring_def dest: on_ring_thread)
qed


section \<open>Examples\<close>

definition example_regs :: regs where
  "example_regs = \<lparr>gprs = (\<lambda>g. if g = RBX then 7 else 0), rsp_r = 0x8000, rip_r = 0x400100, cs_r = USER_CODE_OFFSET, flags_r = 0x202, ss_r = USER_DATA_OFFSET\<rparr>"

definition example_idt :: "idt_entry list" where
  "example_idt = setup_idt 0x5000 (replicate 256 zero_gate)"

definition two_threads :: cpu where
  "two_threads = example_cpu\<lparr>ck := example_kernel\<lparr>kmm := example_spaces\<rparr>\<rparr>"

theorem interrupt_by_value_witness:
  "take_interrupt 1 0 7 example_sy 1 0 0xfff8 example_idt 0xd (Some 5) example_regs two_threads =
    bindE (interrupt_handler 1 0 7 example_sy 1 0 (context_of 0xd 5 example_regs)
        (set_cpu_bytes (int_frame 0xfff8 (context_of 0xd 5 example_regs) (cpu_bytes two_threads)) two_threads)) (\<lambda>(x', c1).
      Inr (regs_of x', set_cpu_bytes (words_at (frame_addr 0xfff8) (context_words x') (cpu_bytes c1)) c1))"
  using interrupt_by_value [of "0xd" "Some 5" "context_of 0xd 5 example_regs" example_regs 1 0 7 example_sy 1 0 "0xfff8" example_idt two_threads]
  by (simp add: code_stub_def stub_vec_def schedules_def context_of_def)

theorem registers_restored_witness:
  "\<exists>c'. run_steps (take_interrupt 1 0 7 example_sy 1 0 0xfff8 example_idt 0x80 None) example_regs [example_regs, example_regs\<lparr>rip_r := 0x500000\<rparr>] two_threads =
      Inr (example_regs, c') \<and> current_thread (ksched (ck c')) = 0x110"
proof -
  have "on_ring 7 example_queue 0 (kmm (ck two_threads), ksched (ck two_threads))"
    using example_on_ring by (simp add: two_threads_def example_kernel_def)
  moreover have "current_thread (ksched (ck two_threads)) = 0x110"
    by (simp add: two_threads_def example_kernel_def example_sched_def)
  ultimately show ?thesis
    using registers_restored [of 7 example_queue 0 two_threads "[example_regs\<lparr>rip_r := 0x500000\<rparr>]" 1 0 example_sy 1 0 "0xfff8" example_idt example_regs example_regs]
    by (simp add: example_ring del: run_steps.simps)
qed

end
