(* ===== verification/Programs.thy ===== *)
theory Programs
  imports Stubs Vmm_frame
begin

text \<open>
  The code that runs in threads: the wrapper and the test threads of kernel/sched/scheduler.c, \<open>execute_syscall\<close> of include/syscall.h, and the user program
  shell/hello_world.c. A program works on the registers and the memory and enters the kernel with the \<open>int\<close> instruction, so its lemmas go through every layer:
  the stubs, the dispatcher, the system call, the handle, the file system, the archive and the console.
\<close>

section \<open>System calls of a program\<close>

text \<open>What does not change while a program runs: step budgets, symbols, the byte at the port of the keyboard, the interrupt stack and the interrupt table.\<close>

record syscall_env =
  ev_r :: nat
  ev_d :: nat
  ev_n :: nat
  ev_sy :: fs_symbols
  ev_read_sym :: u64
  ev_scan :: u8
  ev_stack :: u64
  ev_idt :: "idt_entry list"

definition int_0xfe :: "syscall_env \<Rightarrow> regs \<Rightarrow> cpu \<Rightarrow> (regs \<times> cpu) result" where
  "int_0xfe ev = take_interrupt (ev_r ev) (ev_d ev) (ev_n ev) (ev_sy ev) (ev_read_sym ev) (ev_scan ev) (ev_stack ev) (ev_idt ev) 0xfe None"

definition syscall_regs :: "u64 \<Rightarrow> u64 \<Rightarrow> u64 \<Rightarrow> u64 \<Rightarrow> regs \<Rightarrow> regs" where
  "syscall_regs syscall_num arg0 arg1 arg2 rg = rg\<lparr>gprs := (gprs rg)(RAX := syscall_num, RDI := arg0, RSI := arg1, RDX := arg2)\<rparr>"

definition execute_syscall :: "syscall_env \<Rightarrow> u64 \<Rightarrow> u64 \<Rightarrow> u64 \<Rightarrow> u64 \<Rightarrow> regs \<times> cpu \<Rightarrow> (u64 \<times> regs \<times> cpu) result" where
  "execute_syscall ev syscall_num arg0 arg1 arg2 st =
     bindE (int_0xfe ev (syscall_regs syscall_num arg0 arg1 arg2 (fst st)) (snd st)) (\<lambda>(rg, c). Inr (gprs rg RAX, rg, c))"

section \<open>Threads\<close>

definition idle_main :: "'a result" where
  "idle_main = Inl Hang"

text \<open>\<open>body\<close> is the function of the thread applied to its argument.\<close>

definition user_thread_wrapper :: "syscall_env \<Rightarrow> (regs \<times> cpu \<Rightarrow> (regs \<times> cpu) result) \<Rightarrow> regs \<times> cpu \<Rightarrow> (regs \<times> cpu) result" where
  "user_thread_wrapper ev body st =
     bindE (body st) (\<lambda>st1.
     bindE (execute_syscall ev 60 0 0 0 st1) (\<lambda>_. idle_main))"

definition kernel_thread_wrapper :: "(regs \<times> cpu \<Rightarrow> (regs \<times> cpu) result) \<Rightarrow> regs \<times> cpu \<Rightarrow> (regs \<times> cpu) result" where
  "kernel_thread_wrapper body st =
     bindE (body st) (\<lambda>(rg, c).
     bindE (exit_thread (kmm (ck c), ksched (ck c))) (\<lambda>_. Inl Hang))"

definition print1 :: "cpu \<Rightarrow> cpu" where
  "print1 = fold (\<lambda>_. fold (\<lambda>_. print_on (printstr (map of_char ''Printing 1'' @ [10]))) [0 ..< 10]) [0 ..< 5 :: nat]"

text \<open>A local array that is initialised from a string literal.\<close>

definition init_local :: "u64 \<Rightarrow> string \<Rightarrow> cpu \<Rightarrow> cpu" where
  "init_local a str c = set_cpu_bytes (bytes_at a (map of_char str @ [0]) (cpu_bytes c)) c"

text \<open>\<open>filename\<close> and \<open>buf\<close> are the addresses of the local arrays. The handle is an \<open>int\<close>.\<close>

definition print2 :: "syscall_env \<Rightarrow> u64 \<Rightarrow> u64 \<Rightarrow> regs \<times> cpu \<Rightarrow> (regs \<times> cpu) result" where
  "print2 ev filename buf st =
     bindE (execute_syscall ev 2 filename 0 0 (fst st, init_local filename ''/file2.txt'' (snd st))) (\<lambda>(res, st1).
       let file_handle = ucast res :: u32
       in bindE (execute_syscall ev 0 (scast file_handle) buf 10 st1) (\<lambda>(_, rg2, c2).
            let c3 = set_cpu_bytes ((cpu_bytes c2)(buf + 10 := 0)) c2
            in bindE (execute_syscall ev 1 buf 0 0 (rg2, c3)) (\<lambda>(_, st4). Inr st4)))"

text \<open>The user program.\<close>

definition hello_main :: "syscall_env \<Rightarrow> u64 \<Rightarrow> regs \<times> cpu \<Rightarrow> (regs \<times> cpu) result" where
  "hello_main ev str st =
     bindE (execute_syscall ev 1 str 0 0 (fst st, init_local str ''Hello from Userspace!'' (snd st))) (\<lambda>(_, st1). Inr st1)"

section \<open>Areas of memory\<close>

definition area :: "u64 \<Rightarrow> nat \<Rightarrow> u64 set" where
  "area a n = {b. unat (b - a) < n}"

definition same_off :: "u64 set \<Rightarrow> mem \<Rightarrow> mem \<Rightarrow> bool" where
  "same_off A m m' \<longleftrightarrow> (\<forall>b. b \<notin> A \<longrightarrow> m' b = m b)"

lemma same_off_trans: "same_off A m m' \<Longrightarrow> same_off A m' m'' \<Longrightarrow> same_off A m m''"
  by (simp add: same_off_def)

lemma same_off_mono: "same_off A m m' \<Longrightarrow> A \<subseteq> B \<Longrightarrow> same_off B m m'"
  by (auto simp: same_off_def)

definition frame_area :: "u64 \<Rightarrow> u64 set" where
  "frame_area stack = area (frame_addr stack) 176"

lemma int_frame_off: "same_off (frame_area stack) m (int_frame stack x m)"
  by (simp add: same_off_def frame_area_def area_def int_frame_def words_at_other)

lemma bytes_at_off: "length bs < 2 ^ 64 \<Longrightarrow> same_off (area a (length bs)) m (bytes_at a bs m)"
  by (simp add: same_off_def area_def bytes_at_eq)

lemma memcpy_off: "n < 2 ^ 64 \<Longrightarrow> same_off (area a n) m (memcpy m a src n)"
  by (simp add: same_off_def area_def memcpy_outside)

lemma eoi_simps [simp]:
  "ck (send_local_apic_eoi c) = ck c" "ck (set_cpu_bytes m c) = (ck c)\<lparr>kmm := set_bytes m (kmm (ck c))\<rparr>"
  by (simp_all add: send_local_apic_eoi_def set_cpu_bytes_def)

lemma init_local_string:
  assumes "(0 :: u8) \<notin> set (map of_char str)" and "Suc (length str) = n" and "n < 2 ^ 64"
  shows "holds_string (cpu_bytes (init_local a str c)) a (map of_char str)" and "same_off (area a n) (cpu_bytes c) (cpu_bytes (init_local a str c))"
    and "ck (init_local a str c) = (ck c)\<lparr>kmm := set_bytes (cpu_bytes (init_local a str c)) (kmm (ck c))\<rparr>"
proof -
  show "holds_string (cpu_bytes (init_local a str c)) a (map of_char str)"
    using assms unfolding holds_string_def holds_bytes_iff by (auto simp: init_local_def bytes_at_eq unat_of_nat_small nth_append)
  show "same_off (area a n) (cpu_bytes c) (cpu_bytes (init_local a str c))"
    using bytes_at_off [of "map of_char str @ [0]" a "cpu_bytes c"] assms(2,3) by (simp add: init_local_def)
qed (simp add: init_local_def)

lemma area_nth: "k < n \<Longrightarrow> n \<le> 2 ^ 64 \<Longrightarrow> a + of_nat k \<in> area a n"
  by (simp add: area_def unat_of_nat_small)

lemma holds_string_off:
  assumes "holds_string m a cs" and "same_off A m m'" and "A \<inter> area a n = {}" and "length cs < n" and "n < 2 ^ 64"
  shows "holds_string m' a cs"
proof -
  have "m' (a + of_nat k) = m (a + of_nat k)" if "k \<le> length cs" for k
    using area_nth [of k n a] that assms(2-5) by (auto simp: same_off_def)
  then show ?thesis using assms(1) by (simp add: holds_string_iff)
qed

section \<open>System calls by value\<close>

lemma execute_syscall_eq:
  fixes rg :: regs and num a0 a1 a2 :: u64
  defines "x \<equiv> context_of 0xe6 0 (syscall_regs num a0 a1 a2 rg)"
  shows "execute_syscall ev num a0 a1 a2 (rg, c) =
    bindE (syscall_handler (ev_d ev) (ev_n ev) (ev_sy ev) (ev_read_sym ev) x
        ((ck c)\<lparr>kmm := set_bytes (int_frame (ev_stack ev) x (cpu_bytes c)) (kmm (ck c))\<rparr>)) (\<lambda>(x', k).
      Inr (rax x', regs_of x', set_cpu_bytes (int_frame (ev_stack ev) x' (vm_bytes (kmm k))) (send_local_apic_eoi (c\<lparr>ck := k\<rparr>))))"
proof -
  have "gprs (regs_of y) RAX = rax y" for y by (simp add: regs_of_def)
  moreover have "ck (set_cpu_bytes m c) = (ck c)\<lparr>kmm := set_bytes m (kmm (ck c))\<rparr>" for m by (simp add: set_cpu_bytes_def)
  ultimately show ?thesis
    by (simp add: execute_syscall_def int_0xfe_def syscall_interrupt x_def bindE_assoc split_def)
qed

lemma syscall_context:
  "rax (context_of v e (syscall_regs num a0 a1 a2 rg)) = num" "rdi (context_of v e (syscall_regs num a0 a1 a2 rg)) = a0"
  "rsi (context_of v e (syscall_regs num a0 a1 a2 rg)) = a1" "rdx (context_of v e (syscall_regs num a0 a1 a2 rg)) = a2"
  by (simp_all add: context_of_def syscall_regs_def)

text \<open>The write call of a program prints the string at its argument and leaves all registers but the four of the call.\<close>

lemma execute_write:
  assumes "holds_string (cpu_bytes c) str cs" and "frame_area (ev_stack ev) \<inter> area str l = {}" and "length cs < ev_n ev"
    and "length cs < l" and "l < 2 ^ 64" and "console_wf (kcon (ck c))" and "\<not> locked (printf_lock (kcon (ck c)))"
  shows "\<exists>c'. execute_syscall ev 1 str 0 0 (rg, c) = Inr (1, syscall_regs 1 str 0 0 rg, c') \<and>
    screen_abs (kcon (ck c')) = fold term_put cs (screen_abs (kcon (ck c)))"
proof -
  let ?x = "context_of 0xe6 0 (syscall_regs 1 str 0 0 rg)"
  let ?k = "(ck c)\<lparr>kmm := set_bytes (int_frame (ev_stack ev) ?x (cpu_bytes c)) (kmm (ck c))\<rparr>"
  have "holds_string (vm_bytes (kmm ?k)) (rdi ?x) cs"
    using holds_string_off [OF assms(1) int_frame_off assms(2,4,5)] by (simp add: syscall_context)
  then obtain con where "syscall_handler (ev_d ev) (ev_n ev) (ev_sy ev) (ev_read_sym ev) ?x ?k = Inr (?x, ?k\<lparr>kcon := con\<rparr>)"
      "screen_abs con = fold term_put cs (screen_abs (kcon ?k))"
    using syscall_write_step [of ?x ?k cs "ev_n ev" "ev_d ev" "ev_sy ev" "ev_read_sym ev"] assms(3,6,7) by (auto simp: syscall_context)
  then show ?thesis by (simp add: execute_syscall_eq syscall_context)
qed

text \<open>The path \<open>/ys\<close> leads to a file of the ram disk with the given contents, which start at \<open>src\<close>.\<close>

definition disk_file :: "fs_symbols \<Rightarrow> fs \<Rightarrow> u8 list \<Rightarrow> u64 \<Rightarrow> u8 list \<Rightarrow> mem \<Rightarrow> bool" where
  "disk_file sy f ys src content m \<longleftrightarrow> (\<exists>p mps a fs j. mountpoints f = p # mps \<and> root_mount sy m p \<and> archive_at m a fs \<and>
     file_headers f = header_table a fs \<and> ys \<noteq> [] \<and> first_match ys fs = Some j \<and> snd (fs ! j) = content \<and> header_addrs a fs ! j + 512 = src)"

text \<open>There is a free descriptor, a free handle of the current process, and room for the resource.\<close>

definition can_open :: "nat \<Rightarrow> nat \<Rightarrow> kernel \<Rightarrow> bool" where
  "can_open d n k \<longleftrightarrow> (\<exists>i. free_slot (vfs_opened_files (kfs k)) i) \<and>
     (\<exists>tbl. table_of k (current_process (ksched k)) = Some tbl \<and> length tbl = MAX_RESOURCES \<and> 0 \<in> set tbl) \<and> current_process (ksched k) \<noteq> 0 \<and>
     (\<exists>r s. kalloc d n 40 (kmm k) = Inr (r, s) \<and> r \<noteq> 0)"

lemma can_open_set_bytes: "can_open d n k \<Longrightarrow> can_open d n (k\<lparr>kmm := set_bytes m (kmm k)\<rparr>)"
  by (auto simp: can_open_def table_of_def byte_free_set_bytes [OF byte_free_ops(1)] mapE_eq_Inr simp del: split_paired_Ex split_paired_All)

lemma regs_of_rax: "regs_of (context_of v e rg\<lparr>rax := w\<rparr>) = rg\<lparr>gprs := (gprs rg)(RAX := w)\<rparr>"
  by (cases rg) (auto simp: regs_of_def context_of_def fun_eq_iff split: gpr.split)

lemma execute_open:
  assumes disk: "\<And>m. same_off (frame_area (ev_stack ev)) (cpu_bytes c) m \<Longrightarrow> disk_file (ev_sy ev) (kfs (ck c)) ys src content m"
    and path: "holds_string (cpu_bytes c) path (ch # ys)" "frame_area (ev_stack ev) \<inter> area path l = {}" "length (ch # ys) < l" "l < 2 ^ 64"
    and can: "can_open (ev_d ev) (ev_n ev) (ck c)"
  obtains h fd m0 c' where "execute_syscall ev 2 path 0 0 (rg, c) = Inr (of_nat h, syscall_regs (of_nat h) path 0 0 rg, c')"
    and "h < MAX_RESOURCES" and "handle_reads (ev_read_sym ev) (ck c') h fd" and "opened_as m0 fd content" and "file_buffer fd = src"
    and "kcon (ck c') = kcon (ck c)" and "mountpoints (kfs (ck c')) = mountpoints (kfs (ck c))" and "same_off (frame_area (ev_stack ev)) (cpu_bytes c) (cpu_bytes c')"
proof -
  let ?x = "context_of 0xe6 0 (syscall_regs 2 path 0 0 rg)" and ?S = "frame_area (ev_stack ev)"
  let ?m = "int_frame (ev_stack ev) ?x (cpu_bytes c)"
  let ?k = "(ck c)\<lparr>kmm := set_bytes ?m (kmm (ck c))\<rparr>"
  from disk [OF int_frame_off, of ?x] obtain p mps a fs j where f: "mountpoints (kfs ?k) = p # mps" "root_mount (ev_sy ev) (vm_bytes (kmm ?k)) p"
      "archive_at (vm_bytes (kmm ?k)) a fs" "file_headers (kfs ?k) = header_table a fs" "first_match ys fs = Some j" "snd (fs ! j) = content"
      "header_addrs a fs ! j + 512 = src" "ys \<noteq> []"
    by (auto simp: disk_file_def)
  have str: "holds_string (vm_bytes (kmm ?k)) path (ch # ys)"
    using holds_string_off [OF path(1) int_frame_off path(2-4), of ?x] by simp
  from can_open_set_bytes [OF can, of ?m] obtain i tbl r s where o: "free_slot (vfs_opened_files (kfs ?k)) i"
      "table_of ?k (current_process (ksched ?k)) = Some tbl" "length tbl = MAX_RESOURCES" "0 \<in> set tbl" "current_process (ksched ?k) \<noteq> 0"
      "kalloc (ev_d ev) (ev_n ev) 40 (kmm ?k) = Inr (r, s)" "r \<noteq> 0"
    by (auto simp: can_open_def)
  obtain h fd k1 where k1: "syscall_handler (ev_d ev) (ev_n ev) (ev_sy ev) (ev_read_sym ev) ?x ?k = Inr (?x\<lparr>rax := of_nat h\<rparr>, k1)"
      "handle_reads (ev_read_sym ev) k1 h fd" "h < MAX_RESOURCES" "kmm k1 = s" "kcon k1 = kcon ?k" "mountpoints (kfs k1) = mountpoints (kfs ?k)"
      "opened_as (vm_bytes (kmm ?k)) fd (snd (fs ! j))" "file_buffer fd = header_addrs a fs ! j + 512"
    by (rule syscall_open_step [OF f(1-4) str f(8,5) o, where ctx = ?x and read_sym = "ev_read_sym ev"]) (simp_all add: syscall_context)
  let ?c = "set_cpu_bytes (int_frame (ev_stack ev) (?x\<lparr>rax := of_nat h\<rparr>) (vm_bytes s)) (send_local_apic_eoi (c\<lparr>ck := k1\<rparr>))"
  have "vm_bytes s = ?m" using byte_free_keeps(3) [OF byte_free_ops(1) o(6)] by simp
  then have "same_off ?S (cpu_bytes c) (cpu_bytes ?c)" using same_off_trans [OF int_frame_off int_frame_off] by simp
  moreover have "execute_syscall ev 2 path 0 0 (rg, c) = Inr (of_nat h, syscall_regs (of_nat h) path 0 0 rg, ?c)"
    using k1(1,4) by (simp add: execute_syscall_eq regs_of_rax) (simp add: syscall_regs_def fun_upd_twist)
  ultimately show ?thesis using that [of h ?c fd "vm_bytes (kmm ?k)"] k1(2,3,5-8) f(6,7) by simp
qed

lemma execute_read:
  assumes hr: "handle_reads (ev_read_sym ev) (ck c) h fd" "h < MAX_RESOURCES" and fd: "opened_as m0 fd content" and nb: "nb < 2 ^ 64" "PAGE_SIZE \<le> buf"
    and disk: "\<And>m. same_off (frame_area (ev_stack ev)) (cpu_bytes c) m \<Longrightarrow> \<exists>p mps. mountpoints (kfs (ck c)) = p # mps \<and> tar_mount (ev_sy ev) m p"
  obtains m c' where "execute_syscall ev 0 (of_nat h) buf (of_nat nb) (rg, c) = Inr (0, syscall_regs 0 (of_nat h) buf (of_nat nb) rg, c')"
    and "same_off (frame_area (ev_stack ev)) (cpu_bytes c) m" and "same_off (frame_area (ev_stack ev)) (memcpy m buf (file_buffer fd) nb) (cpu_bytes c')"
    and "kcon (ck c') = kcon (ck c)"
proof -
  let ?x = "context_of 0xe6 0 (syscall_regs 0 (of_nat h) buf (of_nat nb) rg)"
  let ?m = "int_frame (ev_stack ev) ?x (cpu_bytes c)"
  let ?k = "(ck c)\<lparr>kmm := set_bytes ?m (kmm (ck c))\<rparr>"
  from disk [OF int_frame_off, of ?x] obtain p mps where "mountpoints (kfs ?k) = p # mps" "tar_mount (ev_sy ev) (vm_bytes (kmm ?k)) p" by auto
  from syscall_read_step [OF _ hr(2) this fd nb, of "ev_read_sym ev" ?x "ev_d ev" "ev_n ev"] hr(1) obtain f
    where "syscall_handler (ev_d ev) (ev_n ev) (ev_sy ev) (ev_read_sym ev) ?x ?k =
      Inr (?x, ?k\<lparr>kmm := set_bytes (memcpy ?m buf (file_buffer fd) nb) (kmm ?k), kfs := f\<rparr>)"
    by (auto simp: syscall_context)
  then show ?thesis
    by (intro that [where m = ?m and c' = "set_cpu_bytes (int_frame (ev_stack ev) ?x (memcpy ?m buf (file_buffer fd) nb))
          (send_local_apic_eoi (c\<lparr>ck := ?k\<lparr>kmm := set_bytes (memcpy ?m buf (file_buffer fd) nb) (kmm ?k), kfs := f\<rparr>\<rparr>))"])
       (simp_all add: execute_syscall_eq syscall_context int_frame_off)
qed

lemma disk_file_content: "disk_file sy f ys src content m \<Longrightarrow> k < length content \<Longrightarrow> m (src + of_nat k) = content ! k"
  using header_addrs_nth [of m] first_match_bound by (fastforce simp: disk_file_def archive_at_def)

lemma disk_file_mount: "disk_file sy f ys src content m \<Longrightarrow> \<exists>p mps. mountpoints f = p # mps \<and> tar_mount sy m p"
  by (auto simp: disk_file_def root_mount_def)

lemma handle_int:
  assumes "h < MAX_RESOURCES"
  shows "scast (ucast (of_nat h :: u64) :: u32) = (of_nat h :: u64)"
proof -
  have "h = 0 \<or> h = 1 \<or> h = 2 \<or> h = 3 \<or> h = 4" using assms by (simp add: MAX_RESOURCES_def) arith
  then show ?thesis by auto
qed

text \<open>The buffer after the read call and the store of the terminator.\<close>

lemma buffer_string:
  assumes m1: "same_off S (memcpy m buf src 10) m'" and S: "S \<inter> area buf 11 = {}"
    and content: "\<And>k. k < 10 \<Longrightarrow> m (src + of_nat k) = content ! k" "10 \<le> length content" "0 \<notin> set (take 10 content)" and far: "10 \<le> unat (buf - src)"
  shows "holds_string (m'(buf + 10 := 0)) buf (take 10 content)"
proof -
  have "m' (buf + of_nat k) = content ! k" if k: "k < 10" for k
  proof -
    have "buf + of_nat k \<notin> S" using area_nth [of k 11 buf] S k by auto
    then have "m' (buf + of_nat k) = memcpy m buf src 10 (buf + of_nat k)" using m1 by (simp add: same_off_def)
    also have "\<dots> = m (src + of_nat k)" using far k by (simp add: memcpy_eq unat_of_nat_small)
    finally show ?thesis using content(1) k by simp
  qed
  moreover have "(of_nat k :: u64) \<noteq> 10" if "k < 10" for k
    using that unat_of_nat_small [of k, where 'a = 64] by auto
  moreover have "content ! k \<noteq> 0" if "k < 10" for k
    using that content(2,3) by (auto simp: in_set_conv_nth)
  ultimately show ?thesis using content(2) by (simp add: holds_string_iff)
qed

section \<open>Properties\<close>

text \<open>
  C1. A thread reads a file, end to end. Let the name file2.txt lead to a file of the ram disk of at least ten bytes, none of the first ten zero, whatever the locals of \<open>print2\<close> and the interrupt frame
  hold; let the locals and the frame not overlap; and let there be a free descriptor, a free handle and room on the heap. Then the thread body \<open>print2\<close>, with its
  three \<open>int\<close> instructions through stubs, dispatcher, system calls, handles, file system and console, returns; the console has printed exactly the first ten bytes of the file,
  and the registers but those of the calls are as before.\<close>

theorem print2_prints_file:
  assumes T: "T = frame_area (ev_stack ev) \<union> area filename 11 \<union> area buf 11"
    and disk: "\<And>m. same_off T (cpu_bytes c) m \<Longrightarrow> disk_file (ev_sy ev) (kfs (ck c)) (map of_char ''file2.txt'') src content m"
    and content: "10 \<le> length content" "0 \<notin> set (take 10 content)"
    and areas: "frame_area (ev_stack ev) \<inter> area filename 11 = {}" "frame_area (ev_stack ev) \<inter> area buf 11 = {}" "10 \<le> unat (buf - src)" "PAGE_SIZE \<le> buf"
    and can: "can_open (ev_d ev) (ev_n ev) (ck c)" "10 < ev_n ev"
    and con: "console_wf (kcon (ck c))" "\<not> locked (printf_lock (kcon (ck c)))"
  shows "\<exists>rg' c'. print2 ev filename buf (rg, c) = Inr (rg', c') \<and> screen_abs (kcon (ck c')) = fold term_put (take 10 content) (screen_abs (kcon (ck c))) \<and>
    (\<forall>g. g \<notin> {RAX, RDI, RSI, RDX} \<longrightarrow> gprs rg' g = gprs rg g) \<and> rsp_r rg' = rsp_r rg \<and> rip_r rg' = rip_r rg"
proof -
  let ?S = "frame_area (ev_stack ev)" and ?ys = "map of_char ''file2.txt'' :: u8 list"
  let ?c1 = "init_local filename ''/file2.txt'' c"
  have off: "same_off A m m' \<Longrightarrow> A \<subseteq> T \<Longrightarrow> same_off T m m'" for A m m' by (rule same_off_mono)
  have str: "(0 :: u8) \<notin> set (map of_char ''/file2.txt'')" "Suc (length ''/file2.txt'') = 11" "(11 :: nat) < 2 ^ 64" by simp_all
  note local = init_local_string [OF str, of filename c]
  have c1: "same_off T (cpu_bytes c) (cpu_bytes ?c1)" by (rule off [OF local(2)]) (auto simp: T)
  have name: "holds_string (cpu_bytes ?c1) filename (47 # ?ys)" using local(1) by simp
  have sub: "?S \<subseteq> T" by (auto simp: T)
  have disk': "disk_file (ev_sy ev) (kfs (ck c)) ?ys src content m'" if "same_off T (cpu_bytes c) m" "same_off ?S m m'" for m m'
    by (rule disk [OF same_off_trans [OF that(1) off [OF that(2) sub]]])
  have kfs1: "kfs (ck ?c1) = kfs (ck c)" "kcon (ck ?c1) = kcon (ck c)" "can_open (ev_d ev) (ev_n ev) (ck ?c1)"
    using can_open_set_bytes [OF can(1)] by (simp_all add: local(3))
  obtain h fd m0 c2 where o: "execute_syscall ev 2 filename 0 0 (rg, ?c1) = Inr (of_nat h, syscall_regs (of_nat h) filename 0 0 rg, c2)"
      "h < MAX_RESOURCES" "handle_reads (ev_read_sym ev) (ck c2) h fd" "opened_as m0 fd content" "file_buffer fd = src"
      "kcon (ck c2) = kcon (ck c)" "mountpoints (kfs (ck c2)) = mountpoints (kfs (ck c))" "same_off ?S (cpu_bytes ?c1) (cpu_bytes c2)"
    by (rule execute_open [OF _ name areas(1) _ _ kfs1(3), of src content rg]) (use disk' [OF c1] kfs1(1,2) in simp_all)
  have c2: "same_off T (cpu_bytes c) (cpu_bytes c2)" by (rule same_off_trans [OF c1 off [OF o(8) sub]])
  let ?rg2 = "syscall_regs (of_nat h) filename 0 0 rg"
  obtain m c3 where r: "execute_syscall ev 0 (of_nat h) buf (of_nat 10) (?rg2, c2) = Inr (0, syscall_regs 0 (of_nat h) buf (of_nat 10) ?rg2, c3)"
      "same_off ?S (cpu_bytes c2) m" "same_off ?S (memcpy m buf src 10) (cpu_bytes c3)" "kcon (ck c3) = kcon (ck c2)"
    by (rule execute_read [OF o(3,2,4), where nb = 10 and buf = buf and rg = ?rg2])
       (use disk_file_mount [OF disk' [OF c2]] areas(4) in \<open>simp_all add: o(5,7)\<close>)
  let ?c4 = "set_cpu_bytes ((cpu_bytes c3)(buf + 10 := 0)) c3"
  have "holds_string (cpu_bytes ?c4) buf (take 10 content)"
    using buffer_string [OF r(3) areas(2) disk_file_content [OF disk' [OF c2 r(2)]]] content areas(3) by simp
  then obtain c5 where w: "execute_syscall ev 1 buf 0 0 (syscall_regs 0 (of_nat h) buf (of_nat 10) ?rg2, ?c4) =
        Inr (1, syscall_regs 1 buf 0 0 (syscall_regs 0 (of_nat h) buf (of_nat 10) ?rg2), c5)"
      "screen_abs (kcon (ck c5)) = fold term_put (take 10 content) (screen_abs (kcon (ck c)))"
    using execute_write [of ?c4 buf "take 10 content" ev 11 "syscall_regs 0 (of_nat h) buf (of_nat 10) ?rg2"] areas(2) can(2) con content(1) r(4) o(6) by auto
  have "print2 ev filename buf (rg, c) = Inr (syscall_regs 1 buf 0 0 (syscall_regs 0 (of_nat h) buf (of_nat 10) ?rg2), c5)"
    using o(1,2) r(1) w(1) by (simp add: print2_def handle_int)
  then show ?thesis using w(2) by (auto simp: syscall_regs_def)
qed

text \<open>
  The user program prints its greeting: if its string is outside the interrupt frame, \<open>main\<close> of hello_world.c returns and the console has printed the greeting.\<close>

theorem hello_prints:
  assumes "frame_area (ev_stack ev) \<inter> area str 22 = {}" and "21 < ev_n ev" and "console_wf (kcon (ck c))" and "\<not> locked (printf_lock (kcon (ck c)))"
  shows "\<exists>rg' c'. hello_main ev str (rg, c) = Inr (rg', c') \<and>
    screen_abs (kcon (ck c')) = fold term_put (map of_char ''Hello from Userspace!'') (screen_abs (kcon (ck c)))"
proof -
  let ?s = "''Hello from Userspace!''"
  have str: "(0 :: u8) \<notin> set (map of_char ?s)" "Suc (length ?s) = 22" "(22 :: nat) < 2 ^ 64" by simp_all
  note local = init_local_string [OF str, of str c]
  have len: "length (map of_char ?s :: u8 list) = 21" by simp
  have "\<exists>c'. execute_syscall ev 1 str 0 0 (rg, init_local str ?s c) = Inr (1, syscall_regs 1 str 0 0 rg, c') \<and>
      screen_abs (kcon (ck c')) = fold term_put (map of_char ?s) (screen_abs (kcon (ck (init_local str ?s c))))"
    by (rule execute_write [OF local(1) assms(1)]) (use assms(2-) in \<open>simp_all only: len local(3) kernel.simps, simp_all\<close>)
  then show ?thesis by (auto simp: hello_main_def local(3))
qed

section \<open>An example\<close>

text \<open>A ram disk with one file of ten bytes, and a thread with its locals above it.\<close>

definition digits_file :: "tar_file list" where
  "digits_file = [(map of_char ''file2.txt'', map of_char ''0123456789'')]"

definition digits_ram :: mem where
  "digits_ram = bytes_at 0x10000 (map of_char ''file2.txt'') (bytes_at 0x1007c (map of_char ''00000000012'')
     (bytes_at 0x10200 (map of_char ''0123456789'') (bytes_at 0x20000 str_tar (bytes_at 0x20060 str_root (bytes_at 0x21000 str_tar (\<lambda>_. 0))))))"

definition digits_cpu :: cpu where
  "digits_cpu = example_cpu\<lparr>ck := example_kernel\<lparr>kmm := set_bytes digits_ram example_mm\<rparr>\<rparr>"

definition digits_env :: syscall_env where
  "digits_env = \<lparr>ev_r = 1, ev_d = 0, ev_n = 22, ev_sy = example_sy, ev_read_sym = 1, ev_scan = 0, ev_stack = 0x50000, ev_idt = example_idt\<rparr>"

lemma digits_disk:
  assumes "\<And>b. 0x10000 \<le> b \<Longrightarrow> b < 0x30000 \<Longrightarrow> m b = digits_ram b"
  shows "disk_file example_sy example_fs (map of_char ''file2.txt'') 0x10200 (map of_char ''0123456789'') m"
proof -
  have "archive_at m 0x10000 digits_file"
    by (simp add: archive_at_def digits_file_def holds_string_def assms holds_octal_def octal_digit_def upt_rec archive_len_def file_span_def padded_def
        HEADER_LIST_SIZE_def PAGE_SIZE_def) (simp add: digits_ram_def str_tar_def str_root_def)
  moreover have "root_mount example_sy m 0x20000"
    by (simp add: root_mount_def tar_mount_def example_sy_def holds_string_def str_tar_def str_root_def mp_type_def mp_mountpoint_def assms)
      (simp add: digits_ram_def str_tar_def str_root_def)
  moreover have "header_table 0x10000 digits_file = [0x10000, 0, 0, 0, 0]"
    by (simp add: header_table_def digits_file_def HEADER_LIST_SIZE_def numeral_eq_Suc)
  moreover have "first_match (map of_char ''file2.txt'') digits_file = Some 0"
    by (simp add: digits_file_def loose_match_def)
  ultimately show ?thesis
    unfolding disk_file_def
    by (intro exI [of _ "0x20000"] exI [of _ "replicate 11 0"] exI [of _ "0x10000"] exI [of _ digits_file] exI [of _ 0])
       (simp add: example_fs_def digits_file_def)
qed

lemma area_above:
  fixes a b :: u64
  assumes "b < a" and "unat a + n < 2 ^ 64"
  shows "b \<notin> area a n"
  using assms by (simp add: area_def unat_sub_if_size word_size word_less_nat_alt)

lemma digits_can_open: "can_open 0 22 (ck digits_cpu)"
proof -
  obtain h' where "kalloc 0 22 40 (set_bytes digits_ram example_mm) = Inr (haddr 5, h', snd (set_bytes digits_ram example_mm))"
    using example_kalloc_any [of 40 22 digits_ram] by auto
  moreover have "haddr 5 \<noteq> 0" by (simp add: haddr_def heap_start_def KERNEL_HEAP_START_def)
  ultimately show ?thesis
    using example_slot by (auto simp: can_open_def digits_cpu_def example_cpu_def example_kernel_def table_of_def example_sched_def zero_process_def
        MAX_RESOURCES_def)
qed

theorem print2_prints_file_witness:
  "\<exists>rg' c'. print2 digits_env 0x40000 0x41000 (example_regs, digits_cpu) = Inr (rg', c') \<and>
    screen_abs (kcon (ck c')) = fold term_put (map of_char ''0123456789'') (screen_abs blank_console) \<and> gprs rg' RBX = 7"
proof -
  let ?T = "frame_area (ev_stack digits_env) \<union> area 0x40000 11 \<union> area 0x41000 11" and ?s = "map of_char ''0123456789'' :: u8 list"
  have disk: "disk_file (ev_sy digits_env) (kfs (ck digits_cpu)) (map of_char ''file2.txt'') 0x10200 ?s m" if "same_off ?T (cpu_bytes digits_cpu) m" for m
  proof -
    have "m b = digits_ram b" if b: "b < 0x30000" for b
    proof -
      have "b < 0x40000" "b < 0x41000" "b < 0x4ff50" using b by (auto simp: word_less_nat_alt)
      then have "b \<notin> ?T" by (simp add: area_above frame_area_def frame_addr_def digits_env_def)
      with \<open>same_off ?T (cpu_bytes digits_cpu) m\<close> show ?thesis by (simp add: same_off_def digits_cpu_def cpu_bytes_def)
    qed
    then show ?thesis using digits_disk [of m] by (simp add: digits_env_def digits_cpu_def example_kernel_def)
  qed
  have disjoint: "frame_area (ev_stack digits_env) \<inter> area 0x40000 11 = {}" "frame_area (ev_stack digits_env) \<inter> area 0x41000 11 = {}"
    by (auto simp: frame_area_def frame_addr_def digits_env_def area_def unat_sub_if_size word_size split: if_splits)
  have len: "length ?s = 10" "take 10 ?s = ?s" by simp_all
  have con: "kcon (ck digits_cpu) = blank_console" by (simp add: digits_cpu_def example_kernel_def)
  have "\<exists>rg' c'. print2 digits_env 0x40000 0x41000 (example_regs, digits_cpu) = Inr (rg', c') \<and>
      screen_abs (kcon (ck c')) = fold term_put (take 10 ?s) (screen_abs (kcon (ck digits_cpu))) \<and>
      (\<forall>g. g \<notin> {RAX, RDI, RSI, RDX} \<longrightarrow> gprs rg' g = gprs example_regs g) \<and> rsp_r rg' = rsp_r example_regs \<and> rip_r rg' = rip_r example_regs"
    using digits_can_open blank_console_wf
    by (intro print2_prints_file [OF refl disk _ _ disjoint]) (simp_all add: con digits_env_def blank_console_def PAGE_SIZE_def)
  then show ?thesis by (auto simp: len con example_regs_def)
qed

theorem hello_prints_witness:
  "\<exists>rg' c'. hello_main digits_env 0x40000 (example_regs, digits_cpu) = Inr (rg', c') \<and>
    screen_abs (kcon (ck c')) = fold term_put (map of_char ''Hello from Userspace!'') (screen_abs (kcon (ck digits_cpu)))"
proof (rule hello_prints)
  show "frame_area (ev_stack digits_env) \<inter> area 0x40000 22 = {}"
    by (auto simp: frame_area_def frame_addr_def digits_env_def area_def unat_sub_if_size word_size split: if_splits)
qed (use blank_console_wf in \<open>simp_all add: digits_env_def digits_cpu_def example_cpu_def example_kernel_def blank_console_def\<close>)

end
