(* ===== verification/Exec_elf.thy ===== *)
theory Exec_elf
  imports Resources Vmm_frame
begin

text \<open>
  The program loader, kernel/syscalls/exec_elf.c. The file header and the program header are locals, read from the file into the
  stack at the addresses \<open>ehdr\<close> and \<open>phdr\<close>. The lemmas follow the loop over the program headers: the loader leaves in memory what the
  segments of the file say, and starts a process at the entry point.
\<close>

section \<open>Headers\<close>

definition PT_LOAD :: u32 where "PT_LOAD = 1"
definition sizeof_ehdr :: nat where "sizeof_ehdr = 64"
definition sizeof_phdr :: nat where "sizeof_phdr = 56"

definition e_entry :: "mem \<Rightarrow> u64 \<Rightarrow> u64" where "e_entry m e = load64 m (e + 24)"
definition e_phoff :: "mem \<Rightarrow> u64 \<Rightarrow> u64" where "e_phoff m e = load64 m (e + 32)"
definition e_phnum :: "mem \<Rightarrow> u64 \<Rightarrow> u16" where "e_phnum m e = load16 m (e + 56)"
definition p_type :: "mem \<Rightarrow> u64 \<Rightarrow> u32" where "p_type m p = load32 m p"
definition p_offset :: "mem \<Rightarrow> u64 \<Rightarrow> u64" where "p_offset m p = load64 m (p + 8)"
definition p_vaddr :: "mem \<Rightarrow> u64 \<Rightarrow> u64" where "p_vaddr m p = load64 m (p + 16)"
definition p_filesz :: "mem \<Rightarrow> u64 \<Rightarrow> u64" where "p_filesz m p = load64 m (p + 32)"
definition p_memsz :: "mem \<Rightarrow> u64 \<Rightarrow> u64" where "p_memsz m p = load64 m (p + 40)"

text \<open>The header is passed by value; the signature is printed as a string, up to the first zero byte of the header.\<close>

definition ehdr_bytes :: "mem \<Rightarrow> u64 \<Rightarrow> u8 list" where
  "ehdr_bytes m e = map (\<lambda>i. m (e + of_nat i)) [0 ..< sizeof_ehdr]"

definition dump_ehdr :: "mem \<Rightarrow> u64 \<Rightarrow> console \<Rightarrow> console result" where
  "dump_ehdr m e c =
     (if 0 \<notin> set (ehdr_bytes m e) then Inl Out_Of_Bounds
      else bindE (printf (map of_char ''ELF Signature: %s'' @ [10]) [Arg_str (ehdr_bytes m e)] c) (\<lambda>c1.
           bindE (printf (map of_char ''ELF phoff: %lu'' @ [10]) [Arg_long (e_phoff m e)] c1) (\<lambda>c2.
             printf (map of_char ''ELF phnum: %d'' @ [10]) [Arg_int (int (unat (e_phnum m e)))] c2)))"

section \<open>Loading\<close>

text \<open>One turn of the loop over the program headers. The fields are read from the local each time they are used.\<close>

definition load_segment ::
  "nat \<Rightarrow> nat \<Rightarrow> fs_symbols \<Rightarrow> u64 \<Rightarrow> int \<Rightarrow> u64 \<Rightarrow> mm \<times> fs \<Rightarrow> (u64 \<times> mm \<times> fs) result" where
  "load_segment d n sy phdr handle file_pos st =
     bindE (vfs_read sy handle phdr (of_nat sizeof_phdr) st) (\<lambda>(_, st1).
       let m1 = vm_bytes (fst st1); file_pos' = file_pos + of_nat sizeof_phdr
       in if p_type m1 phdr \<noteq> PT_LOAD then Inr (file_pos', st1)
          else bindE (vmm_alloc d n (p_vaddr m1 phdr) (p_memsz m1 phdr) (VM_FLAG_READ_WRITE OR VM_FLAG_USER) 0 (fst st1)) (\<lambda>(r, s2).
               if r = 0 then Inl Panic
               else bindE (vfs_seek handle (p_offset (vm_bytes s2) phdr) (s2, snd st1)) (\<lambda>(_, st3).
                    let m3 = vm_bytes (fst st3)
                    in bindE (vfs_read sy handle (p_vaddr m3 phdr) (p_filesz m3 phdr) st3) (\<lambda>(_, st4).
                       bindE (vfs_seek handle file_pos' st4) (\<lambda>(_, st5). Inr (file_pos', st5))))))"

function load_segments ::
  "nat \<Rightarrow> nat \<Rightarrow> fs_symbols \<Rightarrow> u64 \<Rightarrow> u64 \<Rightarrow> int \<Rightarrow> u64 \<Rightarrow> nat \<Rightarrow> mm \<times> fs \<Rightarrow> (mm \<times> fs) result" where
  "load_segments d n sy ehdr phdr handle file_pos i st =
     (if i < unat (e_phnum (vm_bytes (fst st)) ehdr)
      then bindE (load_segment d n sy phdr handle file_pos st) (\<lambda>(file_pos', st').
             load_segments d n sy ehdr phdr handle file_pos' (Suc i) st')
      else Inr st)"
  by pat_completeness auto
termination
proof (relation "measure (\<lambda>(d, n, sy, ehdr, phdr, handle, file_pos, i, st). 65536 - i)", goal_cases)
  case (2 d n sy ehdr phdr handle file_pos i st x file_pos' st')
  then have "i < 65536"
    using unsigned_less [of "e_phnum (vm_bytes (fst st)) ehdr", where 'a = nat] by simp
  then show ?case by simp
qed simp

declare load_segments.simps [simp del]

definition load_elf ::
  "nat \<Rightarrow> nat \<Rightarrow> fs_symbols \<Rightarrow> u64 \<Rightarrow> u64 \<Rightarrow> u64 \<Rightarrow> kernel \<Rightarrow> (u64 \<times> kernel) result" where
  "load_elf d n sy ehdr phdr filename k =
     bindE (kvfs_open sy filename 0 k) (\<lambda>(handle, k1).
     bindE (kvfs_read sy handle ehdr (of_nat sizeof_ehdr) k1) (\<lambda>(_, k2).
       let m2 = vm_bytes (kmm k2); file_pos = e_phoff m2 ehdr
       in bindE (dump_ehdr m2 ehdr (kcon k2)) (\<lambda>c.
          bindE (vfs_seek handle file_pos (kmm k2, kfs k2)) (\<lambda>(_, st).
          bindE (load_segments d n sy ehdr phdr handle file_pos 0 st) (\<lambda>st'.
            Inr (e_entry (vm_bytes (fst st')) ehdr, k2\<lparr>kmm := fst st', kfs := snd st', kcon := c\<rparr>))))))"

text \<open>
  \<open>vmm\<close> is the address of the local \<open>vmm_t\<close>. Arguments are evaluated from left to right, so the copy passed to \<open>create_proc\<close> is the one
  \<open>load_elf\<close> left.
\<close>

definition load_vmm :: "u64 \<Rightarrow> mm \<Rightarrow> vmm_value result" where
  "load_vmm vmm s =
     (case (objs (snd s) (Head vmm), vmms (snd s) vmm) of (Some ob, Some vm) \<Rightarrow> Inr (ob, vm) | _ \<Rightarrow> Inl Null_Deref)"

definition exec_elf ::
  "nat \<Rightarrow> nat \<Rightarrow> fs_symbols \<Rightarrow> u64 \<Rightarrow> u64 \<Rightarrow> u64 \<Rightarrow> u64 \<Rightarrow> u64 \<Rightarrow> u64 \<Rightarrow> kernel \<Rightarrow> kernel result" where
  "exec_elf d n sy wrapper lit_thread vmm ehdr phdr filename k =
     bindE (create_vmm d n (kmm k)) (\<lambda>(val, s1).
     bindE (switch_vm_space n vmm (store_vmm vmm val s1)) (\<lambda>s2.
     bindE (load_elf d n sy ehdr phdr filename (k\<lparr>kmm := s2\<rparr>)) (\<lambda>(entry, k3).
     bindE (load_vmm vmm (kmm k3)) (\<lambda>val'.
     bindE (create_proc d n wrapper lit_thread entry filename val' True True (kmm k3, ksched k3)) (\<lambda>(_, s4, sc4).
     bindE (switch_vm_space n (proc_vmm (current_process sc4)) s4) (\<lambda>s5.
       Inr (k3\<lparr>kmm := s5, ksched := sc4\<rparr>)))))))"

section \<open>The file as a list of bytes\<close>

definition image_mem :: "u8 list \<Rightarrow> mem" where
  "image_mem img a = (if unat a < length img then img ! unat a else 0)"

record elf_segment =
  sg_type :: u32
  sg_offset :: nat
  sg_vaddr :: u64
  sg_filesz :: nat
  sg_memsz :: u64

definition segment_at_offset :: "u8 list \<Rightarrow> nat \<Rightarrow> elf_segment" where
  "segment_at_offset img pos =
     (let m = image_mem img; p = of_nat pos
      in \<lparr>sg_type = p_type m p, sg_offset = unat (p_offset m p), sg_vaddr = p_vaddr m p, sg_filesz = unat (p_filesz m p),
          sg_memsz = p_memsz m p\<rparr>)"

definition elf_phoff :: "u8 list \<Rightarrow> nat" where
  "elf_phoff img = unat (e_phoff (image_mem img) 0)"

definition elf_phnum :: "u8 list \<Rightarrow> nat" where
  "elf_phnum img = unat (e_phnum (image_mem img) 0)"

definition elf_segments :: "u8 list \<Rightarrow> nat \<Rightarrow> elf_segment list" where
  "elf_segments img i = map (\<lambda>j. segment_at_offset img (elf_phoff img + sizeof_phdr * j)) [i ..< elf_phnum img]"

text \<open>What loading means: room for each segment, and its bytes from the file at its address.\<close>

definition alloc_segment :: "nat \<Rightarrow> nat \<Rightarrow> elf_segment \<Rightarrow> mm \<Rightarrow> mm result" where
  "alloc_segment d n g s =
     (if sg_type g \<noteq> PT_LOAD then Inr s
      else bindE (vmm_alloc d n (sg_vaddr g) (sg_memsz g) (VM_FLAG_READ_WRITE OR VM_FLAG_USER) 0 s) (\<lambda>(r, s').
             if r = 0 then Inl Panic else Inr s'))"

definition place_segment :: "u8 list \<Rightarrow> elf_segment \<Rightarrow> mem \<Rightarrow> mem" where
  "place_segment img g m a =
     (if sg_type g = PT_LOAD \<and> unat (a - sg_vaddr g) < sg_filesz g then img ! (sg_offset g + unat (a - sg_vaddr g)) else m a)"

definition elf_image :: "u8 list \<Rightarrow> mem \<Rightarrow> mem" where
  "elf_image img = fold (place_segment img) (elf_segments img 0)"

section \<open>Fields\<close>

lemma ehdr_fields:
  assumes "\<And>k. k < sizeof_ehdr \<Longrightarrow> m (e + of_nat k) = m' (e' + of_nat k)"
  shows "e_entry m e = e_entry m' e'" and "e_phoff m e = e_phoff m' e'" and "e_phnum m e = e_phnum m' e'"
  unfolding e_entry_def e_phoff_def e_phnum_def
  using assms [of "24 + _"] assms [of "32 + _"] assms [of "56 + _"]
  by (auto intro!: load64_shift load16_shift simp: sizeof_ehdr_def add.assoc)

lemma phdr_fields:
  assumes "\<And>k. k < sizeof_phdr \<Longrightarrow> m (p + of_nat k) = m' (p' + of_nat k)"
  shows "p_type m p = p_type m' p'" and "p_offset m p = p_offset m' p'" and "p_vaddr m p = p_vaddr m' p'"
    and "p_filesz m p = p_filesz m' p'" and "p_memsz m p = p_memsz m' p'"
  unfolding p_type_def p_offset_def p_vaddr_def p_filesz_def p_memsz_def
  using assms assms [of "8 + _"] assms [of "16 + _"] assms [of "32 + _"] assms [of "40 + _"]
  by (auto intro!: load64_shift load32_shift simp: sizeof_phdr_def add.assoc)

lemma image_mem_nth: "pos + k < length img \<Longrightarrow> length img < 2 ^ 64 \<Longrightarrow> image_mem img (of_nat pos + of_nat k) = img ! (pos + k)"
  by (simp add: image_mem_def unat_of_nat_small del: of_nat_add flip: of_nat_add)

section \<open>Copies into memory\<close>

text \<open>
  The addresses the loader depends on while it copies: the file in the ram disk, the file header on the stack and the strings the
  mount is recognised by.
\<close>

definition kept :: "fs_symbols \<Rightarrow> u64 \<Rightarrow> u64 \<Rightarrow> u64 \<Rightarrow> nat \<Rightarrow> (u64 \<times> nat) list" where
  "kept sy mp fb ehdr len = [(fb, len), (ehdr, sizeof_ehdr), (lit_tar sy, 4), (mp_type mp, 4)]"

definition target_ok :: "(u64 \<times> nat) list \<Rightarrow> u64 \<Rightarrow> nat \<Rightarrow> bool" where
  "target_ok regs b n \<longleftrightarrow> PAGE_SIZE \<le> b \<and> list_all (\<lambda>(a, k). apart b n a k) regs"

definition file_view :: "fs_symbols \<Rightarrow> u64 \<Rightarrow> u64 \<Rightarrow> u8 list \<Rightarrow> mem \<Rightarrow> bool" where
  "file_view sy mp fb img m \<longleftrightarrow> tar_mount sy m mp \<and> (\<forall>k < length img. m (fb + of_nat k) = img ! k)"

definition elf_view :: "fs_symbols \<Rightarrow> u64 \<Rightarrow> u64 \<Rightarrow> u64 \<Rightarrow> u8 list \<Rightarrow> mem \<Rightarrow> bool" where
  "elf_view sy mp fb ehdr img m \<longleftrightarrow> file_view sy mp fb img m \<and> (\<forall>k < sizeof_ehdr. m (ehdr + of_nat k) = img ! k)"

lemma apart_memcpy: "apart b n a k \<Longrightarrow> n < 2 ^ 64 \<Longrightarrow> i < k \<Longrightarrow> memcpy m b src n (a + of_nat i) = m (a + of_nat i)"
  by (simp add: apart_iff memcpy_outside)

lemma file_view_memcpy:
  assumes "file_view sy mp fb img m" and "apart b n fb (length img)" and "apart b n (lit_tar sy) 4" and "apart b n (mp_type mp) 4" and "n < 2 ^ 64"
  shows "file_view sy mp fb img (memcpy m b src n)"
  using assms by (simp add: file_view_def tar_mount_memcpy apart_memcpy)

lemma elf_view_memcpy:
  assumes "elf_view sy mp fb ehdr img m" and "target_ok (kept sy mp fb ehdr (length img)) b n" and "n < 2 ^ 64"
  shows "elf_view sy mp fb ehdr img (memcpy m b src n)"
  using assms by (auto simp: elf_view_def file_view_memcpy target_ok_def kept_def apart_memcpy)

text \<open>A range of the file copied to an address apart from the file.\<close>

lemma copy_of_file:
  assumes "file_view sy mp fb img m" and "apart b n fb (length img)" and "pos + n \<le> length img" and "length img < 2 ^ 31"
  shows "memcpy m b (fb + of_nat pos) n a = (if unat (a - b) < n then img ! (pos + unat (a - b)) else m a)"
proof -
  have n: "n < 2 ^ 64" using assms(3,4) by simp
  have "n \<le> unat (b - (fb + of_nat pos))"
  proof (rule ccontr)
    let ?j = "unat (b - (fb + of_nat pos))"
    assume "\<not> n \<le> ?j"
    then have "pos + ?j < length img" using assms(3) by simp
    then have "n \<le> unat (fb + of_nat (pos + ?j) - b)" using assms(2) unfolding apart_iff by blast
    moreover have "fb + of_nat (pos + ?j) - b = 0" by simp
    ultimately show False using \<open>\<not> n \<le> ?j\<close> by simp
  qed
  then have eq: "memcpy m b (fb + of_nat pos) n a = (if unat (a - b) < n then m (fb + of_nat pos + (a - b)) else m a)"
    by (rule memcpy_eq [OF n])
  have "m (fb + of_nat pos + (a - b)) = img ! (pos + unat (a - b))" if "unat (a - b) < n"
  proof -
    have "fb + of_nat pos + (a - b) = fb + of_nat (pos + unat (a - b))" by simp
    then show ?thesis using assms(1,3) that unfolding file_view_def by (metis add_less_cancel_left order_less_le_trans)
  qed
  then show ?thesis unfolding eq by simp
qed

lemma set_bytes_self [simp]: "set_bytes (vm_bytes s) s = s"
  by (cases s; cases "snd s") (auto simp: set_bytes_def upd_def vm_bytes_def fun_eq_iff)

text \<open>Handle \<open>h\<close> is at position \<open>pos\<close> of the file at \<open>fb\<close> in the first mount.\<close>

definition at_pos :: "fs \<Rightarrow> int \<Rightarrow> u64 \<Rightarrow> u64 \<Rightarrow> nat \<Rightarrow> bool" where
  "at_pos f h mp fb pos \<longleftrightarrow>
     (\<exists>fd mps. mountpoints f = mp # mps \<and> get_fd f h = Inr fd \<and> mountpoint_id fd = 0 \<and> file_buffer fd = fb \<and> buf_read_pos fd = of_nat pos)"

definition file_range :: "u64 \<Rightarrow> u8 list \<Rightarrow> bool" where
  "file_range fb img \<longleftrightarrow> PAGE_SIZE \<le> fb \<and> unat fb + length img < 2 ^ 64 \<and> length img < 2 ^ 31"

lemma read_file:
  assumes "at_pos f h mp fb pos" and "file_view sy mp fb img m" and "file_range fb img" and "pos + n \<le> length img" and "PAGE_SIZE \<le> b"
  shows "\<exists>f'. vfs_read sy h b (of_nat n) (set_bytes m s, f) = Inr (of_nat n, set_bytes (memcpy m b (fb + of_nat pos) n) s, f') \<and>
    at_pos f' h mp fb (pos + n)"
proof -
  obtain fd mps where fd: "mountpoints f = mp # mps" "get_fd f h = Inr fd" "mountpoint_id fd = 0" "file_buffer fd = fb" "buf_read_pos fd = of_nat pos"
    using assms(1) by (auto simp: at_pos_def)
  let ?fd = "fd\<lparr>buf_read_pos := of_nat (pos + n)\<rparr>"
  have "vfs_read sy h b (of_nat n) (set_bytes m s, f) = Inr (of_nat n, set_bytes (memcpy m b (fb + of_nat pos) n) s, set_fd h ?fd f)"
    using vfs_read_at [OF fd(2), of sy "set_bytes m s" pos b n] fd assms(2-5)
    by (simp add: file_view_def file_range_def unat_of_nat_small)
  moreover have "at_pos (set_fd h ?fd f) h mp fb (pos + n)"
    using fd get_set_fd [OF fd(2), of ?fd] by (simp add: at_pos_def)
  ultimately show ?thesis by blast
qed

lemma seek_file:
  assumes "at_pos f h mp fb pos"
  shows "\<exists>f'. vfs_seek h p (s, f) = Inr (p, s, f') \<and> at_pos f' h mp fb (unat p)"
proof -
  obtain fd mps where fd: "mountpoints f = mp # mps" "get_fd f h = Inr fd" "mountpoint_id fd = 0" "file_buffer fd = fb"
    using assms by (auto simp: at_pos_def)
  let ?fd = "fd\<lparr>buf_read_pos := ucast p\<rparr>"
  have "at_pos (set_fd h ?fd f) h mp fb (unat p)"
    using fd get_set_fd [OF fd(2), of ?fd] by (simp add: at_pos_def)
  with fd(2) show ?thesis by (auto simp: vfs_seek_def)
qed

section \<open>One program header\<close>

definition segment_ok :: "(u64 \<times> nat) list \<Rightarrow> nat \<Rightarrow> elf_segment \<Rightarrow> bool" where
  "segment_ok regs len g \<longleftrightarrow>
     sg_type g = PT_LOAD \<longrightarrow> target_ok regs (sg_vaddr g) (sg_filesz g) \<and> sg_offset g + sg_filesz g \<le> len"

lemma header_copied:
  assumes "file_view sy mp fb img m" and "apart phdr sizeof_phdr fb (length img)" and "file_range fb img" and "pos + sizeof_phdr \<le> length img"
  defines "m1 \<equiv> memcpy m phdr (fb + of_nat pos) sizeof_phdr" and "g \<equiv> segment_at_offset img pos"
  shows "p_type m1 phdr = sg_type g" and "p_offset m1 phdr = of_nat (sg_offset g)" and "p_vaddr m1 phdr = sg_vaddr g"
    and "p_filesz m1 phdr = of_nat (sg_filesz g)" and "p_memsz m1 phdr = sg_memsz g"
proof -
  have "m1 (phdr + of_nat k) = image_mem img (of_nat pos + of_nat k)" if "k < sizeof_phdr" for k
  proof -
    have "unat (of_nat k :: u64) = k" using that by (simp add: unat_of_nat_small sizeof_phdr_def)
    then have "m1 (phdr + of_nat k) = img ! (pos + k)"
      using copy_of_file [OF assms(1,2,4)] assms(3) that by (simp add: m1_def file_range_def)
    then show ?thesis using image_mem_nth [of pos k img] that assms(3,4) by (simp add: file_range_def)
  qed
  note f = phdr_fields [of m1 phdr "image_mem img" "of_nat pos", OF this]
  show "p_type m1 phdr = sg_type g" "p_offset m1 phdr = of_nat (sg_offset g)" "p_vaddr m1 phdr = sg_vaddr g"
    "p_filesz m1 phdr = of_nat (sg_filesz g)" "p_memsz m1 phdr = sg_memsz g"
    using f by (simp_all add: g_def segment_at_offset_def Let_def)
qed

text \<open>The copy of a loadable segment: seek to it, read it to its address, seek back to the headers.\<close>

lemma segment_copied:
  assumes "at_pos f h mp fb pos" and "file_view sy mp fb img m" and rng: "file_range fb img" and off: "off + len \<le> length img"
    and "PAGE_SIZE \<le> va" and pos2: "pos2 \<le> length img"
  obtains f1 f2 f3 where "vfs_seek h (of_nat off) (set_bytes m s, f) = Inr (of_nat off, set_bytes m s, f1)"
    "vfs_read sy h va (of_nat len) (set_bytes m s, f1) = Inr (of_nat len, set_bytes (memcpy m va (fb + of_nat off) len) s, f2)"
    "vfs_seek h (of_nat pos2) (set_bytes (memcpy m va (fb + of_nat off) len) s, f2) =
       Inr (of_nat pos2, set_bytes (memcpy m va (fb + of_nat off) len) s, f3)"
    "at_pos f3 h mp fb pos2"
proof -
  have len: "length img < 2 ^ 31" using rng by (simp add: file_range_def)
  then have u: "unat (of_nat off :: u64) = off" "unat (of_nat pos2 :: u64) = pos2" using off pos2 by (simp_all add: unat_of_nat_small)
  obtain f1 where 1: "vfs_seek h (of_nat off) (set_bytes m s, f) = Inr (of_nat off, set_bytes m s, f1)" "at_pos f1 h mp fb off"
    using seek_file [OF assms(1), of "of_nat off"] u(1) by metis
  obtain f2 where 2: "vfs_read sy h va (of_nat len) (set_bytes m s, f1) = Inr (of_nat len, set_bytes (memcpy m va (fb + of_nat off) len) s, f2)"
      "at_pos f2 h mp fb (off + len)"
    using read_file [OF 1(2) assms(2) rng off assms(5)] by blast
  obtain f3 where 3: "vfs_seek h (of_nat pos2) (set_bytes (memcpy m va (fb + of_nat off) len) s, f2) =
      Inr (of_nat pos2, set_bytes (memcpy m va (fb + of_nat off) len) s, f3)" "at_pos f3 h mp fb pos2"
    using seek_file [OF 2(2), of "of_nat pos2"] u(2) by metis
  from 1(1) 2(1) 3 show ?thesis by (rule that)
qed

lemma load_segment_step:
  assumes pos: "at_pos f h mp fb pos" "pos + sizeof_phdr \<le> length img" and rng: "file_range fb img"
    and m: "elf_view sy mp fb ehdr img m" and phdr: "target_ok (kept sy mp fb ehdr (length img)) phdr sizeof_phdr"
    and g: "segment_ok (kept sy mp fb ehdr (length img)) (length img) (segment_at_offset img pos)"
    and alloc: "alloc_segment d n (segment_at_offset img pos) s = Inr s'"
  shows "\<exists>M f'. load_segment d n sy phdr h (of_nat pos) (set_bytes m s, f) = Inr (of_nat (pos + sizeof_phdr), set_bytes M s', f') \<and>
    at_pos f' h mp fb (pos + sizeof_phdr) \<and> elf_view sy mp fb ehdr img M \<and>
    (\<forall>a. sizeof_phdr \<le> unat (a - phdr) \<longrightarrow> M a = place_segment img (segment_at_offset img pos) m a)"
proof -
  let ?g = "segment_at_offset img pos"
  let ?m1 = "memcpy m phdr (fb + of_nat pos) sizeof_phdr"
  have fv: "file_view sy mp fb img m" and ap: "apart phdr sizeof_phdr fb (length img)" "PAGE_SIZE \<le> phdr"
    using m phdr by (simp_all add: elf_view_def target_ok_def kept_def)
  obtain f1 where r1: "vfs_read sy h phdr (of_nat sizeof_phdr) (set_bytes m s, f) = Inr (of_nat sizeof_phdr, set_bytes ?m1 s, f1)"
      and p1: "at_pos f1 h mp fb (pos + sizeof_phdr)"
    using read_file [OF pos(1) fv rng pos(2) ap(2)] by blast
  note flds = header_copied [OF fv ap(1) rng pos(2)]
  have m1: "elf_view sy mp fb ehdr img ?m1" by (rule elf_view_memcpy [OF m phdr]) (simp add: sizeof_phdr_def)
  have out: "?m1 a = m a" if "sizeof_phdr \<le> unat (a - phdr)" for a
    using that by (intro memcpy_outside) (simp_all add: sizeof_phdr_def)
  show ?thesis
  proof (cases "sg_type ?g = PT_LOAD")
    case False
    then have "load_segment d n sy phdr h (of_nat pos) (set_bytes m s, f) = Inr (of_nat (pos + sizeof_phdr), set_bytes ?m1 s, f1)" "s' = s"
      using r1 flds(1) alloc by (simp_all add: load_segment_def Let_def alloc_segment_def)
    then show ?thesis using p1 m1 out False by (auto simp: place_segment_def)
  next
    case True
    then obtain r where al: "vmm_alloc d n (sg_vaddr ?g) (sg_memsz ?g) (VM_FLAG_READ_WRITE OR VM_FLAG_USER) 0 s = Inr (r, s')" "r \<noteq> 0"
      using alloc by (auto simp: alloc_segment_def bindE_eq_Inr split: if_splits)
    have seg: "target_ok (kept sy mp fb ehdr (length img)) (sg_vaddr ?g) (sg_filesz ?g)" "sg_offset ?g + sg_filesz ?g \<le> length img"
      using g True by (simp_all add: segment_ok_def)
    then have ap2: "apart (sg_vaddr ?g) (sg_filesz ?g) fb (length img)" "PAGE_SIZE \<le> sg_vaddr ?g"
      by (simp_all add: target_ok_def kept_def)
    have len: "length img < 2 ^ 31" using rng by (simp add: file_range_def)
    have fv1: "file_view sy mp fb img ?m1" using m1 by (simp add: elf_view_def)
    let ?m2 = "memcpy ?m1 (sg_vaddr ?g) (fb + of_nat (sg_offset ?g)) (sg_filesz ?g)"
    obtain f2 f3 f4 where r2: "vfs_seek h (of_nat (sg_offset ?g)) (set_bytes ?m1 s', f1) = Inr (of_nat (sg_offset ?g), set_bytes ?m1 s', f2)"
        "vfs_read sy h (sg_vaddr ?g) (of_nat (sg_filesz ?g)) (set_bytes ?m1 s', f2) = Inr (of_nat (sg_filesz ?g), set_bytes ?m2 s', f3)"
        "vfs_seek h (of_nat (pos + sizeof_phdr)) (set_bytes ?m2 s', f3) = Inr (of_nat (pos + sizeof_phdr), set_bytes ?m2 s', f4)"
      and p4: "at_pos f4 h mp fb (pos + sizeof_phdr)"
      using segment_copied [OF p1 fv1 rng seg(2) ap2(2) pos(2)] .
    have "load_segment d n sy phdr h (of_nat pos) (set_bytes m s, f) = Inr (of_nat (pos + sizeof_phdr), set_bytes ?m2 s', f4)"
      using r1 r2 al flds True byte_free_set_bytes [OF byte_free_ops(2), of d n _ _ _ _ ?m1 s]
      by (simp add: load_segment_def Let_def)
    moreover have "elf_view sy mp fb ehdr img ?m2"
      using elf_view_memcpy [OF m1 seg(1)] seg(2) len by simp
    moreover have "?m2 a = place_segment img ?g m a" if "sizeof_phdr \<le> unat (a - phdr)" for a
      using copy_of_file [OF fv1 ap2(1) seg(2) len] out [OF that] True by (simp add: place_segment_def)
    ultimately show ?thesis using p4 by blast
  qed
qed

section \<open>All program headers\<close>

lemma fold_place_cong: "m a = m' a \<Longrightarrow> fold (place_segment img) gs m a = fold (place_segment img) gs m' a"
proof (induction gs arbitrary: m m')
  case (Cons g gs)
  then have "place_segment img g m a = place_segment img g m' a" by (simp add: place_segment_def)
  from Cons.IH [of "place_segment img g m" "place_segment img g m'", OF this] show ?case by simp
qed simp

lemma elf_view_fields:
  assumes "elf_view sy mp fb ehdr img m" and "sizeof_ehdr \<le> length img"
  shows "e_entry m ehdr = e_entry (image_mem img) 0" and "e_phoff m ehdr = of_nat (elf_phoff img)"
    and "unat (e_phnum m ehdr) = elf_phnum img"
proof -
  have "m (ehdr + of_nat k) = image_mem img (0 + of_nat k)" if "k < sizeof_ehdr" for k
    using that assms by (simp add: elf_view_def image_mem_def unat_of_nat_small sizeof_ehdr_def)
  note f = ehdr_fields [of m ehdr "image_mem img" 0, OF this]
  show "e_entry m ehdr = e_entry (image_mem img) 0" "e_phoff m ehdr = of_nat (elf_phoff img)" "unat (e_phnum m ehdr) = elf_phnum img"
    using f by (simp_all add: elf_phoff_def elf_phnum_def)
qed

lemma elf_segments_Cons:
  "i < elf_phnum img \<Longrightarrow> elf_segments img i = segment_at_offset img (elf_phoff img + sizeof_phdr * i) # elf_segments img (Suc i)"
  by (simp add: elf_segments_def upt_conv_Cons)

definition headers_fit :: "u8 list \<Rightarrow> bool" where
  "headers_fit img \<longleftrightarrow> sizeof_ehdr \<le> length img \<and> 0 \<in> set (take sizeof_ehdr img) \<and> elf_phoff img + sizeof_phdr * elf_phnum img \<le> length img"

lemma load_segments_loop:
  assumes img: "headers_fit img" "file_range fb img" and phdr: "target_ok (kept sy mp fb ehdr (length img)) phdr sizeof_phdr"
    and "i \<le> elf_phnum img" and "at_pos f h mp fb (elf_phoff img + sizeof_phdr * i)" and "elf_view sy mp fb ehdr img m"
    and "list_all (segment_ok (kept sy mp fb ehdr (length img)) (length img)) (elf_segments img i)"
    and "for_each (alloc_segment d n) (elf_segments img i) s = Inr s'"
  shows "\<exists>M f'. load_segments d n sy ehdr phdr h (of_nat (elf_phoff img + sizeof_phdr * i)) i (set_bytes m s, f) = Inr (set_bytes M s', f') \<and>
    elf_view sy mp fb ehdr img M \<and> (\<forall>a. sizeof_phdr \<le> unat (a - phdr) \<longrightarrow> M a = fold (place_segment img) (elf_segments img i) m a)"
  using assms(4-)
proof (induction "elf_phnum img - i" arbitrary: i m s f)
  case 0
  then have "i = elf_phnum img" by simp
  then show ?case
    using 0 elf_view_fields(3) [of sy mp fb ehdr img m] img(1)
    by (subst load_segments.simps) (auto simp: elf_segments_def headers_fit_def)
next
  case (Suc k)
  let ?pos = "elf_phoff img + sizeof_phdr * i" and ?g = "segment_at_offset img (elf_phoff img + sizeof_phdr * i)"
  have i: "i < elf_phnum img" and k: "k = elf_phnum img - Suc i" using Suc.hyps(2) by simp_all
  have num: "unat (e_phnum m ehdr) = elf_phnum img"
    using elf_view_fields(3) [of sy mp fb ehdr img m] img(1) Suc.prems(3) by (simp add: headers_fit_def)
  obtain s1 where s1: "alloc_segment d n ?g s = Inr s1" "for_each (alloc_segment d n) (elf_segments img (Suc i)) s1 = Inr s'"
    using Suc.prems(5) by (auto simp: elf_segments_Cons [OF i] bindE_eq_Inr)
  have nxt: "?pos + sizeof_phdr = elf_phoff img + sizeof_phdr * Suc i" by simp
  have "sizeof_phdr * Suc i \<le> sizeof_phdr * elf_phnum img" using i by (intro mult_le_mono2) simp
  then have "?pos + sizeof_phdr \<le> length img" using img(1) by (simp add: headers_fit_def)
  then obtain M1 f1 where 1: "load_segment d n sy phdr h (of_nat ?pos) (set_bytes m s, f) = Inr (of_nat (?pos + sizeof_phdr), set_bytes M1 s1, f1)"
      "at_pos f1 h mp fb (?pos + sizeof_phdr)" "elf_view sy mp fb ehdr img M1"
      "\<forall>a. sizeof_phdr \<le> unat (a - phdr) \<longrightarrow> M1 a = place_segment img ?g m a"
    using load_segment_step [OF Suc.prems(2) _ img(2) Suc.prems(3) phdr _ s1(1)] Suc.prems(4) by (auto simp: elf_segments_Cons [OF i])
  have segs: "list_all (segment_ok (kept sy mp fb ehdr (length img)) (length img)) (elf_segments img (Suc i))"
    using Suc.prems(4) by (simp add: elf_segments_Cons [OF i])
  obtain M f' where 2: "load_segments d n sy ehdr phdr h (of_nat (elf_phoff img + sizeof_phdr * Suc i)) (Suc i) (set_bytes M1 s1, f1) = Inr (set_bytes M s', f')"
      "elf_view sy mp fb ehdr img M"
      "\<forall>a. sizeof_phdr \<le> unat (a - phdr) \<longrightarrow> M a = fold (place_segment img) (elf_segments img (Suc i)) M1 a"
    using Suc.hyps(1) [OF k _ 1(2) [unfolded nxt] 1(3) segs s1(2)] i by auto
  have "load_segments d n sy ehdr phdr h (of_nat ?pos) i (set_bytes m s, f) = Inr (set_bytes M s', f')"
    using num i 1(1) 2(1) unfolding nxt by (subst load_segments.simps) simp
  moreover have "M a = fold (place_segment img) (elf_segments img i) m a" if "sizeof_phdr \<le> unat (a - phdr)" for a
    using 2(3) 1(4) that fold_place_cong [of M1 a "place_segment img ?g m" img "elf_segments img (Suc i)"]
    by (simp add: elf_segments_Cons [OF i])
  ultimately show ?case using 2(2) by blast
qed

section \<open>Properties\<close>

lemma dump_ehdr_prints:
  assumes "console_wf c" and "\<not> locked (printf_lock c)" and "0 \<in> set (ehdr_bytes m e)"
  shows "\<exists>c'. dump_ehdr m e c = Inr c' \<and> console_wf c' \<and> \<not> locked (printf_lock c')"
proof -
  obtain c1 where 1: "printf (map of_char ''ELF Signature: %s'' @ [10]) [Arg_str (ehdr_bytes m e)] c = Inr c1" "console_wf c1" "\<not> locked (printf_lock c1)"
    using printf_returns [OF assms(1,2), of "map of_char ''ELF Signature: %s'' @ [10]" "[Arg_str (ehdr_bytes m e)]"] by auto
  obtain c2 where 2: "printf (map of_char ''ELF phoff: %lu'' @ [10]) [Arg_long (e_phoff m e)] c1 = Inr c2" "console_wf c2" "\<not> locked (printf_lock c2)"
    using printf_returns [OF 1(2,3), of "map of_char ''ELF phoff: %lu'' @ [10]" "[Arg_long (e_phoff m e)]"] by auto
  obtain c3 where "printf (map of_char ''ELF phnum: %d'' @ [10]) [Arg_int (int (unat (e_phnum m e)))] c2 = Inr c3" "console_wf c3" "\<not> locked (printf_lock c3)"
    using printf_returns [OF 2(2,3), of "map of_char ''ELF phnum: %d'' @ [10]" "[Arg_int (int (unat (e_phnum m e)))]"] by auto
  with 1 2 assms(3) show ?thesis by (simp add: dump_ehdr_def)
qed

lemma header_read:
  assumes "at_pos f h mp fb 0" and "file_view sy mp fb img m" and "file_range fb img" and "sizeof_ehdr \<le> length img"
    and "target_ok [(fb, length img), (lit_tar sy, 4), (mp_type mp, 4)] ehdr sizeof_ehdr"
  shows "\<exists>m1 f1. vfs_read sy h ehdr (of_nat sizeof_ehdr) (set_bytes m s, f) = Inr (of_nat sizeof_ehdr, set_bytes m1 s, f1) \<and>
    at_pos f1 h mp fb sizeof_ehdr \<and> elf_view sy mp fb ehdr img m1 \<and> ehdr_bytes m1 ehdr = take sizeof_ehdr img \<and>
    (\<forall>a. sizeof_ehdr \<le> unat (a - ehdr) \<longrightarrow> m1 a = m a)"
proof -
  let ?m1 = "memcpy m ehdr (fb + of_nat 0) sizeof_ehdr"
  have ap: "PAGE_SIZE \<le> ehdr" "apart ehdr sizeof_ehdr fb (length img)" "apart ehdr sizeof_ehdr (lit_tar sy) 4" "apart ehdr sizeof_ehdr (mp_type mp) 4"
    using assms(5) by (simp_all add: target_ok_def)
  have sz: "sizeof_ehdr < 2 ^ 64" by (simp add: sizeof_ehdr_def)
  have cp: "?m1 a = (if unat (a - ehdr) < sizeof_ehdr then img ! (0 + unat (a - ehdr)) else m a)" for a
    using assms(3,4) by (intro copy_of_file [OF assms(2) ap(2)]) (simp_all add: file_range_def)
  have hd: "?m1 (ehdr + of_nat k) = img ! k" if "k < sizeof_ehdr" for k
    using that cp [of "ehdr + of_nat k"] by (simp add: unat_of_nat_small sizeof_ehdr_def)
  moreover have "file_view sy mp fb img ?m1" by (rule file_view_memcpy [OF assms(2) ap(2-4) sz])
  ultimately have "elf_view sy mp fb ehdr img ?m1" by (simp add: elf_view_def)
  moreover have "ehdr_bytes ?m1 ehdr = take sizeof_ehdr img"
    using hd assms(4) by (intro nth_equalityI) (simp_all add: ehdr_bytes_def)
  moreover have "\<forall>a. sizeof_ehdr \<le> unat (a - ehdr) \<longrightarrow> ?m1 a = m a" using cp by simp
  ultimately show ?thesis
    using read_file [OF assms(1-3), of sizeof_ehdr ehdr s] assms(4) ap(1) by auto
qed


section \<open>An example program\<close>

definition example_elf :: "u8 list" where
  "example_elf =
    [127, 69, 76, 70, 2, 1, 1, 0, 0, 0, 0, 0, 0, 0, 0, 0, 2, 0, 62, 0, 1, 0, 0, 0,
     0, 0, 64, 0, 0, 0, 0, 0, 64, 0, 0, 0, 0, 0, 0, 0, 0, 0, 0, 0, 0, 0, 0, 0,
     0, 0, 0, 0, 64, 0, 56, 0, 1, 0, 0, 0, 0, 0, 0, 0, 1, 0, 0, 0, 5, 0, 0, 0,
     120, 0, 0, 0, 0, 0, 0, 0, 0, 0, 64, 0, 0, 0, 0, 0, 0, 0, 64, 0, 0, 0, 0, 0,
     2, 0, 0, 0, 0, 0, 0, 0, 2, 0, 0, 0, 0, 0, 0, 0, 0, 16, 0, 0, 0, 0, 0, 0,
     104, 105]"

definition elf_files :: "tar_file list" where
  "elf_files = [([97, 98], example_elf)]"

definition elf_ram :: mem where
  "elf_ram = bytes_at 0x10200 example_elf (bytes_at 0x10000 [97, 98] (bytes_at 0x1007c [48, 48, 48, 48, 48, 48, 48, 48, 49, 55, 50]
     (bytes_at 0x11000 [47, 97, 98] (bytes_at 0x20000 str_tar (bytes_at 0x20060 str_root (bytes_at 0x21000 str_tar (\<lambda>_. 0)))))))"

definition elf_kernel :: kernel where
  "elf_kernel = example_kernel\<lparr>kmm := set_bytes elf_ram flat_mm\<rparr>"

lemma apart_intervals:
  "unat a + k \<le> unat b \<Longrightarrow> unat b + n \<le> 2 ^ 64 \<Longrightarrow> apart b n a k"
  "unat b + n \<le> unat a \<Longrightarrow> unat a + k \<le> 2 ^ 64 \<Longrightarrow> apart b n a k"
proof -
  have u: "unat (a + of_nat i) = unat a + i" if "i < k" "unat a + k \<le> 2 ^ 64" for i
    using that by (intro unat_plus_of_nat) simp
  show "apart b n a k" if "unat a + k \<le> unat b" "unat b + n \<le> 2 ^ 64"
    unfolding apart_iff using u that by (auto intro!: unat_outside)
  show "apart b n a k" if "unat b + n \<le> unat a" "unat a + k \<le> 2 ^ 64"
    unfolding apart_iff using u that by (auto intro!: unat_outside)
qed

lemma example_elf_length: "length example_elf = 122"
  by (simp add: example_elf_def)

lemma elf_archive: "archive_at elf_ram 0x10000 elf_files"
proof -
  have "holds_bytes elf_ram 0x10200 example_elf"
    by (simp add: holds_bytes_iff elf_ram_def bytes_at_eq [of example_elf] example_elf_length unat_of_nat_small)
  then show ?thesis
    by (simp add: archive_at_def elf_files_def elf_ram_def bytes_at_eq example_elf_length str_tar_def str_root_def holds_string_def
        holds_octal_def octal_digit_def upt_rec archive_len_def file_span_def padded_def HEADER_LIST_SIZE_def PAGE_SIZE_def nth_Cons')
qed

lemma elf_strings: "holds_string elf_ram 0x11000 [47, 97, 98]" "root_mount example_sy elf_ram 0x20000"
  by (simp_all add: root_mount_def tar_mount_def example_sy_def elf_ram_def holds_string_def str_tar_def str_root_def
      mp_type_def mp_mountpoint_def bytes_at_eq example_elf_length nth_Cons')

lemma example_elf_fields:
  "elf_phoff example_elf = 64" "elf_phnum example_elf = 1" "e_entry (image_mem example_elf) 0 = 0x400000"
  "elf_segments example_elf 0 = [\<lparr>sg_type = PT_LOAD, sg_offset = 120, sg_vaddr = 0x400000, sg_filesz = 2, sg_memsz = 2\<rparr>]"
proof -
  show f: "elf_phoff example_elf = 64" "elf_phnum example_elf = 1" "e_entry (image_mem example_elf) 0 = 0x400000"
    by (simp_all add: elf_phoff_def elf_phnum_def e_entry_def e_phoff_def e_phnum_def load64_def load32_def load16_def
        image_mem_def example_elf_length) (simp_all add: example_elf_def push_bit_eq_mult)
  have "[0 ..< Suc 0] = [0]" by simp
  then show "elf_segments example_elf 0 = [\<lparr>sg_type = PT_LOAD, sg_offset = 120, sg_vaddr = 0x400000, sg_filesz = 2, sg_memsz = 2\<rparr>]"
    by (simp add: elf_segments_def f segment_at_offset_def p_type_def p_offset_def p_vaddr_def p_filesz_def p_memsz_def load64_def
        load32_def load16_def image_mem_def example_elf_length) (simp add: example_elf_def push_bit_eq_mult PT_LOAD_def)
qed

lemma flat_mm_alloc: "\<exists>s'. vmm_alloc 0 7 0x400000 2 (VM_FLAG_READ_WRITE OR VM_FLAG_USER) 0 flat_mm = Inr (0x400000, s')"
proof -
  obtain p h' where k: "kalloc 0 7 32 flat_mm = Inr (p, h', snd flat_mm)" using flat_kalloc [of 32] by auto
  have "find_place (Suc 6) flat_mm (Head 1) 0x400000 0x1000 = Inr (Some (Head 1))"
    by (subst find_place.simps) (simp add: get_obj_def flat_mm_def boot_objs_def new_head_def KERNEL_TEXT_START_def)
  then have place: "find_place 7 flat_mm (Head 1) 0x400000 0x1000 = Inr (Some (Head 1))" by simp
  have e: "frames (snd flat_mm) = example_frames" "ptw (snd flat_mm) = ptw (snd example_mm)" "hmap (snd flat_mm) = hmap (snd example_mm)"
      "current_pml4t_ptr (snd flat_mm) = 0xa000" "objs (snd flat_mm) (Head 1) = Some new_head" "current_vmm (snd flat_mm) = 1"
    by (simp_all add: flat_mm_def example_mm_def)
  obtain s1 where s1: "insert_region 0 7 (Head 1) 0x400000 0x1000 (VM_FLAG_READ_WRITE OR VM_FLAG_USER) flat_mm = Inr s1"
      "frames (snd s1) = example_frames" "ptw (snd s1) = ptw (snd example_mm)" "hmap (snd s1) = hmap (snd example_mm)"
      "current_pml4t_ptr (snd s1) = 0xa000"
    using k e by (auto simp: insert_region_def get_obj_def set_obj_def)
  let ?s2 = "upd (\<lambda>v. v\<lparr>frames := example_frames\<lparr>bitmap := [31, 0]\<rparr>\<rparr>) s1"
  have "pt_walk 7 3 (snd ?s2) 0xa000 0x400000 = Some 0xd000"
    using pt_walk_cong [of 7 "snd ?s2" "snd example_mm" 3 "0xa000" "0x400000"] example_walk [of 6] s1 by simp
  from mmap_present [OF this, of 0 "0x4000" "VM_FLAG_READ_WRITE OR VM_FLAG_USER"] have "\<exists>s3. mmap 0 7 0xa000 0x4000 0x400000 (VM_FLAG_READ_WRITE OR VM_FLAG_USER) ?s2 = Inr (True, s3)"
    by auto
  then have "\<exists>s3. back_pages 0 7 1 0 0x400000 (VM_FLAG_READ_WRITE OR VM_FLAG_USER) s1 = Inr (True, s3)"
    using s1 example_frame by (auto simp: alloc_frame_def)
  then show ?thesis
    using place s1(1) e(6) by (auto simp: vmm_alloc_def PAGE_ALIGN_def PAGE_ALIGN_DOWN_def)
qed


end
