(* ===== verification/Spawn.thy ===== *)
theory Spawn
  imports Exec_elf
begin

text \<open>
  How a process starts: the creation of processes in kernel/sched/scheduler.c and of programs in kernel/syscalls/exec_elf.c meets the
  scheduler. A new process stands first in the run queue, and its thread is resumed in the wrapper with the function and the argument it was
  created with.
\<close>

section \<open>The address spaces of the other processes\<close>

lemma switch_vm_space_vmms: "switch_vm_space n a s = Inr s' \<Longrightarrow> vmms (snd s') = vmms (snd s) \<and> hmap (snd s') = hmap (snd s)"
  by (auto simp: switch_vm_space_def bindE_eq_Inr split: option.splits)

lemma switch_vm_space_cr3: "switch_vm_space n a s = Inr s' \<Longrightarrow> \<exists>vm. vmms (snd s) a = Some vm \<and> cr3 (snd s') = pml4t vm"
  by (auto simp: switch_vm_space_def bindE_eq_Inr split: option.splits)

lemma vfs_vmms:
  "vfs_open sy path fl st = Inr (h, st') \<Longrightarrow> fst st' = fst st"
  "vfs_read sy h b l st = Inr (x, st') \<Longrightarrow> vmms (snd (fst st')) = vmms (snd (fst st))"
  "vfs_seek h pos st = Inr (x, st') \<Longrightarrow> fst st' = fst st"
  by (auto simp: vfs_open_def vfs_read_def vfs_seek_def set_bytes_def bindE_eq_Inr split_def Let_def split: if_splits)

lemma load_segment_vmms: "load_segment d n sy phdr h fp st = Inr (fp', st') \<Longrightarrow> vmms (snd (fst st')) = vmms (snd (fst st))"
  by (auto simp: load_segment_def bindE_eq_Inr Let_def dest!: vmms_ops(2) vfs_vmms split: if_splits)

lemma load_segments_vmms: "load_segments d n sy ehdr phdr h fp i st = Inr st' \<Longrightarrow> vmms (snd (fst st')) = vmms (snd (fst st))"
proof (induction d n sy ehdr phdr h fp i st rule: load_segments.induct)
  case (1 d n sy ehdr phdr h fp i st)
  show ?case
  proof (cases "i < unat (e_phnum (vm_bytes (fst st)) ehdr)")
    case True
    then obtain fp1 st1 where "load_segment d n sy phdr h fp st = Inr (fp1, st1)" "load_segments d n sy ehdr phdr h fp1 (Suc i) st1 = Inr st'"
      using 1(2) load_segments.simps [of d n sy ehdr phdr h fp i st] by (auto simp: bindE_eq_Inr)
    then show ?thesis using 1(1) [OF True, of "(fp1, st1)"] load_segment_vmms by simp
  next
    case False
    then show ?thesis using 1(2) load_segments.simps [of d n sy ehdr phdr h fp i st] by simp
  qed
qed

lemma load_elf_vmms:
  "load_elf d n sy ehdr phdr filename k = Inr (entry, k') \<Longrightarrow> vmms (snd (kmm k')) = vmms (snd (kmm k)) \<and> ksched k' = ksched k"
  by (auto simp: load_elf_def kvfs_open_def kvfs_read_def bindE_eq_Inr Let_def dest!: load_segments_vmms vfs_vmms)

lemma create_stack_cr3:
  assumes "create_sections d n [stack_section b] s = Inr s'"
  shows "cr3 (snd s') = cr3 (snd s)" and "vmms (snd s') = vmms (snd s)"
proof -
  obtain x s1 where 1: "vmm_alloc d n b KERNEL_STACK_SIZE VM_FLAG_READ_WRITE 0 s = Inr (x, s1)"
    and s': "s' = set_data (\<lambda>m. memset m b 0 (unat KERNEL_STACK_SIZE)) b s1"
    using assms by (auto simp: create_sections_def create_section_def stack_section_def bindE_eq_Inr split: if_splits)
  show "cr3 (snd s') = cr3 (snd s)" "vmms (snd s') = vmms (snd s)"
    using byte_free_keeps(2) [OF byte_free_ops(2) 1] vmms_ops(2) [OF 1] by (simp_all add: s' set_data_def)
qed

lemma alloc_kernel_stack_keeps:
  assumes "alloc_kernel_stack d n s = Inr (stack, s')"
  shows "vmms (snd s') = vmms (snd s)" and "cr3 (snd s') = cr3 (snd s)" and "stack = kernel_stack_ptr (snd s')"
proof -
  let ?p = "kernel_stack_ptr (snd s) - (KERNEL_STACK_SIZE + 0x1000)"
  have 1: "create_sections d n [stack_section ?p] (upd (\<lambda>v. v\<lparr>kernel_stack_ptr := ?p\<rparr>) s) = Inr s'"
    and st: "stack = kernel_stack_ptr (snd s')"
    using assms by (auto simp: alloc_kernel_stack_def bindE_eq_Inr Let_def)
  show "vmms (snd s') = vmms (snd s)" "cr3 (snd s') = cr3 (snd s)" "stack = kernel_stack_ptr (snd s')"
    using create_stack_cr3 [OF 1] st by simp_all
qed

lemma alloc_user_stack_keeps:
  assumes "alloc_user_stack d n own b a s = Inr (stack, s')"
  shows "vmms (snd s') = vmms (snd s)" and "\<exists>vm. vmms (snd s) own = Some vm \<and> cr3 (snd s') = pml4t vm" and "stack = b"
proof -
  obtain s1 s2 where 1: "switch_vm_space n a s = Inr s1" and 2: "create_sections d n [stack_section b] s1 = Inr s2"
    and 3: "switch_vm_space n own s2 = Inr s'" and "stack = b"
    using assms by (auto simp: alloc_user_stack_def bindE_eq_Inr)
  then show "vmms (snd s') = vmms (snd s)" "\<exists>vm. vmms (snd s) own = Some vm \<and> cr3 (snd s') = pml4t vm" "stack = b"
    using switch_vm_space_vmms [OF 1] create_stack_cr3(2) [OF 2] switch_vm_space_vmms [OF 3] switch_vm_space_cr3 [OF 3] by simp_all
qed

section \<open>What the creation of a process does to the scheduler\<close>

definition stack_of :: "bool \<Rightarrow> mm \<Rightarrow> u64" where
  "stack_of is_user s = (if is_user then USER_STACK_START else kernel_stack_ptr (snd s))"

definition started :: "u64 \<Rightarrow> u64 \<Rightarrow> u64 \<Rightarrow> u64 \<Rightarrow> u64 \<Rightarrow> bool \<Rightarrow> u64 \<Rightarrow> thread_t" where
  "started i p wrapper func func_arg is_user stack =
     zero_thread\<lparr>tid := i, th_parent := p, th_stack := stack, th_context := new_context wrapper func func_arg stack is_user\<rparr>"

lemma zero_thread_fields: "zero_thread\<lparr>tid := i, th_status := READY, th_next := 0, th_stack := stack, th_parent := p, th_context := c\<rparr> =
    zero_thread\<lparr>tid := i, th_parent := p, th_stack := stack, th_context := c\<rparr>"
  by (simp add: zero_thread_def)

lemma put_others: "next_tid (put_thread t th sc) = next_tid sc" "next_tid (put_proc p pr sc) = next_tid sc"
  "current_process (put_proc p pr sc) = current_process sc"
  by (simp_all add: put_thread_def put_proc_def)

lemma create_thread_first:
  assumes "create_thread d n w p nm f a u (s, sc) = Inr (t, s', sc')" and "procs sc p = Some pr" and "p_threads pr = 0"
  shows "vmms (snd s') = vmms (snd s)" and "sc' = put_thread t (started (next_tid sc) p w f a u (stack_of u s'))
    ((put_proc p (pr\<lparr>p_threads := t\<rparr>) (put_thread t zero_thread sc))\<lparr>next_tid := next_tid sc + 1\<rparr>)"
    and "if u then \<exists>vm. vmms (snd s) (proc_vmm (current_process sc)) = Some vm \<and> cr3 (snd s') = pml4t vm else cr3 (snd s') = cr3 (snd s)"
proof -
  let ?sc1 = "put_proc p (pr\<lparr>p_threads := t\<rparr>) (put_thread t zero_thread sc)"
  obtain s1 stack where k: "kalloc d n 224 s = Inr (t, s1)"
    and st: "(if u then alloc_user_stack d n (proc_vmm (current_process sc)) USER_STACK_START (proc_vmm p)
        (set_bytes (bytes_at nm (th_name zero_thread) (vm_bytes s1)) s1)
      else alloc_kernel_stack d n (set_bytes (bytes_at nm (th_name zero_thread) (vm_bytes s1)) s1)) = Inr (stack, s')"
    and sc': "sc' = put_thread t (started (next_tid sc) p w f a u stack) (?sc1\<lparr>next_tid := next_tid sc + 1\<rparr>)"
    using assms
    by (cases u) (auto simp: create_thread_def append_thread_def get_proc_def bindE_eq_Inr Let_def started_def zero_thread_fields put_others)
  let ?s2 = "set_bytes (bytes_at nm (th_name zero_thread) (vm_bytes s1)) s1"
  note k' = vmms_ops(1) [OF k] byte_free_keeps(2) [OF byte_free_ops(1) k]
  have "vmms (snd s') = vmms (snd s1) \<and> stack = stack_of u s'" "if u then
      \<exists>vm. vmms (snd s1) (proc_vmm (current_process sc)) = Some vm \<and> cr3 (snd s') = pml4t vm else cr3 (snd s') = cr3 (snd s1)"
    using st alloc_kernel_stack_keeps [of d n ?s2 stack s'] alloc_user_stack_keeps [of d n _ USER_STACK_START "proc_vmm p" ?s2 stack s']
    by (cases u; simp add: stack_of_def set_bytes_def)+
  then show "vmms (snd s') = vmms (snd s)" "sc' = put_thread t (started (next_tid sc) p w f a u (stack_of u s')) (?sc1\<lparr>next_tid := next_tid sc + 1\<rparr>)"
    "if u then \<exists>vm. vmms (snd s) (proc_vmm (current_process sc)) = Some vm \<and> cr3 (snd s') = pml4t vm else cr3 (snd s') = cr3 (snd s)"
    using k' sc' by (simp_all split: if_splits)
qed

lemma create_proc_first:
  assumes "create_proc d n w l f a vm True u (s, sc) = Inr (p, s', sc')"
  shows "vmms (snd s') = (vmms (snd s))(proc_vmm p \<mapsto> snd vm)"
    and "\<exists>t. threads sc' = (threads sc)(t \<mapsto> started (next_tid sc) p w f a u (stack_of u s')) \<and>
      procs sc' = (procs sc)(p \<mapsto> zero_process\<lparr>pid := next_pid sc, p_threads := t, p_next := head_proc sc\<rparr>) \<and>
      head_proc sc' = p \<and> idle_proc sc' = idle_proc sc \<and> current_process sc' = current_process sc \<and> current_thread sc' = current_thread sc"
    and "if u then \<exists>vm'. ((vmms (snd s))(proc_vmm p \<mapsto> snd vm)) (proc_vmm (current_process sc)) = Some vm' \<and> cr3 (snd s') = pml4t vm'
      else cr3 (snd s') = cr3 (snd s)"
proof -
  let ?sc1 = "(put_proc p (zero_process\<lparr>pid := next_pid sc\<rparr>) sc)\<lparr>next_pid := next_pid sc + 1\<rparr>"
  obtain s1 t sc2 pr where k: "kalloc d n 128 s = Inr (p, s1)"
    and t: "create_thread d n w p l f a u (store_vmm (proc_vmm p) vm s1, ?sc1) = Inr (t, s', sc2)"
    and pr: "procs sc2 p = Some pr" and sc': "sc' = (put_proc p (pr\<lparr>p_next := head_proc sc2\<rparr>) sc2)\<lparr>head_proc := p\<rparr>"
    using assms by (auto simp: create_proc_def bindE_eq_Inr Let_def put_proc_def)
  note ct = create_thread_first [OF t, of "zero_process\<lparr>pid := next_pid sc\<rparr>"]
  show "vmms (snd s') = (vmms (snd s))(proc_vmm p \<mapsto> snd vm)"
    using ct(1) vmms_ops(1) [OF k] by (simp add: store_vmm_def zero_process_def)
  show "if u then \<exists>vm'. ((vmms (snd s))(proc_vmm p \<mapsto> snd vm)) (proc_vmm (current_process sc)) = Some vm' \<and> cr3 (snd s') = pml4t vm'
      else cr3 (snd s') = cr3 (snd s)"
    using ct(3) vmms_ops(1) [OF k] byte_free_keeps(2) [OF byte_free_ops(1) k] by (cases u) (simp_all add: store_vmm_def zero_process_def)
  have "sc2 = put_thread t (started (next_tid sc) p w f a u (stack_of u s'))
    ((put_proc p (zero_process\<lparr>pid := next_pid sc, p_threads := t\<rparr>) (put_thread t zero_thread ?sc1))\<lparr>next_tid := next_tid sc + 1\<rparr>)"
    using ct(2) by (simp add: zero_process_def put_proc_def)
  then show "\<exists>t. threads sc' = (threads sc)(t \<mapsto> started (next_tid sc) p w f a u (stack_of u s')) \<and>
      procs sc' = (procs sc)(p \<mapsto> zero_process\<lparr>pid := next_pid sc, p_threads := t, p_next := head_proc sc\<rparr>) \<and>
      head_proc sc' = p \<and> idle_proc sc' = idle_proc sc \<and> current_process sc' = current_process sc \<and> current_thread sc' = current_thread sc"
    using pr by (intro exI [of _ t]) (auto simp: sc' put_proc_def put_thread_def)
qed

text \<open>The creation of a process ends in the address space it started in.\<close>

lemma create_proc_space:
  assumes create: "create_proc d n w l f a vm True u (s, sc) = Inr (p, s', sc')" and space: "in_space (s, sc)"
    and p: "p \<noteq> current_process sc"
  shows "in_space (s', sc')"
proof -
  have "vmms (snd s') (proc_vmm (current_process sc)) = vmms (snd s) (proc_vmm (current_process sc))" "current_process sc' = current_process sc"
    using create_proc_first(1,2) [OF create] p by (auto simp: proc_vmm_def)
  with create_proc_first(3) [OF create] space p show ?thesis by (auto simp: in_space_iff proc_vmm_def split: if_splits)
qed

section \<open>A process joins the run queue\<close>

text \<open>The run queue in a state where its threads may or may not have the processor; it may be empty.\<close>

definition queue_ok :: "nat \<Rightarrow> run_list \<Rightarrow> mm \<times> sched \<Rightarrow> bool" where
  "queue_ok n q st \<longleftrightarrow>
     links (proc_next (snd st)) (head_proc (snd st)) (map fst q) \<and>
     (\<forall>x \<in> set q. snd x \<noteq> [] \<and>
        (case procs (snd st) (fst x) of None \<Rightarrow> False | Some pr \<Rightarrow> links (thread_next (snd st)) (p_threads pr) (snd x))) \<and>
     (\<forall>x \<in> set (ring q). alive (snd st) (snd x)) \<and> (\<forall>x \<in> set q. space_ready n (fst st) (fst x)) \<and> idle_outside (snd st) q"

lemma on_ring_iff:
  "on_ring n q r st \<longleftrightarrow> q \<noteq> [] \<and> queue_ok n q st \<and> in_space st \<and> r < length (ring q) \<and> (current_process (snd st), current_thread (snd st)) = ring q ! r"
  by (auto simp: on_ring_def queue_ok_def run_queue_def)

lemma queue_ok_current: "queue_ok n q (s, sc\<lparr>current_process := a, current_thread := b\<rparr>) \<longleftrightarrow> queue_ok n q (s, sc)"
  by (auto simp: queue_ok_def alive_def idle_outside_def split: option.splits)

text \<open>The idle thread has the processor: it is the only thread of the idle process, which no process follows.\<close>

definition at_idle :: "nat \<Rightarrow> run_list \<Rightarrow> mm \<times> sched \<Rightarrow> bool" where
  "at_idle n q st \<longleftrightarrow> queue_ok n q st \<and> current_process (snd st) = idle_proc (snd st) \<and>
     (case (procs (snd st) (idle_proc (snd st)), threads (snd st) (current_thread (snd st))) of
        (Some ip, Some th) \<Rightarrow> p_threads ip = current_thread (snd st) \<and> p_next ip = 0 \<and> th_next th = 0 \<and> th_status th \<noteq> DEAD
      | _ \<Rightarrow> False)"

lemma links_cong: "\<forall>x \<in> set xs. nx' x = nx x \<Longrightarrow> links nx' a xs \<longleftrightarrow> links nx a xs"
  by (induction xs arbitrary: a) (auto split: option.split)

lemma ring_members: "x \<in> set q \<Longrightarrow> t \<in> set (snd x) \<Longrightarrow> t \<in> snd ` set (ring q)"
  by (cases x) (force simp: ring_def)

text \<open>A process and a thread at addresses that the queue and the idle process do not use.\<close>

definition unused :: "u64 \<Rightarrow> u64 \<Rightarrow> run_list \<Rightarrow> sched \<Rightarrow> bool" where
  "unused p t q sc \<longleftrightarrow> p \<noteq> 0 \<and> t \<noteq> 0 \<and> p \<notin> fst ` set q \<and> t \<notin> snd ` set (ring q) \<and> p \<noteq> idle_proc sc \<and>
     (case procs sc (idle_proc sc) of None \<Rightarrow> False | Some ip \<Rightarrow> t \<noteq> p_threads ip)"

lemma queue_ok_spawn:
  assumes q: "queue_ok n q (s, sc)" and u: "unused p t q sc"
    and sc': "threads sc' = (threads sc)(t \<mapsto> th)" "procs sc' = (procs sc)(p \<mapsto> pr)" "head_proc sc' = p" "idle_proc sc' = idle_proc sc"
    and th: "th_next th = 0" "th_status th \<noteq> DEAD" and pr: "p_threads pr = t" "p_next pr = head_proc sc"
    and sp: "\<forall>x \<in> set ((p, [t]) # q). space_ready n s' (fst x)"
  shows "queue_ok n ((p, [t]) # q) (s', sc')"
proof -
  have "links (proc_next sc') (head_proc sc) (map fst q) \<longleftrightarrow> links (proc_next sc) (head_proc sc) (map fst q)"
    by (rule links_cong) (use u sc'(2) in \<open>auto simp: unused_def proc_next_def\<close>)
  moreover have "links (thread_next sc') b (snd x) \<longleftrightarrow> links (thread_next sc) b (snd x)" if "x \<in> set q" for x b
    by (rule links_cong) (use u sc'(1) ring_members [OF that] in \<open>auto simp: unused_def thread_next_def\<close>)
  moreover have "procs sc' (fst x) = procs sc (fst x)" if "x \<in> set q" for x
    using u that sc'(2) by (auto simp: unused_def)
  moreover have "alive sc' (snd x)" if "x \<in> set (ring q)" for x
    using q u that sc'(1) by (force simp: unused_def alive_def queue_ok_def)
  moreover have "proc_next sc' p = Some (head_proc sc)" "thread_next sc' t = Some 0" "alive sc' t"
    using sc' pr th by (simp_all add: proc_next_def thread_next_def alive_def)
  ultimately show ?thesis
    using q u sc' pr sp by (auto simp: queue_ok_def idle_outside_def unused_def split: option.splits)
qed

lemma on_ring_spawn:
  assumes "on_ring n q r (s, sc)" and "queue_ok n ((p, [t]) # q) (s', sc')" and "in_space (s', sc')"
    and "current_process sc' = current_process sc" "current_thread sc' = current_thread sc"
  shows "on_ring n ((p, [t]) # q) (Suc r) (s', sc')"
  using assms by (simp add: on_ring_iff)

lemma at_idle_spawn:
  assumes "at_idle n q (s, sc)" and "queue_ok n ((p, [t]) # q) (s', sc')" and "unused p t q sc"
    and "threads sc' = (threads sc)(t \<mapsto> th)" "procs sc' = (procs sc)(p \<mapsto> pr)"
      "idle_proc sc' = idle_proc sc" "current_process sc' = current_process sc" "current_thread sc' = current_thread sc"
  shows "at_idle n ((p, [t]) # q) (s', sc')"
  using assms by (auto simp: at_idle_def unused_def split: option.splits)

section \<open>The first tick\<close>

text \<open>A tick that interrupts the idle thread resumes the first thread of the queue.\<close>

lemma schedule_idle:
  assumes "at_idle n q st" and "q \<noteq> []"
  shows "\<exists>c' st'. schedule k n c st = Inr (c', st') \<and> on_ring n q 0 st' \<and> contexts (snd st') = contexts (snd st) \<and>
    contexts (snd st') (current_thread (snd st')) = Some c' \<and> vmms (snd (fst st')) = vmms (snd (fst st))"
proof -
  obtain s sc where st: "st = (s, sc)" by (cases st)
  obtain ip th where ip: "procs sc (idle_proc sc) = Some ip" "p_threads ip = current_thread sc" "p_next ip = 0"
    and th: "threads sc (current_thread sc) = Some th" "th_next th = 0" "th_status th \<noteq> DEAD"
    and qo: "queue_ok n q (s, sc)" and cur: "current_process sc = idle_proc sc"
    using assms(1) by (auto simp: st at_idle_def split: option.splits)
  let ?t = "current_thread sc" and ?p = "fst (q ! 0)"
  let ?sc1 = "put_thread ?t (th\<lparr>th_status := READY\<rparr>) sc"
  have head: "head_proc sc = ?p" "?p \<noteq> 0"
    using links_start [of "proc_next sc" "head_proc sc" "map fst q"] qo assms(2) by (auto simp: queue_ok_def hd_map hd_conv_nth)
  have q0: "q ! 0 \<in> set q" using assms(2) by simp
  then obtain pr where pr: "procs sc ?p = Some pr" "links (thread_next sc) (p_threads pr) (snd (q ! 0))" "snd (q ! 0) \<noteq> []"
    using qo by (fastforce simp: queue_ok_def split: option.splits)
  then have pt: "p_threads pr = hd (snd (q ! 0))" using links_start by blast
  obtain s2 where s2: "switch_vm_space n (proc_vmm ?p) s = Inr s2" "hmap (snd s2) = hmap (snd s)" "vmms (snd s2) = vmms (snd s)"
      "in_space (s2, sc\<lparr>current_process := ?p\<rparr>)"
    using switch_vm_space_ready [of n s ?p sc] qo q0 by (auto simp: queue_ok_def)
  let ?st3 = "(s2, ?sc1\<lparr>current_process := ?p, current_thread := hd (snd (q ! 0))\<rparr>)"
  have sched3: "save_context c sc = Inr sc" "retire k n ?t (s, sc) = Inr (s, ?sc1)" "switch_thread n (s, ?sc1) = Inr ?st3"
    using ip th head pr(1) pt s2(1) cur
    by (simp_all add: save_context_def get_proc_def get_thread_def retire_def switch_thread_def switch_process_def next_process_def)
  have ne: "\<forall>x \<in> set q. snd x \<noteq> []" using qo by (simp add: queue_ok_def)
  have "queue_ok n q (s2, ?sc1)"
    using qo th s2 thread_next_put [OF th(1), of "th\<lparr>th_status := READY\<rparr>"]
    by (auto simp: queue_ok_def alive_def idle_outside_def space_ready_def split: option.splits)
  then have on3: "on_ring n q 0 ?st3"
    using ring_0 [OF assms(2) ne] assms(2) s2(4) by (simp add: on_ring_iff queue_ok_current in_space_iff)
  obtain st4 th' where 4: "mark_running ?st3 = Inr st4" "on_ring n q 0 st4" "contexts (snd st4) = contexts (snd ?st3)" "fst st4 = fst ?st3"
      "threads (snd st4) (current_thread (snd st4)) = Some th'"
    using mark_running_ring [OF on3] by blast
  have "contexts (snd ?st3) = contexts sc" using th(1) by (auto simp: contexts_def)
  with 4 sched3 s2(3) show ?thesis by (auto simp: st schedule_def get_thread_def contexts_def)
qed

text \<open>How many ticks pass before the queue starts over: the rest of the round, or one when the idle thread has the processor.\<close>

definition turns_left :: "nat \<Rightarrow> run_list \<Rightarrow> mm \<times> sched \<Rightarrow> nat \<Rightarrow> bool" where
  "turns_left n q st m \<longleftrightarrow> at_idle n q st \<and> m = 1 \<or> (\<exists>r. on_ring n q r st \<and> m = length (ring q) - r)"

lemma not_idle_on_ring:
  assumes "on_ring n q r st"
  shows "\<not> at_idle n q st"
proof -
  have "current_thread (snd st) \<in> snd ` set (ring q)" using on_ring_thread [OF assms] by (metis imageI nth_mem)
  moreover have "current_thread (snd st) \<notin> snd ` set (ring q)" if "at_idle n q st"
    using that by (auto simp: at_idle_def queue_ok_def idle_outside_def split: option.splits)
  ultimately show ?thesis by blast
qed

lemma turns_left_spawn:
  assumes "turns_left n q (s, sc) m" and "unused p t q sc"
    and "threads sc' = (threads sc)(t \<mapsto> th)" "procs sc' = (procs sc)(p \<mapsto> pr)" "head_proc sc' = p" "idle_proc sc' = idle_proc sc"
      "current_process sc' = current_process sc" "current_thread sc' = current_thread sc"
    and "th_next th = 0" "th_status th \<noteq> DEAD" "p_threads pr = t" "p_next pr = head_proc sc"
    and "\<forall>x \<in> set ((p, [t]) # q). space_ready n s' (fst x)" and "at_idle n q (s, sc) \<or> in_space (s', sc')"
  shows "turns_left n ((p, [t]) # q) (s', sc') m"
proof -
  have "queue_ok n q (s, sc)" using assms(1) by (auto simp: turns_left_def at_idle_def on_ring_iff)
  from queue_ok_spawn [OF this assms(2-6,9-13)] have qo: "queue_ok n ((p, [t]) # q) (s', sc')" .
  from assms(1) assms(14) consider "at_idle n q (s, sc)" "m = 1"
    | r where "on_ring n q r (s, sc)" "m = length (ring q) - r" "in_space (s', sc')"
    by (auto simp: turns_left_def not_idle_on_ring)
  then show ?thesis
  proof cases
    case 1
    then show ?thesis using at_idle_spawn [OF _ qo assms(2-4,6-8)] by (simp add: turns_left_def)
  next
    case 2
    then show ?thesis using on_ring_spawn [OF _ qo _ assms(7,8)] by (fastforce simp: turns_left_def)
  qed
qed

text \<open>When the queue starts over, its first thread is resumed with the context saved for it.\<close>

lemma first_resumed:
  assumes "turns_left n q st (length cs)" and "q \<noteq> []" and "distinct (map snd (ring q))" and "ring_contexts q (snd st) 0 = Some c"
    and "current_thread (snd st) \<noteq> snd (ring q ! 0)"
  shows "\<exists>st'. ticks k n c0 cs st = Inr (c, st') \<and> on_ring n q 0 st' \<and> vmms (snd (fst st')) = vmms (snd (fst st))"
  using assms(1) unfolding turns_left_def
proof (elim disjE exE conjE)
  assume i: "at_idle n q st" and one: "length cs = 1"
  then obtain c1 where cs: "cs = [c1]" by (cases cs) auto
  obtain c' st' where "schedule k n c1 st = Inr (c', st')" "on_ring n q 0 st'" "contexts (snd st') = contexts (snd st)"
      "contexts (snd st') (current_thread (snd st')) = Some c'" "vmms (snd (fst st')) = vmms (snd (fst st))"
    using schedule_idle [OF i assms(2)] by blast
  with assms(4) on_ring_thread [of n q 0 st'] show ?thesis by (simp add: cs ring_contexts_def)
next
  fix r
  assume r: "on_ring n q r st" and len: "length cs = length (ring q) - r"
  have less: "r < length (ring q)" using on_ring_thread [OF r] ..
  moreover have "0 < r" using on_ring_thread [OF r] assms(5) by (cases r) auto
  moreover have "cs \<noteq> []" using len less by auto
  ultimately show ?thesis using robin.run_returns [of n q r st "vmms (snd (fst st))" 0 c c0 cs k] r assms(3,4) len by auto
qed

section \<open>Properties\<close>

lemma space_readyI: "vmms (snd s) (proc_vmm p) = Some vm \<Longrightarrow> hm_rep (hmap (snd s)) M \<Longrightarrow> card (dom M) < n \<Longrightarrow> space_ready n s p"
  by (simp add: space_ready_def get_ptbl_vaddr_rep)

lemma queue_spaces: "turns_left n q st m \<Longrightarrow> x \<in> set q \<Longrightarrow> \<exists>vm. vmms (snd (fst st)) (proc_vmm (fst x)) = Some vm"
  by (auto simp: turns_left_def at_idle_def on_ring_iff queue_ok_def space_ready_def split: option.splits)

lemma on_ring_proc: "on_ring n q r (s, sc) \<Longrightarrow> current_process sc \<in> fst ` set q"
proof -
  assume "on_ring n q r (s, sc)"
  then have "(current_process sc, current_thread sc) \<in> set (ring q)" by (metis nth_mem on_ring_iff snd_conv)
  then show ?thesis by (force simp: ring_def)
qed

lemma unused_not_current:
  assumes "turns_left n q (s, sc) m" and "unused p t q sc"
  shows "current_thread sc \<noteq> t"
proof -
  have "current_thread sc \<in> snd ` set (ring q)" if "on_ring n q r (s, sc)" for r
    using on_ring_thread [OF that] by (metis imageI nth_mem snd_conv)
  with assms show ?thesis by (auto simp: turns_left_def at_idle_def unused_def split: option.splits)
qed

lemma spawned_resumed:
  assumes left: "turns_left n q (s0, sc) (length cs)" and dist: "distinct (map snd (ring q))"
    and create: "create_proc d n wrapper lit_thread func func_arg vm True is_user (s, sc) = Inr (p, s1, sc')"
    and t: "map_option p_threads (procs sc' p) = Some t" "unused p t q sc"
    and vmms: "\<forall>x \<in> set q. vmms (snd s) (proc_vmm (fst x)) \<noteq> None" "vmms (snd s') = vmms (snd s1)"
    and hm: "hm_rep (hmap (snd s')) M" "card (dom M) < n" and space: "at_idle n q (s0, sc) \<or> in_space (s', sc')"
  shows "\<exists>st'. ticks k n c0 cs (s', sc') = Inr (new_context wrapper func func_arg (stack_of is_user s1) is_user, st') \<and>
    on_ring n ((p, [t]) # q) 0 st' \<and> cr3 (snd (fst st')) = pml4t (snd vm)"
proof -
  let ?q = "(p, [t]) # q" and ?th = "started (next_tid sc) p wrapper func func_arg is_user (stack_of is_user s1)"
  note v = create_proc_first(1) [OF create]
  obtain pr where sc': "threads sc' = (threads sc)(t \<mapsto> ?th)" "procs sc' = (procs sc)(p \<mapsto> pr)" "head_proc sc' = p"
      "idle_proc sc' = idle_proc sc" "current_process sc' = current_process sc" "current_thread sc' = current_thread sc"
    and pr: "p_threads pr = t" "p_next pr = head_proc sc"
    using create_proc_first(2) [OF create] t(1) by auto
  have "\<exists>vm. vmms (snd s') (proc_vmm (fst x)) = Some vm" if "x \<in> set ?q" for x
    using that vmms(1) unfolding vmms(2) v by auto
  then have "\<forall>x \<in> set ?q. space_ready n s' (fst x)" using space_readyI [OF _ hm] by blast
  from turns_left_spawn [OF left t(2) sc' _ _ pr this space] have "turns_left n ?q (s', sc') (length cs)"
    by (simp add: started_def zero_thread_def)
  moreover have "distinct (map snd (ring ?q))" using dist t(2) by (simp add: unused_def)
  moreover have "ring_contexts ?q (snd (s', sc')) 0 = Some (new_context wrapper func func_arg (stack_of is_user s1) is_user)"
    using sc'(1) by (simp add: ring_contexts_def contexts_def started_def)
  moreover have "current_thread (snd (s', sc')) \<noteq> snd (ring ?q ! 0)" using unused_not_current [OF left t(2)] sc'(6) by simp
  ultimately obtain st' where "ticks k n c0 cs (s', sc') = Inr (new_context wrapper func func_arg (stack_of is_user s1) is_user, st')"
      "on_ring n ?q 0 st'" "vmms (snd (fst st')) = vmms (snd s1)"
    using first_resumed [of n ?q "(s', sc')" cs _ k c0] vmms(2) by auto
  then show ?thesis by (auto simp: on_ring_iff in_space_def v)
qed

text \<open>The state after \<open>sched_init\<close>: the idle thread has the processor and the queue is empty.\<close>

lemma sched_init_idle:
  assumes "sched_init d n wrapper lit_thread idle_main (s, initial_sched) = Inr st0"
  shows "turns_left n [] st0 1"
proof -
  obtain vm s1 p s2 sc2 pr where 1: "create_proc d n wrapper lit_thread idle_main 0 vm False False (s1, initial_sched) = Inr (p, s2, sc2)"
    and pr: "procs sc2 p = Some pr" and st0: "st0 = (s2, sc2\<lparr>idle_proc := p, current_process := p, current_thread := p_threads pr\<rparr>)"
    using assms by (auto simp: sched_init_def bindE_eq_Inr)
  let ?sc = "(put_proc p (zero_process\<lparr>pid := 0\<rparr>) initial_sched)\<lparr>next_pid := 1\<rparr>"
  obtain s3 t where "create_thread d n wrapper p lit_thread idle_main 0 False (store_vmm (proc_vmm p) vm s3, ?sc) = Inr (t, s2, sc2)"
    using 1 by (auto simp: create_proc_def bindE_eq_Inr Let_def initial_sched_def)
  from create_thread_first(2) [OF this, of "zero_process\<lparr>pid := 0\<rparr>"] pr show ?thesis
    by (auto simp: st0 turns_left_def at_idle_def queue_ok_def idle_outside_def zero_process_def initial_sched_def started_def zero_thread_def)
qed


text \<open>
  A program starts. Let \<open>exec_elf\<close> succeed, with the local \<open>vmm_t\<close> and the new process \<open>p\<close> and thread \<open>t\<close> at addresses that the run queue and the
  idle process do not use, and leave a well-formed map of page tables. Then it stays in the address space of the current process, and at the tick at which the
  queue starts over \<open>t\<close> gets the processor: in the wrapper, with the entry point that the loader returned and the path as its argument, in the address space
  that was in force while the file was loaded.\<close>

theorem exec_elf_starts:
  assumes "turns_left n q (kmm k, ksched k) (length cs)" and "distinct (map snd (ring q))"
    and "exec_elf d n sy wrapper lit_thread vmm ehdr phdr filename k = Inr k'"
    and "head_proc (ksched k') = p" and "map_option p_threads (procs (ksched k') p) = Some t" and "unused p t q (ksched k)"
    and "\<forall>x \<in> set q. proc_vmm (fst x) \<noteq> vmm"
    and "hm_rep (hmap (snd (kmm k'))) M" and "card (dom M) < n"
  shows "in_space (kmm k', ksched k') \<and> (\<exists>s entry k1 st'.
    load_elf d n sy ehdr phdr filename (k\<lparr>kmm := s\<rparr>) = Inr (entry, k1) \<and>
    ticks j n c0 cs (kmm k', ksched k') = Inr (new_context wrapper entry filename USER_STACK_START True, st') \<and>
    on_ring n ((p, [t]) # q) 0 st' \<and> current_process (snd st') = p \<and> current_thread (snd st') = t \<and> cr3 (snd (fst st')) = cr3 (snd s))"
proof -
  obtain vm s1 s2 entry k1 vm' p' s4 sc4 s5 where 1: "create_vmm d n (kmm k) = Inr (vm, s1)"
    and 2: "switch_vm_space n vmm (store_vmm vmm vm s1) = Inr s2"
    and 3: "load_elf d n sy ehdr phdr filename (k\<lparr>kmm := s2\<rparr>) = Inr (entry, k1)"
    and 4: "load_vmm vmm (kmm k1) = Inr vm'"
    and 5: "create_proc d n wrapper lit_thread entry filename vm' True True (kmm k1, ksched k1) = Inr (p', s4, sc4)"
    and 6: "switch_vm_space n (proc_vmm (current_process sc4)) s4 = Inr s5" and k': "k' = k1\<lparr>kmm := s5, ksched := sc4\<rparr>"
    using assms(3) by (auto simp: exec_elf_def bindE_eq_Inr)
  have v1: "vmms (snd (kmm k1)) = (vmms (snd (kmm k)))(vmm \<mapsto> snd vm)" and sc: "ksched k1 = ksched k"
    using load_elf_vmms [OF 3] switch_vm_space_vmms [OF 2] vmms_ops(3) [OF 1] by (simp_all add: store_vmm_def)
  have cr3: "cr3 (snd s2) = pml4t (snd vm)" using switch_vm_space_cr3 [OF 2] by (simp add: store_vmm_def)
  have vm': "snd vm' = snd vm" using 4 v1 by (auto simp: load_vmm_def split: option.splits)
  have p: "p' = p" using create_proc_first(2) [OF 5] assms(4) by (auto simp: k')
  have space: "in_space (s5, sc4)"
    using switch_vm_space_cr3 [OF 6] switch_vm_space_vmms [OF 6] by (simp add: in_space_iff)
  have q: "\<forall>x \<in> set q. vmms (snd (kmm k1)) (proc_vmm (fst x)) \<noteq> None" using queue_spaces [OF assms(1)] assms(7) by (auto simp: v1)
  have "\<exists>st'. ticks j n c0 cs (s5, sc4) = Inr (new_context wrapper entry filename (stack_of True s4) True, st') \<and>
      on_ring n ((p, [t]) # q) 0 st' \<and> cr3 (snd (fst st')) = pml4t (snd vm')"
    by (rule spawned_resumed [OF assms(1,2) 5 [unfolded p sc] _ assms(6) q [unfolded sc]])
      (use assms(5,8,9) switch_vm_space_vmms [OF 6] space in \<open>simp_all add: k'\<close>)
  with 3 space cr3 vm' show ?thesis by (fastforce simp: k' on_ring_iff stack_of_def)
qed

section \<open>An example: the first process\<close>

text \<open>The idle thread has the processor and the queue is empty.\<close>

definition idle_sched :: sched where
  "idle_sched = \<lparr>threads = [0x310 \<mapsto> example_thread 0x300], procs = [0x300 \<mapsto> zero_process\<lparr>p_threads := 0x310\<rparr>],
     idle_proc = 0x300, head_proc = 0, current_process = 0x300, current_thread = 0x310, next_tid = 1, next_pid = 1\<rparr>"

definition idle_mm :: mm where
  "idle_mm = upd (\<lambda>v. v\<lparr>kernel_stack_ptr := 0x403000\<rparr>) flat_mm"

lemma idle_turn: "turns_left 7 [] (idle_mm, idle_sched) 1"
  by (simp add: turns_left_def at_idle_def queue_ok_def idle_outside_def idle_sched_def example_thread_def zero_thread_def zero_process_def)

text \<open>States of the memory manager with the regions of the example.\<close>

definition flat_like :: "vmem \<Rightarrow> bool" where
  "flat_like v \<longleftrightarrow> current_vmm v = 1 \<and>
     (\<forall>r \<in> {Head 1, Kernel_text_obj, Vga_text_buffer_obj, Kernel_pmm_obj, Kernel_page_tbls_obj}. objs v r = objs (snd flat_mm) r)"

lemma flat_like_kalloc:
  assumes "flat_like v" and "heap_rep h (map (Pair True) us @ [(False, r)])" and "length us < 6" and "5 \<le> unat sz" and "unat sz + 5 < r"
  shows "\<exists>h'. kalloc 0 7 sz (h, v) = Inr (haddr (blocks_len (map (Pair True) us) + 5), h', v) \<and>
    heap_rep h' (map (Pair True) (us @ [unat sz]) @ [(False, r - unat sz - 5)])"
proof -
  have "obj_chain (objs v) (current_head (h, v)) (map (the \<circ> objs (snd flat_mm))
      [Head 1, Kernel_text_obj, Vga_text_buffer_obj, Kernel_pmm_obj, Kernel_page_tbls_obj])"
    using assms(1) by (simp add: flat_like_def flat_mm_def boot_objs_def new_head_def current_head_def)
  then have "no_growth (vmm_lengthen 0 7) v"
    by (rule vmm_no_growth)
      (simp_all add: flat_mm_def boot_objs_def new_head_def heap_start_def KERNEL_HEAP_START_def KERNEL_TEXT_START_def
        VGA_TEXT_BUFFER_BASE_def KERNEL_PMM_START_def KERNEL_PAGE_TBL_START_def)
  from kmalloc_refines [OF assms(2) this assms(4), of 7] kmalloc_abs_bump [OF assms(5), of 0 us] assms(3)
  show ?thesis by (auto simp: kalloc_def)
qed

lemma flat_like_walk:
  assumes "hmap v = example_hmap" and "\<forall>t. t \<noteq> 0xd000 \<longrightarrow> ptw v t = example_ptw t"
  shows "pt_walk 7 3 v 0xa000 a = Some 0xd000"
  using example_lookup [of 6] assms by (simp add: numeral_3_eq_3 example_ptw_def example_entries)

lemma flat_like_mmap:
  assumes "hmap (snd s) = example_hmap" and "\<forall>t. t \<noteq> 0xd000 \<longrightarrow> ptw (snd s) t = example_ptw t" and "a < KERNEL_PMM_START" and "length (bitmap (frames (snd s))) = 2"
  shows "\<exists>s'. mmap 0 7 0xa000 p a fl s = Inr (True, s') \<and> frames (snd s') = frames (snd s) \<and> hmap (snd s') = example_hmap \<and>
    (\<forall>t. t \<noteq> 0xd000 \<longrightarrow> ptw (snd s') t = example_ptw t) \<and> current_pml4t_ptr (snd s') = current_pml4t_ptr (snd s)"
proof -
  have "a \<noteq> KERNEL_PMM_START + 16" using assms(3) by (auto simp: KERNEL_PMM_START_def VGA_TEXT_BUFFER_BASE_def KERNEL_TEXT_START_def)
  with mmap_present_eq [OF flat_like_walk [OF assms(1,2), of a], of 0 p fl] assms show ?thesis
    by (simp add: note_mapping_def Let_def)
qed

text \<open>Two frames behind two pages of the window of the example's lowest table.\<close>

lemma flat_like_back_pages:
  assumes "frames (snd s) = example_frames" and "hmap (snd s) = example_hmap" and "ptw (snd s) = example_ptw" and "current_pml4t_ptr (snd s) = 0xa000"
  shows "\<exists>s'. back_pages 0 7 (Suc (Suc 0)) 0 0x400000 VM_FLAG_READ_WRITE s = Inr (True, s') \<and> hmap (snd s') = example_hmap"
proof -
  let ?f1 = "example_frames\<lparr>bitmap := [31, 0]\<rparr>" and ?f2 = "example_frames\<lparr>bitmap := [63, 0]\<rparr>"
  have f2: "pmm_alloc_page ?f1 = Inr (0x5000, ?f2)"
    by (simp add: pmm_alloc_page_def pmm_alloc_from.simps alloc_in_word.simps int_bit_def example_frames_def bitmap_read_def
        bitmap_write_def bitmap_to_paddr_def push_bit_eq_mult)
  let ?s1 = "upd (\<lambda>v. v\<lparr>frames := ?f1\<rparr>) s"
  obtain s2 where 2: "mmap 0 7 0xa000 0x4000 0x400000 VM_FLAG_READ_WRITE ?s1 = Inr (True, s2)" "frames (snd s2) = ?f1"
      "hmap (snd s2) = example_hmap" "\<forall>t. t \<noteq> 0xd000 \<longrightarrow> ptw (snd s2) t = example_ptw t" "current_pml4t_ptr (snd s2) = 0xa000"
    using flat_like_mmap [of ?s1 "0x400000" "0x4000" VM_FLAG_READ_WRITE] assms by (auto simp: KERNEL_PMM_START_def VGA_TEXT_BUFFER_BASE_def KERNEL_TEXT_START_def)
  let ?s3 = "upd (\<lambda>v. v\<lparr>frames := ?f2\<rparr>) s2"
  obtain s4 where 4: "mmap 0 7 0xa000 0x5000 0x401000 VM_FLAG_READ_WRITE ?s3 = Inr (True, s4)" "hmap (snd s4) = example_hmap"
    using flat_like_mmap [of ?s3 "0x401000" "0x5000" VM_FLAG_READ_WRITE] 2 by (auto simp: KERNEL_PMM_START_def VGA_TEXT_BUFFER_BASE_def KERNEL_TEXT_START_def)
  show ?thesis using assms(1,4) 2 4 example_frame f2 by (simp add: alloc_frame_def)
qed

lemma flat_like_stack:
  assumes v: "flat_like v" "frames v = example_frames" "hmap v = example_hmap" "ptw v = example_ptw" "current_pml4t_ptr v = 0xa000"
      "kernel_stack_ptr v = 0x403000"
    and h: "heap_rep h (map (Pair True) us @ [(False, r)])" "length us < 6" "37 < r"
  shows "\<exists>s'. alloc_kernel_stack 0 7 (h, v) = Inr (0x400000, s') \<and> hmap (snd s') = example_hmap"
proof -
  let ?v = "v\<lparr>kernel_stack_ptr := 0x400000\<rparr>"
  have fl: "flat_like ?v" using v(1) by (simp add: flat_like_def)
  obtain x h' where k: "kalloc 0 7 32 (h, ?v) = Inr (x, h', ?v)" using flat_like_kalloc [OF fl h(1,2), of 32] h(3) by auto
  have ob: "objs ?v (Head 1) = Some new_head" "current_vmm ?v = 1"
      "objs ?v Kernel_text_obj = Some \<lparr>vo_base = KERNEL_TEXT_START, vo_length = 0x13000, vo_flags = 1, vo_next = Some Vga_text_buffer_obj\<rparr>"
    using fl by (simp_all add: flat_like_def flat_mm_def boot_objs_def VM_FLAG_READ_WRITE_def)
  have "find_place (Suc 6) (h, ?v) (Head 1) 0x400000 0x2000 = Inr (Some (Head 1))"
    by (subst find_place.simps) (use ob in \<open>simp add: get_obj_def new_head_def KERNEL_TEXT_START_def\<close>)
  then have place: "find_place 7 (h, ?v) (Head 1) 0x400000 0x2000 = Inr (Some (Head 1))" by simp
  obtain s1 where s1: "insert_region 0 7 (Head 1) 0x400000 0x2000 VM_FLAG_READ_WRITE (h, ?v) = Inr s1"
      "frames (snd s1) = example_frames" "hmap (snd s1) = example_hmap" "ptw (snd s1) = example_ptw" "current_pml4t_ptr (snd s1) = 0xa000"
    using k ob v by (auto simp: insert_region_def get_obj_def set_obj_def)
  obtain s2 where s2: "back_pages 0 7 2 0 0x400000 VM_FLAG_READ_WRITE s1 = Inr (True, s2)" "hmap (snd s2) = example_hmap"
    using flat_like_back_pages [OF s1(2-5)] by (auto simp: numeral_2_eq_2)
  have a: "vmm_alloc 0 7 0x400000 0x2000 VM_FLAG_READ_WRITE 0 (h, ?v) = Inr (0x400000, s2)"
    using place s1(1) s2(1) ob(2) by (simp add: vmm_alloc_def PAGE_ALIGN_def PAGE_ALIGN_DOWN_def)
  then have "kernel_stack_ptr (snd s2) = 0x400000" using vmm_alloc_stack_ptr [OF a] by simp
  with a s2(2) v(6) show ?thesis
    by (simp add: alloc_kernel_stack_def create_sections_def create_section_def stack_section_def KERNEL_STACK_SIZE_def upd_def set_data_def)
qed

text \<open>The process and its thread are the first two objects of the heap.\<close>

lemma first_process:
  "\<exists>s' sc'. create_proc 0 7 0x5555 0x12000 0x6666 9 (new_head, example_vmm) True False (idle_mm, idle_sched) = Inr (haddr 5, s', sc') \<and>
     map_option p_threads (procs sc' (haddr 5)) = Some (haddr 138) \<and> hmap (snd s') = example_hmap \<and> kernel_stack_ptr (snd s') = 0x400000"
proof -
  let ?p = "haddr 5" and ?t = "haddr 138"
  have fl: "flat_like (snd idle_mm)" by (simp add: flat_like_def idle_mm_def flat_mm_def example_mm_def)
  have "heap_rep (fst idle_mm) (map (Pair True) [] @ [(False, 4091)])" using fresh_heap_rep by (simp add: idle_mm_def flat_mm_def example_mm_def)
  from flat_like_kalloc [OF fl this, of 128] obtain h1 where k1: "kalloc 0 7 128 idle_mm = Inr (?p, h1, snd idle_mm)"
      "heap_rep h1 (map (Pair True) [128] @ [(False, 3958)])"
    by auto
  define s1 where "s1 = store_vmm (proc_vmm ?p) (new_head, example_vmm) (h1, snd idle_mm)"
  have s1: "fst s1 = h1" "flat_like (snd s1)"
    using fl by (auto simp: s1_def store_vmm_def flat_like_def proc_vmm_def haddr_def heap_start_def KERNEL_HEAP_START_def)
  from flat_like_kalloc [OF s1(2) k1(2), of 224] obtain h2 where k2: "kalloc 0 7 224 s1 = Inr (?t, h2, snd s1)"
      "heap_rep h2 (map (Pair True) [128, 224] @ [(False, 3729)])"
    using s1(1) by (cases s1) auto
  define s2 where "s2 = set_bytes (bytes_at 0x12000 (th_name zero_thread) (vm_bytes (h2, snd s1))) (h2, snd s1)"
  have s2: "fst s2 = h2" "flat_like (snd s2)" "frames (snd s2) = example_frames" "hmap (snd s2) = example_hmap" "ptw (snd s2) = example_ptw"
      "current_pml4t_ptr (snd s2) = 0xa000" "kernel_stack_ptr (snd s2) = 0x403000"
    using s1 by (simp_all add: s2_def set_bytes_def flat_like_def s1_def store_vmm_def idle_mm_def flat_mm_def example_mm_def)
  obtain s' where s': "alloc_kernel_stack 0 7 s2 = Inr (0x400000, s')" "hmap (snd s') = example_hmap"
    using flat_like_stack [OF s2(2-7) k2(2)] s2(1) by (cases s2) auto
  from k1(1) k2(1) s' alloc_kernel_stack_keeps(3) [OF s'(1)] show ?thesis
    by (cases s') (auto simp: create_proc_def create_thread_def append_thread_def get_proc_def zero_process_def Let_def s1_def [symmetric] s2_def [symmetric])
qed


end
