(* ===== verification/Acpi.thy ===== *)
theory Acpi
  imports Tar Vga Vmm_frame
begin

text \<open>
  The tables of the firmware, kernel/drivers/acpi.c: the search for the root pointer, the mapping of the root table and of the tables it
  lists, their checksums, and the lookup of a table by its signature. \<open>ram\<close> is the physical memory of the firmware; mapping makes its bytes visible.
  The lemmas show that every listed table can be read at its virtual address and what a lookup finds.
\<close>

section \<open>State\<close>

definition EXTENDED_BIOS_START_ADDR :: u64 where "EXTENDED_BIOS_START_ADDR = 0xe0000"
definition EXTENDED_BIOS_END_ADDR :: u64 where "EXTENDED_BIOS_END_ADDR = 0xfffff"
definition EXTENDED_BIOS_LENGTH :: u64 where "EXTENDED_BIOS_LENGTH = EXTENDED_BIOS_END_ADDR - EXTENDED_BIOS_START_ADDR"
definition RSDP_SIG_SIZE :: nat where "RSDP_SIG_SIZE = 8"

text \<open>\<open>current_sig_ptr\<close> is the static local of \<open>get_rsdp\<close>; \<open>acpi_tables\<close> lists the pointers of the array in the heap.\<close>

record acpi =
  current_sig_ptr :: u64
  rsdt :: u64
  acpi_tables :: "u64 list"

definition initial_acpi :: acpi where
  "initial_acpi = \<lparr>current_sig_ptr = 0, rsdt = 0, acpi_tables = []\<rparr>"

definition rsdp_rsdt_addr :: "mem \<Rightarrow> u64 \<Rightarrow> u32" where "rsdp_rsdt_addr m p = load32 m (p + 16)"
definition sizeof_rsdp :: nat where "sizeof_rsdp = 20"
definition sdt_length :: "mem \<Rightarrow> u64 \<Rightarrow> u32" where "sdt_length m p = load32 m (p + 4)"
definition sdt_revision :: "mem \<Rightarrow> u64 \<Rightarrow> u8" where "sdt_revision m p = m (p + 8)"
definition sizeof_sdt_header :: u64 where "sizeof_sdt_header = 36"
definition sdt_addr :: "mem \<Rightarrow> u64 \<Rightarrow> nat \<Rightarrow> u32" where "sdt_addr m p i = load32 m (p + 36 + 4 * of_nat i)"

text \<open>
  A mapped window shows the bytes of the frames that the page tables lead to; \<open>frame_at\<close> is the walk of the processor from the current top table.
\<close>

definition frame_at :: "nat \<Rightarrow> mm \<Rightarrow> u64 \<Rightarrow> u64 option" where
  "frame_at n s a = map_option PAGE_ALIGN_DOWN (translate n (snd s) (current_pml4t_ptr (snd s)) a)"

definition show_frames :: "nat \<Rightarrow> mem \<Rightarrow> u64 \<Rightarrow> u64 \<Rightarrow> u64 \<Rightarrow> mm \<Rightarrow> mm" where
  "show_frames n ram phys len v s =
     set_bytes (\<lambda>a. if a - v < len \<and> frame_at n s a = Some (PAGE_ALIGN_DOWN (PAGE_ALIGN_DOWN phys + (a - v)))
                    then ram (PAGE_ALIGN_DOWN phys + (a - v)) else vm_bytes s a) s"

section \<open>Messages\<close>

definition bytes_from :: "mem \<Rightarrow> u64 \<Rightarrow> nat \<Rightarrow> u8 list" where
  "bytes_from m a n = map (\<lambda>i. m (a + of_nat i)) [0 ..< n]"

definition print_signature :: "mem \<Rightarrow> u64 \<Rightarrow> console \<Rightarrow> console" where
  "print_signature m header = print_bytes (bytes_from m header 4)"

definition print_oem_signature :: "mem \<Rightarrow> u64 \<Rightarrow> console \<Rightarrow> console" where
  "print_oem_signature m header = print_bytes (bytes_from m (header + 10) 6)"

definition print_rsdt_info :: "mem \<Rightarrow> u64 \<Rightarrow> console \<Rightarrow> console" where
  "print_rsdt_info m rsdt_ptr c =
     (let c1 = printc 10 (printlong rsdt_ptr (printstr (map of_char ''RSDT Addr: '') c));
          c2 = printc 10 (printlong (ucast (sdt_length m rsdt_ptr)) (printstr (map of_char ''RSDT Length: '') c1))
      in printc 10 (print_signature m rsdt_ptr (printstr (map of_char ''RSDT Signature: '') c2)))"

text \<open>\<open>ERROR(subsystem, message)\<close>\<close>

definition ERROR :: "string \<Rightarrow> string \<Rightarrow> console \<Rightarrow> console result" where
  "ERROR subsystem message =
     printf ([10] @ map of_char ''%s error: %s'' @ [10]) [Arg_str (map of_char subsystem), Arg_str (map of_char message)]"

section \<open>Operations\<close>

text \<open>The sum is kept in a \<open>uint32_t\<close>.\<close>

fun checksum_loop :: "mem \<Rightarrow> u64 \<Rightarrow> nat \<Rightarrow> u32 \<Rightarrow> u32" where
  "checksum_loop m p 0 checksum = checksum"
| "checksum_loop m p (Suc n) checksum = checksum_loop m (p + 1) n (checksum + ucast (m p))"

definition validate_checksum :: "mem \<Rightarrow> u64 \<Rightarrow> nat \<Rightarrow> bool" where
  "validate_checksum m p len \<longleftrightarrow> checksum_loop m p len 0 AND 0xff = 0"

text \<open>The search stops at the address \<open>EXTENDED_BIOS_END_ADDR\<close>, a physical address, though the pointer is a virtual one.\<close>

function find_sig :: "mem \<Rightarrow> u64 \<Rightarrow> u64 \<Rightarrow> u64 \<times> bool" where
  "find_sig m lit p =
     (if p < EXTENDED_BIOS_END_ADDR
      then if memcmp m p lit RSDP_SIG_SIZE \<noteq> 0 then (p, True) else find_sig m lit (p + 16)
      else (p, False))"
  by pat_completeness auto
termination
proof (relation "measure (\<lambda>(m, lit, p). 0x100000 - unat p)", goal_cases)
  case (2 m lit p)
  then have "unat p < 0xfffff" by (simp add: EXTENDED_BIOS_END_ADDR_def word_less_nat_alt)
  then have "unat (p + 16) = unat p + 16" using unat_plus_of_nat [of p 16] by simp
  with \<open>unat p < 0xfffff\<close> show ?case by simp
qed simp

declare find_sig.simps [simp del]

definition get_rsdp :: "nat \<Rightarrow> nat \<Rightarrow> mem \<Rightarrow> u64 \<Rightarrow> u64 \<Rightarrow> acpi \<times> mm \<Rightarrow> (u64 \<times> acpi \<times> mm) result" where
  "get_rsdp d n ram lit_rsd_ptr mb2_info st =
     (if current_sig_ptr (fst st) \<noteq> 0 then Inr (current_sig_ptr (fst st), st)
      else bindE (get_mb2_tag n (vm_bytes (snd st)) mb2_info 15) (\<lambda>xsdp_tag.
        if xsdp_tag \<noteq> 0 then Inr (xsdp_tag + 8, (fst st)\<lparr>current_sig_ptr := xsdp_tag + 8\<rparr>, snd st)
        else bindE (vmm_alloc d n 0 EXTENDED_BIOS_LENGTH VM_FLAG_MMIO EXTENDED_BIOS_START_ADDR (snd st)) (\<lambda>(v, s1).
             let s2 = show_frames n ram EXTENDED_BIOS_START_ADDR (PAGE_ALIGN EXTENDED_BIOS_LENGTH) v s1;
                 (p, found) = find_sig (vm_bytes s2) lit_rsd_ptr v
             in Inr (if found then p else 0, (fst st)\<lparr>current_sig_ptr := p\<rparr>, s2))))"

text \<open>
  \<open>table + PAGE_SIZE * 2\<close> is an address \<open>0x2000\<close> headers further, and \<open>table->length\<close> reads through the physical address. The result of the
  second mapping is not used.
\<close>

definition map_table :: "nat \<Rightarrow> nat \<Rightarrow> mem \<Rightarrow> u64 \<Rightarrow> mm \<Rightarrow> (u64 \<times> mm) result" where
  "map_table d n ram table s =
     (let offset = table - (table AND 0xfffffffffffff000)
      in bindE (alloc_mmio d n table (PAGE_SIZE * 2) VM_FLAG_NONE s) (\<lambda>(new_table_page, s1).
           let s2 = show_frames n ram table (PAGE_SIZE * 2) new_table_page s1; new_table = new_table_page + offset
           in if sdt_length (vm_bytes s2) new_table > ucast (PAGE_SIZE * 2)
              then let rest = sdt_length (vm_bytes s2) table - 0x2000;
                       len = ucast ((rest + 0xfff) div 0x1000 * 0x1000)
                   in bindE (alloc_mmio d n (table + PAGE_SIZE * 2 * sizeof_sdt_header) len VM_FLAG_NONE s2) (\<lambda>(extra, s3).
                        Inr (new_table, show_frames n ram (table + PAGE_SIZE * 2 * sizeof_sdt_header) len extra s3))
              else Inr (new_table, s2)))"

fun find_table :: "mem \<Rightarrow> u64 \<Rightarrow> u64 list \<Rightarrow> u64" where
  "find_table m sig [] = 0"
| "find_table m sig (t # ts) = (if memcmp m t sig 4 \<noteq> 0 then t else find_table m sig ts)"

definition get_acpi_table :: "mem \<Rightarrow> acpi \<Rightarrow> u64 \<Rightarrow> u64" where
  "get_acpi_table m a sig = find_table m sig (acpi_tables a)"

fun dump_tables :: "mem \<Rightarrow> u64 list \<Rightarrow> console \<Rightarrow> console result" where
  "dump_tables m [] c = Inr c"
| "dump_tables m (t # ts) c =
     bindE (printf (map of_char ''acpi: found the '') [] c) (\<lambda>c1. dump_tables m ts (printc 10 (print_signature m t c1)))"

definition dump_acpi_info :: "mem \<Rightarrow> acpi \<Rightarrow> console \<Rightarrow> console result" where
  "dump_acpi_info m a c =
     (if rsdt a = 0 then Inr c
      else bindE (printf (map of_char ''acpi: ACPI Version %d'' @ [10]) [Arg_int (int (unat (sdt_revision m (rsdt a))))] c) (\<lambda>c1.
           bindE (printf (map of_char ''acpi: ACPI OEM '') [] c1) (\<lambda>c2.
             dump_tables m (acpi_tables a) (printc 10 (print_oem_signature m (rsdt a) c2)))))"

text \<open>The loop of \<open>parse_rsdt\<close> over the entries \<open>i\<close>, \<open>i + 1\<close>, \<dots>, of which \<open>k\<close> are left.\<close>

fun parse_tables :: "nat \<Rightarrow> nat \<Rightarrow> mem \<Rightarrow> u64 \<Rightarrow> nat \<Rightarrow> nat \<Rightarrow> mm \<times> console \<Rightarrow> (u64 list \<times> mm \<times> console) result" where
  "parse_tables d n ram r 0 i sc = Inr ([], sc)"
| "parse_tables d n ram r (Suc k) i (s, c) =
     bindE (map_table d n ram (ucast (sdt_addr (vm_bytes s) r i)) s) (\<lambda>(t, s1).
     bindE (if validate_checksum (vm_bytes s1) t (unat (sdt_length (vm_bytes s1) t)) then Inr c
            else ERROR ''acpi'' ''table checksum failed'' c) (\<lambda>c1.
     bindE (parse_tables d n ram r k (Suc i) (s1, c1)) (\<lambda>(ts, sc). Inr (t # ts, sc))))"

definition parse_rsdt :: "nat \<Rightarrow> nat \<Rightarrow> mem \<Rightarrow> acpi \<times> mm \<times> console \<Rightarrow> (acpi \<times> mm \<times> console) result" where
  "parse_rsdt d n ram st =
     (case st of (a, s, c) \<Rightarrow>
       if rsdt a = 0 then Inr st
       else let len = (ucast (sdt_length (vm_bytes s) (rsdt a)) - sizeof_sdt_header) div 4
            in bindE (kalloc d n (8 * len) s) (\<lambda>(_, s1).
               bindE (parse_tables d n ram (rsdt a) (unat len) 0 (s1, c)) (\<lambda>(ts, sc).
                 Inr (a\<lparr>acpi_tables := ts\<rparr>, sc))))"

definition acpi_init :: "nat \<Rightarrow> nat \<Rightarrow> mem \<Rightarrow> u64 \<Rightarrow> u64 \<Rightarrow> acpi \<times> mm \<times> console \<Rightarrow> (bool \<times> acpi \<times> mm \<times> console) result" where
  "acpi_init d n ram lit_rsd_ptr mb2_info st =
     (case st of (a, s, c) \<Rightarrow>
       bindE (get_rsdp d n ram lit_rsd_ptr mb2_info (a, s)) (\<lambda>(rsdp, a1, s1).
         if rsdp = 0 \<or> \<not> validate_checksum (vm_bytes s1) rsdp sizeof_rsdp then Inl Panic
         else let (region, s2) = get_mmio_ptr (2 * PAGE_SIZE) s1;
                  addr = ucast (rsdp_rsdt_addr (vm_bytes s2) rsdp)
              in bindE (vmm_alloc d n region (2 * PAGE_SIZE) VM_FLAG_READ_WRITE addr s2) (\<lambda>(v, s3).
                   let s4 = show_frames n ram addr (2 * PAGE_SIZE) v s3;
                       addr' = ucast (rsdp_rsdt_addr (vm_bytes s4) rsdp);
                       r = v + addr' - (addr' AND 0xfffffffffffff000)
                   in bindE (parse_rsdt d n ram (a1\<lparr>rsdt := r\<rparr>, s4, c)) (\<lambda>(a5, s5, c5).
                      bindE (dump_acpi_info (vm_bytes s5) a5 c5) (\<lambda>c6. Inr (True, a5, s5, c6))))))"

section \<open>Checksums and signatures\<close>

lemma checksum_loop_sum: "checksum_loop m p n c = c + of_nat (\<Sum>k<n. unat (m (p + of_nat k)))"
proof (induction n arbitrary: p c)
  case (Suc n)
  have "(\<Sum>k<Suc n. unat (m (p + of_nat k))) = unat (m p) + (\<Sum>k<n. unat (m (p + 1 + of_nat k)))"
    by (simp only: sum.lessThan_Suc_shift) (simp add: algebra_simps)
  with Suc show ?case by (simp add: ucast_as_of_nat algebra_simps del: of_nat_unat)
qed simp

lemma low_byte_zero: "(of_nat k :: u32) AND 0xff = 0 \<longleftrightarrow> k mod 256 = 0"
proof -
  have "(0xff :: u32) = mask 8" by (simp add: mask_numeral)
  then have "(of_nat k :: u32) AND 0xff = take_bit 8 (of_nat k)" by (simp only: take_bit_eq_mask)
  moreover have "unat (take_bit 8 (of_nat k :: u32)) = k mod 256"
    by (simp add: take_bit_eq_mod unat_mod_distrib unat_of_nat mod_mod_cancel)
  ultimately show ?thesis by (metis unat_eq_zero)
qed

definition has_signature :: "mem \<Rightarrow> u64 \<Rightarrow> u64 \<Rightarrow> bool" where
  "has_signature m sig t \<longleftrightarrow> list_all (\<lambda>k. m (t + of_nat k) = m (sig + of_nat k)) [0 ..< 4]"

lemma find_table_find: "find_table m sig ts = (case find (has_signature m sig) ts of None \<Rightarrow> 0 | Some t \<Rightarrow> t)"
  by (induction ts) (auto simp: memcmp_iff has_signature_def list_all_iff)

section \<open>Windows\<close>

lemma aligned_iff: "PAGE_ALIGN_DOWN p = p \<longleftrightarrow> 0x1000 dvd unat p"
  using unat_PAGE_ALIGN_DOWN [of p] by (metis dvd_div_mult_self dvd_triv_right unsigned_word_eqI)

lemma align_plus:
  assumes "PAGE_ALIGN_DOWN p = p" and "unat x < 0x1000"
  shows "PAGE_ALIGN_DOWN (p + x) = p" and "unat (p + x) = unat p + unat x"
proof -
  obtain q where q: "unat p = 0x1000 * q" using assms(1) unfolding aligned_iff by blast
  have "0x1000 * q < 2 ^ 64" using unsigned_less [of p, where 'a = nat] q by simp
  then have "unat p + unat x < 2 ^ 64" using q assms(2) by simp
  then show u: "unat (p + x) = unat p + unat x" by (simp add: unat_word_ariths)
  have "unat (PAGE_ALIGN_DOWN (p + x)) = unat p" using q assms(2) by (simp add: unat_PAGE_ALIGN_DOWN u)
  then show "PAGE_ALIGN_DOWN (p + x) = p" by (simp add: unsigned_word_eqI)
qed

lemma align_next: "PAGE_ALIGN_DOWN p = p \<Longrightarrow> PAGE_ALIGN_DOWN (p + 0x1000) = p + 0x1000"
  unfolding aligned_iff by (simp add: unat_word_ariths dvd_mod_iff)

lemma get_index_page: "get_index (PAGE_ALIGN_DOWN a) l = get_index a l"
proof -
  have "drop_bit (9 * l + 12) (PAGE_ALIGN_DOWN a) = drop_bit (9 * l + 12) a"
    by (rule bit_word_eqI) (auto simp: PAGE_ALIGN_DOWN_def page_mask bit_simps simp del: mask_numeral dest: bit_imp_le_length)
  then show ?thesis by (simp add: get_index_def)
qed

lemma get_index_same_page: "PAGE_ALIGN_DOWN a = PAGE_ALIGN_DOWN b \<Longrightarrow> get_index a l = get_index b l"
  by (metis get_index_page)

lemma pt_walk_same_page: "PAGE_ALIGN_DOWN a = PAGE_ALIGN_DOWN b \<Longrightarrow> pt_walk n l v t a = pt_walk n l v t b"
  by (induction l arbitrary: t) (simp_all add: get_index_same_page [of a b] split: sum.split)

lemma frame_at_same_page: "PAGE_ALIGN_DOWN a = PAGE_ALIGN_DOWN b \<Longrightarrow> frame_at n s a = frame_at n s b"
  by (simp add: frame_at_def translate_def pt_walk_same_page [of a b] get_index_same_page [of a b] split: option.split)

lemma frame_at_set_bytes [simp]: "frame_at n (set_bytes m s) a = frame_at n s a"
proof -
  have "hmap (snd (set_bytes m s)) = hmap (snd s)" "ptw (snd (set_bytes m s)) = ptw (snd s)"
      "current_pml4t_ptr (snd (set_bytes m s)) = current_pml4t_ptr (snd s)"
    by (simp_all add: set_bytes_def)
  then show ?thesis by (simp add: frame_at_def translate_def pt_walk_cong [of n "snd (set_bytes m s)" "snd s"] split: option.split)
qed

text \<open>Two pages mapped in a row, and memory with such a window on \<open>ram\<close>.\<close>

definition window_ok :: "nat \<Rightarrow> mm \<Rightarrow> u64 \<Rightarrow> u64 \<Rightarrow> bool" where
  "window_ok n s v phys \<longleftrightarrow> PAGE_ALIGN_DOWN v = v \<and> frame_at n s v = Some (PAGE_ALIGN_DOWN phys) \<and>
     frame_at n s (v + 0x1000) = Some (PAGE_ALIGN_DOWN phys + 0x1000)"

definition windowed :: "mem \<Rightarrow> u64 \<Rightarrow> u64 \<Rightarrow> mem \<Rightarrow> mem" where
  "windowed ram phys v m a = (if unat (a - v) < 0x2000 then ram (PAGE_ALIGN_DOWN phys + (a - v)) else m a)"

lemma PAGE_ALIGN_DOWN_idem [simp]: "PAGE_ALIGN_DOWN (PAGE_ALIGN_DOWN a) = PAGE_ALIGN_DOWN a"
  by (simp add: PAGE_ALIGN_DOWN_def)

lemma show_window:
  assumes "window_ok n s v phys"
  shows "vm_bytes (show_frames n ram phys 0x2000 v (set_bytes m s)) = windowed ram phys v m"
proof
  fix a
  let ?P = "PAGE_ALIGN_DOWN phys"
  have w: "PAGE_ALIGN_DOWN v = v" "frame_at n s v = Some ?P" "frame_at n s (v + 0x1000) = Some (?P + 0x1000)"
    using assms by (simp_all add: window_ok_def)
  have fr: "frame_at n s a = Some (PAGE_ALIGN_DOWN (?P + (a - v)))" if lt: "unat (a - v) < 0x2000"
  proof (cases "unat (a - v) < 0x1000")
    case True
    then have "PAGE_ALIGN_DOWN a = PAGE_ALIGN_DOWN v" "PAGE_ALIGN_DOWN (?P + (a - v)) = ?P"
      using align_plus(1) [OF w(1) True] align_plus(1) [of ?P, OF _ True] w(1) by simp_all
    then show ?thesis using w(2) frame_at_same_page [of a v] by simp
  next
    case False
    then have x: "unat (a - v - 0x1000) < 0x1000"
      using lt by (simp add: unat_sub_if_size word_size)
    have "PAGE_ALIGN_DOWN a = PAGE_ALIGN_DOWN (v + 0x1000)" "PAGE_ALIGN_DOWN (?P + (a - v)) = ?P + 0x1000"
      using align_plus(1) [OF align_next [OF w(1)] x] align_plus(1) [OF align_next [of ?P] x] align_next [OF w(1)] by simp_all
    then show ?thesis using w(3) frame_at_same_page [of a "v + 0x1000"] by simp
  qed
  have "a - v < 0x2000 \<longleftrightarrow> unat (a - v) < 0x2000" by (simp add: word_less_nat_alt)
  then show "vm_bytes (show_frames n ram phys 0x2000 v (set_bytes m s)) a = windowed ram phys v m a"
    using fr by (auto simp: show_frames_def windowed_def)
qed

lemma show_frames_state: "show_frames n ram phys len v (set_bytes m s) = set_bytes (vm_bytes (show_frames n ram phys len v (set_bytes m s))) s"
  by (simp add: show_frames_def)

lemma alloc_mmio_window:
  assumes "alloc_mmio d n p 0x2000 fl s = Inr (v, s1)"
  shows "v = mmio_region (snd s)" and "mmio_region (snd s1) = v + 0x2000"
proof -
  have al: "PAGE_ALIGN 0x2000 = 0x2000" by (simp add: PAGE_ALIGN_def)
  obtain x where "v = mmio_region (snd s)"
      "vmm_alloc d n v 0x2000 (VM_FLAG_MMIO OR fl) p (upd (\<lambda>w. w\<lparr>mmio_region := v + 0x2000\<rparr>) s) = Inr (x, s1)"
    using assms by (auto simp: alloc_mmio_def get_mmio_ptr_def Let_def al bindE_eq_Inr)
  then show "v = mmio_region (snd s)" "mmio_region (snd s1) = v + 0x2000"
    using vmm_alloc_mmio_region [of d n v "0x2000"] by auto
qed

definition table_ptr :: "u64 \<Rightarrow> u64 \<Rightarrow> u64" where
  "table_ptr t v = v + (t - PAGE_ALIGN_DOWN t)"

lemma page_offset: "unat (t - PAGE_ALIGN_DOWN t) < 0x1000"
proof -
  have "unat (PAGE_ALIGN_DOWN t) \<le> unat t" by (simp add: unat_PAGE_ALIGN_DOWN)
  then have "unat (t - PAGE_ALIGN_DOWN t) = unat t - unat t div 0x1000 * 0x1000"
    by (simp add: unat_sub_if_size unat_PAGE_ALIGN_DOWN)
  then show ?thesis by (simp add: minus_div_mult_eq_mod)
qed

text \<open>Through its window a table reads as in physical memory.\<close>

lemma windowed_table:
  assumes "k < 0x1000"
  shows "windowed ram t v m (table_ptr t v + of_nat k) = ram (t + of_nat k)"
proof -
  let ?o = "t - PAGE_ALIGN_DOWN t"
  have "unat (?o + of_nat k) = unat ?o + k" using assms page_offset [of t] by (intro unat_plus_of_nat) simp
  then have "unat (table_ptr t v + of_nat k - v) < 0x2000"
    using assms page_offset [of t] by (simp add: table_ptr_def algebra_simps)
  then show ?thesis by (simp add: windowed_def table_ptr_def algebra_simps)
qed

lemma map_table_window:
  assumes "alloc_mmio d n t 0x2000 VM_FLAG_NONE s = Inr (v, s1)" and "window_ok n s1 v t" and "sdt_length ram t \<le> 0x2000"
  shows "map_table d n ram t (set_bytes m s) = Inr (table_ptr t v, set_bytes (windowed ram t v m) s1)"
proof -
  let ?M = "windowed ram t v m"
  have st: "show_frames n ram t 0x2000 v (set_bytes m s1) = set_bytes ?M s1"
    by (subst show_frames_state) (simp add: show_window [OF assms(2)])
  have "windowed ram t v m (table_ptr t v + 4 + of_nat k) = ram (t + 4 + of_nat k)" if "k < 4" for k
    using windowed_table [of "4 + k" ram t v m] that by (simp add: algebra_simps)
  then have len: "sdt_length ?M (table_ptr t v) = sdt_length ram t"
    unfolding sdt_length_def by (rule load32_shift)
  have "alloc_mmio d n t (PAGE_SIZE * 2) VM_FLAG_NONE (set_bytes m s) = Inr (v, set_bytes m s1)"
    using assms(1) byte_free_set_bytes [OF byte_free_ops(3), of d n t "0x2000" VM_FLAG_NONE m s] by (simp add: PAGE_SIZE_def)
  moreover have "\<not> 0x2000 < sdt_length ram t" using assms(3) by (simp add: linorder_not_less)
  ultimately show ?thesis
    using len st by (simp add: map_table_def Let_def PAGE_SIZE_def table_ptr_def PAGE_ALIGN_DOWN_def)
qed

section \<open>All tables\<close>

fun alloc_windows :: "nat \<Rightarrow> nat \<Rightarrow> u64 list \<Rightarrow> mm \<Rightarrow> mm result" where
  "alloc_windows d n [] s = Inr s"
| "alloc_windows d n (t # ts) s =
     bindE (alloc_mmio d n t 0x2000 VM_FLAG_NONE s) (\<lambda>(v, s1).
       if window_ok n s1 v t then alloc_windows d n ts s1 else Inl Page_Fault)"

fun table_ptrs :: "u64 list \<Rightarrow> u64 \<Rightarrow> u64 list" where
  "table_ptrs [] v = []"
| "table_ptrs (t # ts) v = table_ptr t v # table_ptrs ts (v + 0x2000)"

fun tables_view :: "mem \<Rightarrow> u64 list \<Rightarrow> u64 \<Rightarrow> mem \<Rightarrow> mem" where
  "tables_view ram [] v m = m"
| "tables_view ram (t # ts) v m = tables_view ram ts (v + 0x2000) (windowed ram t v m)"

lemma window_step:
  fixes a v :: u64
  assumes "0x2000 * Suc k \<le> unat (a - v)"
  shows "\<not> unat (a - v) < 0x2000" and "0x2000 * k \<le> unat (a - (v + 0x2000))"
proof -
  have "unat (a - v - 0x2000) = unat (a - v) - 0x2000" using assms by (simp add: unat_sub_if_size)
  then show "\<not> unat (a - v) < 0x2000" "0x2000 * k \<le> unat (a - (v + 0x2000))"
    using assms by (simp_all add: diff_diff_add)
qed

lemma tables_view_outside: "0x2000 * length ts \<le> unat (a - v) \<Longrightarrow> tables_view ram ts v m a = m a"
proof (induction ts arbitrary: v m)
  case (Cons t ts)
  then show ?case using window_step [of "length ts" a v] by (simp add: windowed_def)
qed simp

lemma tables_view_nth:
  assumes "j < length ts" and "k < 0x1000" and "0x2000 * length ts < 2 ^ 64"
  shows "tables_view ram ts v m (table_ptrs ts v ! j + of_nat k) = ram (ts ! j + of_nat k)"
  using assms
proof (induction ts arbitrary: v m j)
  case (Cons t ts)
  show ?case
  proof (cases j)
    case (Suc i)
    then show ?thesis using Cons.IH [of i "v + 0x2000" "windowed ram t v m"] Cons.prems by simp
  next
    case 0
    let ?a = "table_ptr t v + of_nat k"
    let ?o = "t - PAGE_ALIGN_DOWN t + of_nat k"
    have o: "unat ?o = unat (t - PAGE_ALIGN_DOWN t) + k" using Cons.prems(2) page_offset [of t] by (intro unat_plus_of_nat) simp
    have a: "?a - (v + 0x2000) = ?o - 0x2000" by (simp add: table_ptr_def algebra_simps)
    have "unat (?o - 0x2000) = unat ?o + 2 ^ 64 - 0x2000"
      using o Cons.prems(2) page_offset [of t] by (simp add: unat_sub_if_size word_size)
    then have "0x2000 * length ts \<le> unat (?a - (v + 0x2000))" unfolding a using Cons.prems(3) by simp
    then show ?thesis
      using 0 windowed_table [OF Cons.prems(2), of ram t v m] by (simp add: tables_view_outside)
  qed
qed simp

lemma length_table_ptrs [simp]: "length (table_ptrs ts v) = length ts"
  by (induction ts v rule: table_ptrs.induct) simp_all

definition console_ready :: "console \<Rightarrow> bool" where
  "console_ready c \<longleftrightarrow> console_wf c \<and> \<not> locked (printf_lock c)"

lemma checked_returns:
  "console_ready c \<Longrightarrow> \<exists>c'. (if b then Inr c else ERROR ''acpi'' ''table checksum failed'' c) = Inr c' \<and> console_ready c'"
  using printf_returns [of c "[10] @ map of_char ''%s error: %s'' @ [10]" "[Arg_str (map of_char ''acpi''), Arg_str (map of_char ''table checksum failed'')]"]
  by (auto simp: ERROR_def console_ready_def)

lemma parse_tables_run:
  assumes "alloc_windows d n ts s = Inr s'" and "console_ready c"
    and "\<And>j. j < length ts \<Longrightarrow> ucast (sdt_addr m r (i + j)) = ts ! j"
    and "\<And>j k. j < length ts \<Longrightarrow> k < 4 \<Longrightarrow> 0x2000 * length ts \<le> unat (r + 36 + 4 * of_nat (i + j) + of_nat k - mmio_region (snd s))"
    and "\<forall>t \<in> set ts. sdt_length ram t \<le> 0x2000"
  shows "\<exists>c'. parse_tables d n ram r (length ts) i (set_bytes m s, c) =
      Inr (table_ptrs ts (mmio_region (snd s)), set_bytes (tables_view ram ts (mmio_region (snd s)) m) s', c') \<and> console_ready c'"
  using assms
proof (induction ts arbitrary: s m i c)
  case (Cons t ts)
  let ?v = "mmio_region (snd s)" and ?m1 = "windowed ram t (mmio_region (snd s)) m"
  obtain v s1 where v: "alloc_mmio d n t 0x2000 VM_FLAG_NONE s = Inr (v, s1)" "window_ok n s1 v t" "alloc_windows d n ts s1 = Inr s'"
    using Cons.prems(1) by (auto simp: bindE_eq_Inr split: if_splits)
  have s1: "alloc_mmio d n t 0x2000 VM_FLAG_NONE s = Inr (?v, s1)" "window_ok n s1 ?v t" "alloc_windows d n ts s1 = Inr s'"
      "mmio_region (snd s1) = ?v + 0x2000"
    using v alloc_mmio_window [OF v(1)] by simp_all
  have map: "map_table d n ram t (set_bytes m s) = Inr (table_ptr t ?v, set_bytes ?m1 s1)"
    using map_table_window [OF s1(1,2)] Cons.prems(5) by simp
  have t: "ucast (sdt_addr m r i) = t" using Cons.prems(3) [of 0] by simp
  obtain c1 where c1: "(if validate_checksum ?m1 (table_ptr t ?v) (unat (sdt_length ?m1 (table_ptr t ?v))) then Inr c
      else ERROR ''acpi'' ''table checksum failed'' c) = Inr c1" "console_ready c1"
    using checked_returns [OF Cons.prems(2)] by blast
  have far: "0x2000 * Suc (length ts) \<le> unat (r + 36 + 4 * of_nat (i + Suc j) + of_nat k - ?v)" if "j < length ts" "k < 4" for j k
    using Cons.prems(4) [of "Suc j" k] that by simp
  have rd: "ucast (sdt_addr ?m1 r (Suc i + j)) = ts ! j" if "j < length ts" for j
  proof -
    let ?x = "r + 36 + 4 * of_nat (i + Suc j)"
    have "?m1 (?x + of_nat k) = m (?x + of_nat k)" if "k < 4" for k
      using window_step(1) [OF far [OF \<open>j < length ts\<close> that]] by (simp only: windowed_def if_False)
    then have "load32 ?m1 ?x = load32 m ?x" by (rule load32_shift)
    then have "sdt_addr ?m1 r (Suc i + j) = sdt_addr m r (i + Suc j)" by (simp add: sdt_addr_def)
    then show ?thesis using Cons.prems(3) [of "Suc j"] that by simp
  qed
  have far': "0x2000 * length ts \<le> unat (r + 36 + 4 * of_nat (Suc i + j) + of_nat k - mmio_region (snd s1))" if "j < length ts" "k < 4" for j k
    using window_step(2) [OF far [OF that]] s1(4) by simp
  obtain c' where "parse_tables d n ram r (length ts) (Suc i) (set_bytes ?m1 s1, c1) =
      Inr (table_ptrs ts (?v + 0x2000), set_bytes (tables_view ram ts (?v + 0x2000) ?m1) s', c')" "console_ready c'"
    using Cons.IH [OF s1(3) c1(2) rd far'] Cons.prems(5) s1(4) by auto
  then show ?case using map t c1(1) by simp
qed simp

section \<open>Properties\<close>


lemma find_nth:
  assumes "\<And>j. j < length xs \<Longrightarrow> P (xs ! j) \<longleftrightarrow> Q j"
  shows "find P xs = map_option ((!) xs) (find Q [0 ..< length xs])"
  using assms
proof (induction xs arbitrary: Q)
  case (Cons x xs)
  have "find P xs = map_option ((!) xs) (find (Q \<circ> Suc) [0 ..< length xs])"
    using Cons.prems by (intro Cons.IH) (metis Suc_less_eq comp_apply length_Cons nth_Cons_Suc)
  moreover have "find Q (map Suc ys) = map_option Suc (find (Q \<circ> Suc) ys)" for ys
    by (induction ys) auto
  moreover have "[0 ..< length (x # xs)] = 0 # map Suc [0 ..< length xs]"
    by (simp add: upt_conv_Cons map_Suc_upt del: upt_Suc)
  ultimately show ?case using Cons.prems [of 0] by (auto simp: option.map_comp comp_def)
qed simp


section \<open>An example machine\<close>

text \<open>One table, at the physical address \<open>0x7010\<close>, listed by a root table at the virtual address \<open>0x60000\<close>.\<close>

definition acpi_ram :: mem where
  "acpi_ram = bytes_at 0x7010 [65, 80, 73, 67, 44, 0, 0, 0] (\<lambda>_. 0)"

definition acpi_bytes :: mem where
  "acpi_bytes = bytes_at 0x60004 [40, 0, 0, 0] (bytes_at 0x60024 [0x10, 0x70, 0, 0] (bytes_at 0x61000 [65, 80, 73, 67] (\<lambda>_. 0)))"

definition example_acpi :: acpi where
  "example_acpi = initial_acpi\<lparr>rsdt := 0x60000\<rparr>"

lemma specific_low: "bitmap f \<noteq> [] \<Longrightarrow> p = 0x7000 \<or> p = 0x8000 \<Longrightarrow> \<exists>b f'. pmm_alloc_specific_page f p = Inr (b, f') \<and> bitmap f' \<noteq> []"
  by (auto simp: pmm_alloc_specific_page_def paddr_to_bitmap_def bitmap_read_def bitmap_write_def int_bit_def Let_def)

lemma note_mapping_bitmap: "bitmap (frames (snd s)) \<noteq> [] \<Longrightarrow> bitmap (frames (snd (note_mapping p a s))) \<noteq> []"
  by (simp add: note_mapping_def Let_def)

lemma note_mapping_root [simp]: "current_pml4t_ptr (snd (note_mapping p a s)) = current_pml4t_ptr (snd s)"
  by (simp add: note_mapping_def Let_def)

definition upper_tables :: "mm \<Rightarrow> bool" where
  "upper_tables s \<longleftrightarrow> hmap (snd s) = example_hmap \<and> current_pml4t_ptr (snd s) = 0xa000 \<and> bitmap (frames (snd s)) \<noteq> [] \<and>
     ptw (snd s) 0xa000 = example_ptw 0xa000 \<and> ptw (snd s) 0xb000 = example_ptw 0xb000 \<and> ptw (snd s) 0xc000 = example_ptw 0xc000"

lemma upper_walk: "upper_tables s \<Longrightarrow> pt_walk (Suc n) 3 (snd s) 0xa000 a = Some 0xd000"
  by (simp add: upper_tables_def numeral_3_eq_3 example_ptw_def example_entries example_lookup)

lemma back_page:
  assumes "upper_tables s" and "p = 0x7000 \<or> p = 0x8000"
  shows "\<exists>s'. back_pages 0 7 (Suc k) p a fl s = back_pages 0 7 k (p + 0x1000) (a + 0x1000) fl s' \<and> upper_tables s' \<and>
    ptw (snd s') 0xd000 = (ptw (snd s) 0xd000)(get_index a 0 := p OR fl OR 7)"
proof -
  obtain b f where f: "pmm_alloc_specific_page (frames (snd s)) p = Inr (b, f)" "bitmap f \<noteq> []"
    using specific_low assms by (metis upper_tables_def)
  let ?s1 = "upd (\<lambda>v. v\<lparr>frames := f\<rparr>) s"
  have u: "upper_tables ?s1" using assms(1) f(2) by (simp add: upper_tables_def)
  from mmap_present_eq [OF upper_walk [OF u, of 6 a], of 0 p fl]
  have "back_pages 0 7 (Suc k) p a fl s = back_pages 0 7 k (p + 0x1000) (a + 0x1000) fl
      (note_mapping p a (upd (\<lambda>v. v\<lparr>ptw := (ptw v)(0xd000 := (ptw v 0xd000)(get_index a 0 := p OR fl OR 7))\<rparr>) ?s1))"
    using assms f(1) by (auto simp: upper_tables_def)
  moreover have "upper_tables (note_mapping p a (upd (\<lambda>v. v\<lparr>ptw := (ptw v)(0xd000 := (ptw v 0xd000)(get_index a 0 := p OR fl OR 7))\<rparr>) ?s1))"
    using u by (simp add: upper_tables_def note_mapping_bitmap)
  ultimately show ?thesis by fastforce
qed

lemma flat_place: "find_place 7 flat_mm (Head 1) 0xffffff80000c1000 0x2000 = Inr (Some Vga_text_buffer_obj)"
proof -
  have ob: "get_obj flat_mm (Head 1) = Inr new_head"
      "get_obj flat_mm Kernel_text_obj = Inr \<lparr>vo_base = 0xffffff8000000000, vo_length = 0x13000, vo_flags = 1, vo_next = Some Vga_text_buffer_obj\<rparr>"
      "get_obj flat_mm Vga_text_buffer_obj = Inr \<lparr>vo_base = 0xffffff80000c0000, vo_length = 0x1000, vo_flags = 16, vo_next = Some Kernel_pmm_obj\<rparr>"
      "get_obj flat_mm Kernel_pmm_obj = Inr \<lparr>vo_base = 0xffffff80000e8000, vo_length = 0x1000, vo_flags = 1, vo_next = Some Kernel_page_tbls_obj\<rparr>"
    by (simp_all add: get_obj_def flat_mm_def boot_objs_def VGA_TEXT_BUFFER_BASE_def KERNEL_PMM_START_def KERNEL_TEXT_START_def
        VM_FLAG_READ_WRITE_def VM_FLAG_MMIO_def)
  have "find_place (Suc (Suc (Suc 4))) flat_mm (Head 1) 0xffffff80000c1000 0x2000 = Inr (Some Vga_text_buffer_obj)"
    by (simp only: find_place.simps ob bindE_simps) (simp add: ob new_head_def)
  then show ?thesis by simp
qed

lemma acpi_window:
  assumes "heap_rep h (map (Pair True) [8] @ [(False, 4078)])"
  shows "\<exists>s'. alloc_mmio 0 7 0x7010 0x2000 VM_FLAG_NONE (h, snd flat_mm) = Inr (0xffffff80000c1000, s') \<and> window_ok 7 s' 0xffffff80000c1000 0x7010"
proof -
  let ?v = "0xffffff80000c1000 :: u64" and ?F = "\<lambda>v :: vmem. v\<lparr>mmio_region := 0xffffff80000c3000\<rparr>"
  let ?s0 = "on_rest ?F (h, snd flat_mm)"
  have fl: "mmio_region (snd flat_mm) = ?v" "upper_tables (h, snd flat_mm)" "current_vmm (snd flat_mm) = 1"
    "objs (snd flat_mm) Vga_text_buffer_obj = Some \<lparr>vo_base = 0xffffff80000c0000, vo_length = 0x1000, vo_flags = 16, vo_next = Some Kernel_pmm_obj\<rparr>"
    by (simp_all add: flat_mm_def example_mm_def upper_tables_def example_frames_def boot_objs_def VGA_TEXT_BUFFER_BASE_def PAGE_SIZE_def VM_FLAG_MMIO_def)
  obtain p h' where "kalloc 0 7 32 (h, snd flat_mm) = Inr (p, h', snd flat_mm)"
    using kmalloc_bump [OF assms flat_no_growth, of 32 7] by (auto simp: kalloc_def)
  then have k: "kalloc 0 7 32 ?s0 = Inr (p, on_rest ?F (h', snd flat_mm))" using window.kalloc_frame by simp
  have "find_place 7 ?s0 (Head 1) ?v 0x2000 = find_place 7 (fst flat_mm, snd flat_mm) (Head 1) ?v 0x2000"
    unfolding window.find_place_frame by (rule find_place_heap)
  then have place: "find_place 7 ?s0 (Head 1) ?v 0x2000 = Inr (Some Vga_text_buffer_obj)" using flat_place by simp
  obtain s1 where s1: "insert_region 0 7 Vga_text_buffer_obj ?v 0x2000 16 ?s0 = Inr s1" "upper_tables s1"
    using k fl(2,4) by (auto simp: insert_region_def get_obj_def set_obj_def upper_tables_def)
  obtain s2 where s2: "back_pages 0 7 (Suc (Suc 0)) 0x7000 ?v 16 s1 = back_pages 0 7 (Suc 0) 0x8000 (?v + 0x1000) 16 s2" "upper_tables s2"
      "ptw (snd s2) 0xd000 = (ptw (snd s1) 0xd000)(get_index ?v 0 := 0x7017)"
    using back_page [OF s1(2), of "0x7000" "Suc 0" ?v 16] by auto
  obtain s3 where s3: "back_pages 0 7 (Suc 0) 0x8000 (?v + 0x1000) 16 s2 = Inr (True, s3)" "upper_tables s3"
      "ptw (snd s3) 0xd000 = (ptw (snd s2) 0xd000)(get_index (?v + 0x1000) 0 := 0x8017)"
    using back_page [OF s2(2), of "0x8000" 0 "?v + 0x1000" 16] by auto
  have "back_pages 0 7 2 0x7000 ?v 16 s1 = Inr (True, s3)" using s2(1) s3(1) by (simp only: numeral_2_eq_2)
  then have "vmm_alloc 0 7 ?v 0x2000 16 0x7010 ?s0 = Inr (?v, s3)"
    using place s1(1) fl(3) by (simp add: vmm_alloc_def PAGE_ALIGN_def PAGE_ALIGN_DOWN_def)
  then have "alloc_mmio 0 7 0x7010 0x2000 VM_FLAG_NONE (h, snd flat_mm) = Inr (?v, s3)"
    using fl(1) by (simp add: alloc_mmio_def get_mmio_ptr_def upd_def on_rest_def PAGE_ALIGN_def VM_FLAG_MMIO_def VM_FLAG_NONE_def)
  moreover have "window_ok 7 s3 ?v 0x7010"
  proof -
    have w: "pt_walk 7 3 (snd s3) 0xa000 a = Some 0xd000" for a using upper_walk [OF s3(2), of 6 a] by simp
    have i: "get_index ?v 0 = 193" "get_index 0xffffff80000c2000 0 = 194" by (simp_all add: get_index_def)
    show ?thesis
      using s2(3) s3(2,3) by (simp add: window_ok_def frame_at_def translate_def w i upper_tables_def PAGE_ALIGN_DOWN_def)
  qed
  ultimately show ?thesis by blast
qed


end
