(* ===== verification/Apic.thy ===== *)
theory Apic
  imports Acpi
begin

text \<open>
  The interrupt controllers, kernel/drivers/apic.c: the old controllers are masked through their ports, the local controller is enabled through its registers in
  memory, the address of the I/O controller comes from the MADT, and its entry for the keyboard is set. The registers of the I/O controller are reached through an index
  and a window register, which is a contract between the driver and the device.
\<close>

section \<open>Old and local controllers\<close>

definition PIC_MASTER_COMMAND_PORT :: u16 where "PIC_MASTER_COMMAND_PORT = 0x20"
definition PIC_MASTER_DATA_PORT :: u16 where "PIC_MASTER_DATA_PORT = 0x21"
definition PIC_SLAVE_COMMAND_PORT :: u16 where "PIC_SLAVE_COMMAND_PORT = 0xa0"
definition PIC_SLAVE_DATA_PORT :: u16 where "PIC_SLAVE_DATA_PORT = 0xa1"

definition disable_8259 :: "console \<Rightarrow> console" where
  "disable_8259 =
     fold (\<lambda>(port, byte). outb port byte)
       [(PIC_MASTER_COMMAND_PORT, 0x11), (PIC_SLAVE_COMMAND_PORT, 0x11),
        (PIC_MASTER_DATA_PORT, 0x20), (PIC_SLAVE_DATA_PORT, 0x28),
        (PIC_MASTER_DATA_PORT, 0x2), (PIC_SLAVE_DATA_PORT, 0x4),
        (PIC_MASTER_DATA_PORT, 0x1), (PIC_SLAVE_DATA_PORT, 0x1),
        (PIC_MASTER_DATA_PORT, 0xff), (PIC_SLAVE_DATA_PORT, 0xff)]"

text \<open>\<open>rdmsr\<close> leaves the low half of the register in \<open>rax\<close>; \<open>msr\<close> is its value.\<close>

definition get_lapic :: "u64 \<Rightarrow> console \<Rightarrow> (u64 \<times> console) result" where
  "get_lapic msr c =
     (let msr_reg = ucast (ucast msr :: u32) :: u64
      in bindE (printf (map of_char ''apic: lapic is at %lu'' @ [10]) [Arg_long msr_reg] c) (\<lambda>c1.
           Inr (push_bit 12 (drop_bit 12 msr_reg AND 0x000fffff), c1)))"

definition local_apic_enable :: "u64 \<Rightarrow> mem \<Rightarrow> mem" where
  "local_apic_enable regs m =
     (let m1 = store32 m (regs + 0xf0) (load32 m (regs + 0xf0) AND 0xffffff00)
      in store32 m1 (regs + 0xf0) (load32 m1 (regs + 0xf0) OR 0x000001f0))"

definition get_apic_id_reg :: "u64 \<Rightarrow> mem \<Rightarrow> u64" where
  "get_apic_id_reg regs m = load64 m regs"

section \<open>The MADT\<close>

datatype madt_types_t = MADT_LAPIC | MADT_IOAPIC | MADT_IOAPIC_OVERRIDE | MADT_IOAPIC_NMI | MADT_LAPIC_NMI
  | MADT_LAPIC_ADDR_OVERRIDE | MADT_LX2APIC | MADT_OTHER u8

definition madt_type :: "u8 \<Rightarrow> madt_types_t" where
  "madt_type b =
     (if unat b < 7
      then [MADT_LAPIC, MADT_IOAPIC, MADT_IOAPIC_OVERRIDE, MADT_IOAPIC_NMI, MADT_LAPIC_NMI, MADT_LAPIC_ADDR_OVERRIDE, MADT_LX2APIC] ! unat b
      else MADT_OTHER b)"

definition LOG :: "string \<Rightarrow> string \<Rightarrow> console \<Rightarrow> console result" where
  "LOG subsystem message =
     printf ([10] @ map of_char ''%s: %s'' @ [10]) [Arg_str (map of_char subsystem), Arg_str (map of_char message)]"

text \<open>
  The loop over the entries: the bound includes the address behind the table, eight bytes are read for the address of the I/O controller, and an entry of length zero is
  looked at again for ever, so the loop has a budget.
\<close>

fun madt_loop :: "nat \<Rightarrow> mem \<Rightarrow> u64 \<Rightarrow> u64 \<Rightarrow> console \<Rightarrow> (u64 \<times> console) result" where
  "madt_loop 0 m madt e c = Inl Out_Of_Fuel"
| "madt_loop (Suc n) m madt e c =
     (if e \<le> madt + ucast (sdt_length m madt)
      then (let continue = (\<lambda>message. bindE (LOG ''apic'' message c) (madt_loop n m madt (e + ucast (m (e + 1)))))
            in case madt_type (m e) of
                 MADT_LAPIC \<Rightarrow> continue ''found an lapic''
               | MADT_IOAPIC \<Rightarrow>
                   bindE (printf (map of_char ''apic: ioapic is at %lu'' @ [10]) [Arg_long (load64 m (e + 4))] c) (\<lambda>c1.
                     Inr (load64 m (e + 4), c1))
               | MADT_IOAPIC_OVERRIDE \<Rightarrow> continue ''found an ioapic override''
               | MADT_IOAPIC_NMI \<Rightarrow> continue ''found an ioapic override''
               | MADT_LAPIC_NMI \<Rightarrow> continue ''found an lapic''
               | MADT_LAPIC_ADDR_OVERRIDE \<Rightarrow> continue ''found an lapic''
               | _ \<Rightarrow> Inl Panic)
      else Inr (0, c))"

definition get_ioapic :: "nat \<Rightarrow> u64 \<Rightarrow> acpi \<Rightarrow> mem \<Rightarrow> console \<Rightarrow> (u64 \<times> console) result" where
  "get_ioapic n lit_APIC a m c =
     (let madt = get_acpi_table m a lit_APIC
      in if madt = 0 then Inl Panic else madt_loop n m madt (madt + sizeof_sdt_header + 8) c)"

section \<open>The I/O controller\<close>

text \<open>
  The device is reached by volatile 32-bit stores and loads at its base and at offset \<open>0x10\<close>; \<open>store\<close> and \<open>load\<close> stand for them.
\<close>

definition IOREDTBL :: "nat \<Rightarrow> nat" where
  "IOREDTBL i = 2 * i + 0x10"

definition write_io_apic_reg :: "(u64 \<Rightarrow> u32 \<Rightarrow> 'd \<Rightarrow> 'd) \<Rightarrow> u64 \<Rightarrow> u8 \<Rightarrow> u32 \<Rightarrow> 'd \<Rightarrow> 'd" where
  "write_io_apic_reg store io_apic_base offset val s = store (io_apic_base + 0x10) val (store io_apic_base (ucast offset) s)"

definition read_io_apic_reg :: "(u64 \<Rightarrow> u32 \<Rightarrow> 'd \<Rightarrow> 'd) \<Rightarrow> (u64 \<Rightarrow> 'd \<Rightarrow> u32) \<Rightarrow> u64 \<Rightarrow> u8 \<Rightarrow> 'd \<Rightarrow> u32 \<times> 'd" where
  "read_io_apic_reg store load io_apic_base offset s =
     (let s1 = store io_apic_base (ucast offset) s in (load (io_apic_base + 0x10) s1, s1))"

definition remap_ioredtbl :: "(u64 \<Rightarrow> u32 \<Rightarrow> 'd \<Rightarrow> 'd) \<Rightarrow> (u64 \<Rightarrow> 'd \<Rightarrow> u32) \<Rightarrow> u64 \<Rightarrow> 'd \<Rightarrow> 'd" where
  "remap_ioredtbl store load io_apic_base s =
     (let (w1, s1) = read_io_apic_reg store load io_apic_base (of_nat (IOREDTBL 1)) s;
          s2 = write_io_apic_reg store io_apic_base (of_nat (IOREDTBL 1)) ((w1 AND 0xfffeff00) OR 0x00000040) s1;
          (w2, s3) = read_io_apic_reg store load io_apic_base (of_nat (IOREDTBL 1 + 1)) s2
      in write_io_apic_reg store io_apic_base (of_nat (IOREDTBL 1 + 1)) (w2 AND 0xff000000) s3)"

record apic =
  lapic_regs :: u64
  ioapic_regs :: u64

definition apic_init ::
  "nat \<Rightarrow> nat \<Rightarrow> (u64 \<Rightarrow> u32 \<Rightarrow> 'd \<Rightarrow> 'd) \<Rightarrow> (u64 \<Rightarrow> 'd \<Rightarrow> u32) \<Rightarrow> u64 \<Rightarrow> u64 \<Rightarrow> acpi \<Rightarrow> 'd \<times> mm \<times> console \<Rightarrow>
    (apic \<times> 'd \<times> mm \<times> console) result" where
  "apic_init d n store load msr lit_APIC a st =
     (case st of (dev, s, c) \<Rightarrow>
       bindE (get_lapic msr c) (\<lambda>(lapic_phys, c1).
       bindE (alloc_mmio d n (PAGE_ALIGN_DOWN lapic_phys) PAGE_SIZE VM_FLAG_READ_WRITE s) (\<lambda>(v, s1).
         let regs = CALC_VIRT_ADDRESS lapic_phys v; s2 = set_bytes (local_apic_enable regs (vm_bytes s1)) s1
         in bindE (get_ioapic n lit_APIC a (vm_bytes s2) c1) (\<lambda>(ioapic_phys, c2).
            if ioapic_phys = 0 then Inl Panic
            else bindE (alloc_mmio d n ioapic_phys PAGE_SIZE VM_FLAG_READ_WRITE s2) (\<lambda>(io, s3).
                 Inr (\<lparr>lapic_regs = regs, ioapic_regs = io\<rparr>, remap_ioredtbl store load io dev, s3, c2))))))"

section \<open>The index and window contract\<close>

text \<open>
  What the data sheet of the device promises: a store at the base selects a register, a store or load at offset \<open>0x10\<close> accesses the selected one.
\<close>

locale indexed_device =
  fixes store :: "u64 \<Rightarrow> u32 \<Rightarrow> 'd \<Rightarrow> 'd"
    and load :: "u64 \<Rightarrow> 'd \<Rightarrow> u32"
    and base :: u64
    and index :: "'d \<Rightarrow> u32"
    and regs :: "'d \<Rightarrow> u32 \<Rightarrow> u32"
  assumes select: "index (store base i s) = i" "regs (store base i s) = regs s"
    and window: "regs (store (base + 0x10) v s) = (regs s)(index s := v)" "load (base + 0x10) s = regs s (index s)"
begin

lemma write_reg: "regs (write_io_apic_reg store base off v s) = (regs s)(ucast off := v)"
  by (simp add: write_io_apic_reg_def select window)

lemma read_reg:
  "fst (read_io_apic_reg store load base off s) = regs s (ucast off)" "regs (snd (read_io_apic_reg store load base off s)) = regs s"
  by (simp_all add: read_io_apic_reg_def Let_def select window)

lemma remap_regs:
  "regs (remap_ioredtbl store load base s) =
     (regs s)(0x12 := (regs s 0x12 AND 0xfffeff00) OR 0x40, 0x13 := regs s 0x13 AND 0xff000000)"
  by (simp add: remap_ioredtbl_def IOREDTBL_def case_prod_unfold Let_def write_reg read_reg)

end

text \<open>A register file that is accessed in this way.\<close>

record register_file =
  rf_index :: u32
  rf_regs :: "u32 \<Rightarrow> u32"

definition rf_store :: "u64 \<Rightarrow> u64 \<Rightarrow> u32 \<Rightarrow> register_file \<Rightarrow> register_file" where
  "rf_store base a v s =
     (if a = base then s\<lparr>rf_index := v\<rparr>
      else if a = base + 0x10 then s\<lparr>rf_regs := (rf_regs s)(rf_index s := v)\<rparr> else s)"

definition rf_load :: "u64 \<Rightarrow> u64 \<Rightarrow> register_file \<Rightarrow> u32" where
  "rf_load base a s = (if a = base then rf_index s else if a = base + 0x10 then rf_regs s (rf_index s) else 0)"

interpretation rf: indexed_device "rf_store base" "rf_load base" base rf_index rf_regs for base
  by unfold_locales (simp_all add: rf_store_def rf_load_def)

section \<open>Walking the MADT\<close>

definition skipped :: "u8 \<Rightarrow> bool" where
  "skipped t \<longleftrightarrow> t \<in> {0, 2, 3, 4, 5}"

text \<open>\<open>es\<close> are the types of the entries from \<open>e\<close> on, \<open>entry_addr\<close> the address of the \<open>k\<close>-th.\<close>

fun entry_addr :: "mem \<Rightarrow> u64 \<Rightarrow> nat \<Rightarrow> u64" where
  "entry_addr m e 0 = e"
| "entry_addr m e (Suc k) = entry_addr m (e + ucast (m (e + 1))) k"

lemma LOG_returns: "console_ready c \<Longrightarrow> \<exists>c'. LOG sub msg c = Inr c' \<and> console_ready c'"
proof -
  assume c: "console_ready c"
  have "0 \<notin> set ([10] @ map of_char ''%s: %s'' @ [10] :: u8 list)" by simp
  then have "takeWhile (\<lambda>b. b \<noteq> 0) ([10] @ map of_char ''%s: %s'' @ [10]) = ([10] @ map of_char ''%s: %s'' @ [10] :: u8 list)"
    by (simp add: takeWhile_eq_all_conv)
  with printf_returns [of c "[10] @ map of_char ''%s: %s'' @ [10]"] c show ?thesis
    by (auto simp: LOG_def console_ready_def)
qed

lemma madt_skip:
  assumes "skipped (m e)" and "e \<le> madt + ucast (sdt_length m madt)" and "console_ready c"
  shows "\<exists>c'. madt_loop (Suc n) m madt e c = madt_loop n m madt (e + ucast (m (e + 1))) c' \<and> console_ready c'"
proof -
  have "\<exists>msg. madt_loop (Suc n) m madt e c = bindE (LOG ''apic'' msg c) (madt_loop n m madt (e + ucast (m (e + 1))))"
    using assms(1,2) by (auto simp: skipped_def madt_type_def)
  then obtain msg where "madt_loop (Suc n) m madt e c = bindE (LOG ''apic'' msg c) (madt_loop n m madt (e + ucast (m (e + 1))))" by blast
  moreover obtain c' where "LOG ''apic'' msg c = Inr c'" "console_ready c'" using LOG_returns [OF assms(3)] by blast
  ultimately show ?thesis by auto
qed

lemma madt_walk:
  assumes "k < n" and "\<forall>j < k. skipped (m (entry_addr m e j))" and "\<forall>j \<le> k. entry_addr m e j \<le> madt + ucast (sdt_length m madt)"
    and "console_ready c"
  shows "\<exists>c'. madt_loop n m madt e c = madt_loop (n - k) m madt (entry_addr m e k) c' \<and> console_ready c'"
  using assms
proof (induction k arbitrary: n e c)
  case (Suc k)
  then obtain l where n: "n = Suc l" "k < l" by (cases n) auto
  have "skipped (m e)" "e \<le> madt + ucast (sdt_length m madt)" using Suc.prems(2,3) by (force dest: spec [of _ 0])+
  from madt_skip [OF this Suc.prems(4), of l] obtain c1 where
    1: "madt_loop n m madt e c = madt_loop l m madt (e + ucast (m (e + 1))) c1" "console_ready c1" unfolding n(1) by blast
  have "\<forall>j < k. skipped (m (entry_addr m (e + ucast (m (e + 1))) j))" using Suc.prems(2) by (auto dest: spec [of _ "Suc _"])
  moreover have "\<forall>j \<le> k. entry_addr m (e + ucast (m (e + 1))) j \<le> madt + ucast (sdt_length m madt)"
    using Suc.prems(3) by (auto dest: spec [of _ "Suc _"])
  ultimately obtain c' where "madt_loop l m madt (e + ucast (m (e + 1))) c1 = madt_loop (l - k) m madt (entry_addr m (e + ucast (m (e + 1))) k) c'"
      "console_ready c'"
    using Suc.IH [OF n(2) _ _ 1(2)] by blast
  then show ?case using 1(1) n(1) by auto
qed auto

section \<open>Properties\<close>

lemma vector_40: "((w AND 0xfffeff00) OR 0x40) AND 0xff = (0x40 :: u32)"
  by (simp add: bit.conj_disj_distrib2 and.assoc)

text \<open>
  The keyboard line of the I/O controller, for every device that keeps the index and window contract: after \<open>remap_ioredtbl\<close> the low word of entry 1 has
  vector 0x40 and is not masked, with delivery mode, polarity and trigger mode as before, the high word keeps only its destination, and no other register has changed.\<close>

theorem remap_ioredtbl_entry:
  assumes "indexed_device store load base index regs"
  shows "regs (remap_ioredtbl store load base s) =
      (regs s)(0x12 := (regs s 0x12 AND 0xfffeff00) OR 0x40, 0x13 := regs s 0x13 AND 0xff000000) \<and>
    regs (remap_ioredtbl store load base s) 0x12 AND 0xff = 0x40 \<and> \<not> bit (regs (remap_ioredtbl store load base s) 0x12) 16"
  by (simp add: indexed_device.remap_regs [OF assms] vector_40 bit_simps)

theorem remap_ioredtbl_entry_witness:
  "rf_regs (remap_ioredtbl (rf_store 0xfec00000) (rf_load 0xfec00000) 0xfec00000 \<lparr>rf_index = 0, rf_regs = (\<lambda>_. 0xffffffff)\<rparr>) 0x12 = 0xfffeff40"
  using remap_ioredtbl_entry [OF rf.indexed_device_axioms, of "0xfec00000" "\<lparr>rf_index = 0, rf_regs = (\<lambda>_. 0xffffffff)\<rparr>"] by simp

text \<open>
  \<open>local_apic_enable\<close> sets the software enable bit and the vector 0xf0 in the spurious interrupt register, keeps its bits from 9 on and touches no other byte.\<close>

theorem local_apic_enable_register:
  "load32 (local_apic_enable regs m) (regs + 0xf0) = (load32 m (regs + 0xf0) AND 0xffffff00) OR 0x1f0 \<and>
   (\<forall>a. 4 \<le> unat (a - (regs + 0xf0)) \<longrightarrow> local_apic_enable regs m a = m a)"
  by (simp add: local_apic_enable_def Let_def load32_store32 store32_other)

theorem local_apic_enable_register_witness:
  "load32 (local_apic_enable 0xfee00000 (\<lambda>_. 0)) 0xfee000f0 = 0x1f0 \<and> local_apic_enable 0xfee00000 (\<lambda>_. 0) 0xfee000b0 = 0"
  using local_apic_enable_register [of "0xfee00000" "\<lambda>_. 0"] by (simp add: load32_def load16_def)

text \<open>
  The address of the I/O controller. If the table with the signature \<open>APIC\<close> has, behind entries that the loop skips, an entry of type 1 within its length, and the step budget
  is larger than the number of skipped entries, then \<open>get_ioapic\<close> returns the 32-bit address of that entry with the next field, the first interrupt line, in the upper half, because
  the code reads eight bytes. So the result is the address of the controller exactly when its first line is 0.\<close>

theorem get_ioapic_first:
  assumes madt: "madt = get_acpi_table m a lit_APIC" "madt \<noteq> 0" "e = madt + sizeof_sdt_header + 8"
    and es: "k < n" "\<forall>j < k. skipped (m (entry_addr m e j))" "\<forall>j \<le> k. entry_addr m e j \<le> madt + ucast (sdt_length m madt)"
      "m (entry_addr m e k) = 1"
    and c: "console_ready c"
  shows "\<exists>r c'. get_ioapic n lit_APIC a m c = Inr (r, c') \<and>
    r = ucast (load32 m (entry_addr m e k + 4)) OR push_bit 32 (ucast (load32 m (entry_addr m e k + 8))) \<and>
    (r = ucast (load32 m (entry_addr m e k + 4)) \<longleftrightarrow> load32 m (entry_addr m e k + 8) = 0)"
proof -
  let ?ea = "entry_addr m e k"
  obtain c1 where 1: "madt_loop n m madt e c = madt_loop (n - k) m madt ?ea c1" "console_ready c1"
    using madt_walk [OF es(1-3) c] by blast
  obtain l where l: "n - k = Suc l" using es(1) by (metis Suc_diff_Suc)
  obtain c2 where "printf (map of_char ''apic: ioapic is at %lu'' @ [10]) [Arg_long (load64 m (?ea + 4))] c1 = Inr c2"
    using printf_returns [of c1 "map of_char ''apic: ioapic is at %lu'' @ [10]" "[Arg_long (load64 m (?ea + 4))]"] 1(2)
    by (auto simp: console_ready_def)
  then have "get_ioapic n lit_APIC a m c = Inr (load64 m (?ea + 4), c2)"
    using 1(1) l es(3,4) madt by (simp add: get_ioapic_def madt_type_def)
  moreover have "load64 m (?ea + 4) = ucast (load32 m (?ea + 4)) OR push_bit 32 (ucast (load32 m (?ea + 8)))"
    by (simp add: load64_def add.assoc)
  moreover have "(ucast x OR push_bit 32 (ucast y) :: u64) = ucast x \<longleftrightarrow> y = 0" for x y :: u32
  proof
    assume eq: "(ucast x OR push_bit 32 (ucast y) :: u64) = ucast x"
    have "\<not> bit y i" for i
    proof
      assume y: "bit y i"
      then have "i < 32" using bit_imp_le_length by fastforce
      then have "bit (ucast x OR push_bit 32 (ucast y) :: u64) (32 + i)" using y by (simp add: bit_simps)
      then show False unfolding eq using bit_imp_le_length [of x "32 + i"] by (simp add: bit_simps)
    qed
    then show "y = 0" by (intro bit_word_eqI) simp
  qed simp
  ultimately show ?thesis by auto
qed

definition madt_bytes :: mem where
  "madt_bytes = bytes_at 0x50000 [65, 80, 73, 67, 64, 0, 0, 0] (bytes_at 0x5002c [0, 8, 0, 0, 0, 0, 0, 0, 1, 12, 0, 0, 0, 0, 0xc0, 0xfe, 0, 0, 0, 0]
     (bytes_at 0x61000 [65, 80, 73, 67] (\<lambda>_. 0)))"

theorem get_ioapic_first_witness:
  "\<exists>r c'. get_ioapic 3 0x61000 (example_acpi\<lparr>acpi_tables := [0x50000]\<rparr>) madt_bytes blank_console = Inr (r, c') \<and> r = 0xfec00000"
proof -
  let ?a = "example_acpi\<lparr>acpi_tables := [0x50000]\<rparr>"
  have b: "madt_bytes 0x50000 = 65" "madt_bytes 0x50001 = 80" "madt_bytes 0x50002 = 73" "madt_bytes 0x50003 = 67"
      "madt_bytes 0x61000 = 65" "madt_bytes 0x61001 = 80" "madt_bytes 0x61002 = 73" "madt_bytes 0x61003 = 67"
    by (simp_all add: madt_bytes_def bytes_at_eq)
  have "madt_bytes (0x50000 + of_nat k) = madt_bytes (0x61000 + of_nat k)" if "k < 4" for k
  proof -
    consider "k = 0" | "k = 1" | "k = 2" | "k = 3" using \<open>k < 4\<close> by linarith
    then show ?thesis by cases (simp_all add: b)
  qed
  then have m: "0x50000 = get_acpi_table madt_bytes ?a 0x61000"
    by (simp add: get_acpi_table_def memcmp_iff)
  have l: "sdt_length madt_bytes 0x50000 = 64"
    by (simp add: sdt_length_def load32_def load16_def madt_bytes_def bytes_at_eq push_bit_eq_mult)
  have e: "entry_addr madt_bytes 0x5002c 0 = 0x5002c" "entry_addr madt_bytes 0x5002c (Suc 0) = 0x50034" "madt_bytes 0x5002c = 0" "madt_bytes 0x50034 = 1"
    by (simp_all add: madt_bytes_def bytes_at_eq)
  have f: "load32 madt_bytes 0x50038 = 0xfec00000" "load32 madt_bytes 0x5003c = 0"
    by (simp_all add: load32_def load16_def madt_bytes_def bytes_at_eq push_bit_eq_mult)
  have c: "console_ready blank_console" using blank_console_wf by (simp add: console_ready_def blank_console_def)
  have "entry_addr madt_bytes 0x5002c j \<le> 0x50000 + 64" if "j \<le> Suc 0" for j
    using that e(1,2) by (cases j) auto
  then show ?thesis
    using get_ioapic_first [OF m, of "0x5002c" "Suc 0" 3 blank_console] l e f c
    by (auto simp: sizeof_sdt_header_def skipped_def)
qed

text \<open>
  C39. A MADT with an entry of length zero in front of the I/O controller stops the kernel: with any budget of steps the loop that has reached such an entry comes back to it
  and never returns.\<close>

theorem madt_zero_length_never_ends:
  assumes "skipped (m e)" and "m (e + 1) = 0" and "e \<le> madt + ucast (sdt_length m madt)" and "console_ready c"
  shows "madt_loop n m madt e c = Inl Out_Of_Fuel"
  using assms(4)
proof (induction n arbitrary: c)
  case (Suc n)
  from madt_skip [OF assms(1,3) Suc.prems, of n] assms(2) obtain c' where
    "madt_loop (Suc n) m madt e c = madt_loop n m madt e c'" "console_ready c'" by auto
  with Suc.IH show ?case by simp
qed simp

theorem madt_zero_length_never_ends_witness: "madt_loop 1000 (\<lambda>_. 0) 0x50000 0x4000 blank_console = Inl Out_Of_Fuel"
  by (rule madt_zero_length_never_ends)
    (use blank_console_wf in \<open>simp_all add: skipped_def sdt_length_def load32_def load16_def console_ready_def blank_console_def\<close>)

end
