(* ===== verification/Kernel_init.thy ===== *)
theory Kernel_init
  imports Vmm
begin

text \<open>
  The entry of the kernel, kernel/kernel_init.S: 32-bit code that fills the first page tables, turns paging on and jumps to \<open>kernel_start\<close> in the
  upper half. The lemmas follow the processor's walk through the tables it leaves, over physical memory.
\<close>

section \<open>State\<close>

text \<open>The symbols of the linker script kernel.ld; addresses are physical.\<close>

record boot_syms =
  initial_pml4t_phys :: u32
  initial_pdpt_phys :: u32
  initial_pd_phys :: u32
  initial_pt_phys :: u32
  initial_pdpt2_phys :: u32
  initial_pd2_phys :: u32
  initial_pt2_phys :: u32
  initial_pt3_phys :: u32
  KERNEL_TEXT :: u32
  bss_end :: u32

definition KERNEL_PHYS :: u32 where "KERNEL_PHYS = 0x100000"

definition kernel_page_size :: "boot_syms \<Rightarrow> u32" where
  "kernel_page_size sy = (bss_end sy - KERNEL_PHYS) div 0x1000 + 1"

definition kernel_byte_size :: "boot_syms \<Rightarrow> u32" where
  "kernel_byte_size sy = kernel_page_size sy * 0x1000"

text \<open>The registers the code uses and the physical memory. The stack, to which registers are saved, is left out.\<close>

record boot_cpu =
  eax :: u32
  ebx :: u32
  ecx :: u32
  edx :: u32
  edi :: u32
  pm :: mem

section \<open>Filling the tables\<close>

definition map_page :: "boot_cpu \<Rightarrow> boot_cpu" where
  "map_page c = c\<lparr>pm := store32 (pm c) (ucast (edi c + push_bit 3 (edx c))) (eax c OR ebx c)\<rparr>"

fun add_pe_loop :: "nat \<Rightarrow> boot_cpu \<Rightarrow> boot_cpu" where
  "add_pe_loop 0 c = c"
| "add_pe_loop (Suc k) c = add_pe_loop k ((map_page c)\<lparr>ebx := ebx c + 0x1000, edx := edx c + 1\<rparr>)"

text \<open>The instruction \<open>loop\<close> counts \<open>ecx\<close> down before it tests it, so that 0 makes \<open>2 ^ 32\<close> turns. The registers are restored at the end.\<close>

definition add_pe_protected :: "boot_cpu \<Rightarrow> boot_cpu" where
  "add_pe_protected c =
     c\<lparr>pm := pm (add_pe_loop (if ecx c = 0 then 2 ^ 32 else unat (ecx c)) (c\<lparr>eax := 7\<rparr>))\<rparr>"

definition PAGE_MASK :: u32 where "PAGE_MASK = 0xfffff000"

definition check_mb2_info_mapped :: "boot_syms \<Rightarrow> boot_cpu \<Rightarrow> boot_cpu result" where
  "check_mb2_info_mapped sy c =
     (let page = ebx c AND PAGE_MASK
      in if bss_end sy AND PAGE_MASK = page then Inr c
         else let last_page = (load32 (pm c) (ucast (ebx c)) + ebx c) AND PAGE_MASK
              in if page \<noteq> last_page then Inl Hang
                 else Inr (c\<lparr>pm := pm (map_page (c\<lparr>edx := kernel_page_size sy, edi := initial_pt_phys sy, eax := 3, ebx := last_page\<rparr>))\<rparr>))"

text \<open>The upper half: the tables down to the lowest ones and the pages of the image, with one more behind it.\<close>

definition map_image :: "boot_syms \<Rightarrow> boot_cpu \<Rightarrow> boot_cpu" where
  "map_image sy c =
     (let c1 = map_page (c\<lparr>edx := 511, edi := initial_pml4t_phys sy, eax := 7, ebx := initial_pdpt_phys sy\<rparr>);
          c2 = map_page (c1\<lparr>edx := 0, edi := initial_pdpt_phys sy, ebx := initial_pd_phys sy\<rparr>);
          c3 = map_page (c2\<lparr>edi := initial_pd_phys sy, ebx := initial_pt_phys sy\<rparr>);
          c4 = map_page (c3\<lparr>edx := 1, ebx := initial_pt3_phys sy\<rparr>)
      in add_pe_protected (c4\<lparr>edx := 0, ebx := KERNEL_TEXT sy, edi := initial_pt_phys sy, ecx := kernel_page_size sy + 1\<rparr>))"

text \<open>Then the page of the information block, the first pages of the heap and of the frame bitmap, and the text buffer.\<close>

definition map_upper_half :: "boot_syms \<Rightarrow> u32 \<Rightarrow> boot_cpu \<Rightarrow> boot_cpu result" where
  "map_upper_half sy info c =
     bindE (check_mb2_info_mapped sy ((map_image sy c)\<lparr>ebx := info\<rparr>)) (\<lambda>c6.
       let c7 = map_page (c6\<lparr>edx := 0, ebx := kernel_byte_size sy + 0x1000, edi := initial_pt3_phys sy\<rparr>);
           c8 = map_page (c7\<lparr>edx := 0xe8, ebx := ebx c7 + 0x1000, edi := initial_pt_phys sy\<rparr>);
           c9 = map_page (c8\<lparr>edx := 0xc0, edi := initial_pt_phys sy, eax := 0x1b, ebx := 0xb8000\<rparr>)
       in Inr c9)"

text \<open>The lower half: the pages from the second one to the start of the image, where they are.\<close>

definition map_lower_half :: "boot_syms \<Rightarrow> boot_cpu \<Rightarrow> boot_cpu" where
  "map_lower_half sy c =
     (let c1 = map_page (c\<lparr>edx := 0, edi := initial_pml4t_phys sy, ebx := initial_pdpt2_phys sy\<rparr>);
          c2 = map_page (c1\<lparr>edi := initial_pdpt2_phys sy, ebx := initial_pd2_phys sy\<rparr>);
          c3 = map_page (c2\<lparr>edi := initial_pd2_phys sy, ebx := initial_pt2_phys sy\<rparr>)
      in add_pe_protected (c3\<lparr>ebx := 0x1000, edi := initial_pt2_phys sy + 8, ecx := 257\<rparr>))"

definition setup_pt :: "boot_syms \<Rightarrow> boot_cpu \<Rightarrow> boot_cpu result" where
  "setup_pt sy c = bindE (map_upper_half sy (ebx c) c) (\<lambda>c1. Inr (c\<lparr>pm := pm (map_lower_half sy c1)\<rparr>))"

text \<open>The address of the information block for \<open>kernel_start\<close>, in 64-bit code.\<close>

definition setup_64 :: "boot_syms \<Rightarrow> u32 \<Rightarrow> u64" where
  "setup_64 sy info = ucast info - ucast (KERNEL_TEXT sy) + KERNEL_TEXT_START"

text \<open>
  With the boot loader's pointer in \<open>ebx\<close>: the value of \<open>cr3\<close>, the argument of \<open>kernel_start\<close> and the memory.
\<close>

definition kernel_init :: "boot_syms \<Rightarrow> boot_cpu \<Rightarrow> (u64 \<times> u64 \<times> mem) result" where
  "kernel_init sy c =
     bindE (setup_pt sy c) (\<lambda>c1.
       Inr (ucast (initial_pml4t_phys sy), setup_64 sy (ebx c1), pm c1))"

section \<open>The walk of the processor\<close>

definition hw_entry :: "mem \<Rightarrow> u64 \<Rightarrow> nat \<Rightarrow> u64" where
  "hw_entry m t i = load64 m (t + of_nat (8 * i))"

definition hw_frame :: "u64 \<Rightarrow> u64" where
  "hw_frame w = w AND 0x000ffffffffff000"

text \<open>A present entry with bit 7 above the lowest level maps a large page.\<close>

primrec hw_walk :: "nat \<Rightarrow> mem \<Rightarrow> u64 \<Rightarrow> u64 \<Rightarrow> u64 option" where
  "hw_walk 0 m t a =
     (let w = hw_entry m t (get_index a 0) in if bit w 0 then Some (hw_frame w OR (a AND 0xfff)) else None)"
| "hw_walk (Suc l) m t a =
     (let w = hw_entry m t (get_index a (Suc l))
      in if \<not> bit w 0 then None
         else if bit w 7 then Some ((hw_frame w AND NOT (mask (9 * Suc l + 12))) OR (a AND mask (9 * Suc l + 12)))
         else hw_walk l m (hw_frame w) a)"

section \<open>Tables as functions\<close>

text \<open>
  What the tables hold, by table and index. The upper halves of the entries are never written, so that 32 bits are enough.
\<close>

definition boot_tables :: "boot_syms \<Rightarrow> u32 list" where
  "boot_tables sy = [initial_pml4t_phys sy, initial_pdpt_phys sy, initial_pd_phys sy, initial_pt_phys sy,
     initial_pdpt2_phys sy, initial_pd2_phys sy, initial_pt2_phys sy, initial_pt3_phys sy]"

definition tables_hold :: "u32 set \<Rightarrow> mem \<Rightarrow> (u32 \<Rightarrow> nat \<Rightarrow> u32) \<Rightarrow> bool" where
  "tables_hold ts m T \<longleftrightarrow> (\<forall>t \<in> ts. \<forall>i < 512. load64 m (ucast t + of_nat (8 * i)) = ucast (T t i))"

definition put_entry :: "u32 \<Rightarrow> nat \<Rightarrow> u32 \<Rightarrow> (u32 \<Rightarrow> nat \<Rightarrow> u32) \<Rightarrow> u32 \<Rightarrow> nat \<Rightarrow> u32" where
  "put_entry t i w T = T(t := (T t)(i := w))"

lemma unat_ucast_32: "unat (ucast t :: u64) = unat (t :: u32)"
  using unsigned_less [of t, where 'a = nat] by (simp add: unsigned_ucast_eq take_bit_nat_eq_self)

lemma load64_store32:
  assumes "load64 m a = ucast (v :: u32)"
  shows "load64 (store32 m a w) a = ucast w"
proof -
  have d: "drop_bit 32 (load64 m a) = ucast (load32 m (a + 4))"
    by (intro bit_word_eqI) (auto simp: load64_def bit_simps dest: bit_imp_le_length)
  have "drop_bit 32 (load64 m a) = 0" unfolding assms by (intro bit_word_eqI) (auto simp: bit_simps dest: bit_imp_le_length)
  then have "ucast (load32 m (a + 4)) = (0 :: u64)" using d by simp
  then have "load32 m (a + 4) = 0" using unat_ucast_32 [of "load32 m (a + 4)"] by (simp add: unat_eq_zero)
  moreover have "load32 (store32 m a w) (a + 4) = load32 m (a + 4)"
  proof (rule load32_cong)
    fix k :: nat
    assume k: "k < 4"
    have "unat (of_nat (4 + k) :: u64) = 4 + k" using k by (intro unat_of_nat_small) simp
    then have "unat (4 + of_nat k :: u64) = 4 + k" by simp
    then show "store32 m a w (a + 4 + of_nat k) = m (a + 4 + of_nat k)" by (intro store32_other) (simp add: algebra_simps)
  qed
  ultimately show ?thesis by (simp add: load64_def load32_store32)
qed

lemma unat_slot:
  fixes t :: u32
  assumes "i < 512"
  shows "unat (ucast t + of_nat (8 * i) :: u64) = unat t + 8 * i"
  using assms unsigned_less [of t, where 'a = nat] by (subst unat_plus_of_nat) (simp_all add: unat_ucast_32)

lemma slot_apart:
  fixes t u :: u32
  assumes t: "unat t mod 0x1000 = 0" "unat u mod 0x1000 = 0" and i: "i < 512" "j < 512" and ne: "(t, i) \<noteq> (u, j)" and k: "k < 8"
  shows "4 \<le> unat (ucast u + of_nat (8 * j) + of_nat k - (ucast t + of_nat (8 * i) :: u64))"
proof (rule unat_outside)
  obtain T U where T: "unat t = 0x1000 * T" "unat u = 0x1000 * U" using t by (metis mod_eq_0_iff_dvd dvdE)
  have b: "unat t < 2 ^ 32" "unat u < 2 ^ 32" using unsigned_less [of t, where 'a = nat] unsigned_less [of u, where 'a = nat] by simp_all
  have us: "unat (ucast u + of_nat (8 * j) + of_nat k :: u64) = unat u + 8 * j + k"
    using unat_slot [OF i(2), of u] b k i by (subst unat_plus_of_nat) simp_all
  have ut: "unat (ucast t + of_nat (8 * i) :: u64) = unat t + 8 * i" by (rule unat_slot [OF i(1)])
  show "unat (ucast t + of_nat (8 * i) :: u64) + 4 \<le> 2 ^ 64" unfolding ut using b i by simp
  have "512 * T + i \<noteq> 512 * U + j"
  proof
    assume eq: "512 * T + i = 512 * U + j"
    then have "(512 * T + i) div 512 = (512 * U + j) div 512" by simp
    then have "T = U" using i by simp
    with eq T ne show False by (simp add: word_unat_eq_iff)
  qed
  then show "unat (ucast u + of_nat (8 * j) + of_nat k :: u64) < unat (ucast t + of_nat (8 * i) :: u64) \<or>
      unat (ucast t + of_nat (8 * i) :: u64) + 4 \<le> unat (ucast u + of_nat (8 * j) + of_nat k :: u64)"
    unfolding us ut using T k by linarith
qed

lemma aligned_bound:
  fixes t :: u32
  assumes "unat t mod 0x1000 = 0"
  shows "unat t + 0x1000 \<le> 2 ^ 32"
proof -
  obtain n where n: "unat t = 0x1000 * n" using assms by (metis mod_eq_0_iff_dvd dvdE)
  then have "n < 2 ^ 20" using unsigned_less [of t, where 'a = nat] by simp
  then show ?thesis unfolding n by simp
qed

section \<open>What the code leaves in the tables\<close>

definition page_aligned :: "u32 set \<Rightarrow> bool" where
  "page_aligned ts \<longleftrightarrow> (\<forall>t \<in> ts. unat t mod 0x1000 = 0)"

text \<open>The tables hold \<open>T\<close>, and the rest of the memory is that of \<open>m0\<close>.\<close>

definition outside :: "u32 set \<Rightarrow> u64 \<Rightarrow> bool" where
  "outside ts b \<longleftrightarrow> (\<forall>t \<in> ts. unat b div 0x1000 \<noteq> unat t div 0x1000)"

definition written :: "u32 set \<Rightarrow> mem \<Rightarrow> mem \<Rightarrow> (u32 \<Rightarrow> nat \<Rightarrow> u32) \<Rightarrow> bool" where
  "written ts m0 m T \<longleftrightarrow> tables_hold ts m T \<and> (\<forall>b. outside ts b \<longrightarrow> m b = m0 b)"

lemma store_entry_holds:
  assumes hold: "written ts m0 m T" and al: "page_aligned ts" and t: "t \<in> ts" and i: "i < 512"
  shows "written ts m0 (store32 m (ucast t + of_nat (8 * i)) w) (put_entry t i w T)"
proof -
  let ?a = "ucast t + of_nat (8 * i) :: u64"
  have "load64 (store32 m ?a w) (ucast u + of_nat (8 * j)) = ucast (put_entry t i w T u j)" if u: "u \<in> ts" and j: "j < 512" for u j
  proof (cases "(t, i) = (u, j)")
    case True
    then show ?thesis using load64_store32 [of m ?a "T t i" w] hold t i by (simp add: written_def tables_hold_def put_entry_def)
  next
    case False
    let ?b = "ucast u + of_nat (8 * j) :: u64"
    have "load64 (store32 m ?a w) ?b = load64 m ?b"
    proof (rule load64_cong)
      fix k :: nat
      assume "k < 8"
      then show "store32 m ?a w (?b + of_nat k) = m (?b + of_nat k)"
        using al t u i j False by (intro store32_other slot_apart) (simp_all add: page_aligned_def)
    qed
    then show ?thesis using hold u j False by (auto simp: written_def tables_hold_def put_entry_def)
  qed
  moreover have "store32 m ?a w b = m b" if b: "unat b div 0x1000 \<noteq> unat t div 0x1000" for b
  proof (intro store32_other unat_outside)
    have a: "unat ?a = unat t + 8 * i" by (rule unat_slot [OF i])
    have "unat t mod 0x1000 = 0" using al t by (simp add: page_aligned_def)
    then obtain n where n: "unat t = 0x1000 * n" by (metis mod_eq_0_iff_dvd dvdE)
    show "unat ?a + 4 \<le> 2 ^ 64" unfolding a using unsigned_less [of t, where 'a = nat] i by simp
    show "unat b < unat ?a \<or> unat ?a + 4 \<le> unat b"
      using b i n div_nat_eqI [of "0x1000" n "unat b"] unfolding a n by fastforce
  qed
  ultimately show ?thesis using hold t by (simp add: written_def tables_hold_def outside_def)
qed

text \<open>A call of \<open>_map_page\<close> whose registers name the entry \<open>i\<close> of the table \<open>t\<close>.\<close>

definition names_entry :: "boot_cpu \<Rightarrow> u32 \<Rightarrow> nat \<Rightarrow> bool" where
  "names_entry c t i \<longleftrightarrow> unat (edi c) + 8 * unat (edx c) = unat t + 8 * i"

lemma map_page_holds:
  assumes hold: "written ts m0 (pm c) T" and al: "page_aligned ts" and t: "t \<in> ts" and i: "i < 512" and n: "names_entry c t i"
  shows "written ts m0 (pm (map_page c)) (put_entry t i (eax c OR ebx c) T)"
proof -
  have b: "unat t + 8 * i < 2 ^ 32" using aligned_bound [of t] al t i by (simp add: page_aligned_def)
  have "unat (push_bit 3 (edx c)) = 8 * unat (edx c)"
    using n b by (simp add: names_entry_def push_bit_eq_mult unat_word_ariths)
  then have u: "unat (edi c + push_bit 3 (edx c)) = unat t + 8 * i"
    using n b by (simp add: names_entry_def unat_word_ariths)
  have "ucast (edi c + push_bit 3 (edx c)) = (ucast t + of_nat (8 * i) :: u64)"
  proof (rule unsigned_word_eqI)
    show "unat (ucast (edi c + push_bit 3 (edx c)) :: u64) = unat (ucast t + of_nat (8 * i) :: u64)"
      using unat_slot [of 0 "edi c + push_bit 3 (edx c)"] unat_slot [OF i, of t] u by simp
  qed
  then show ?thesis using store_entry_holds [OF hold al t i] by (simp add: map_page_def)
qed

definition fill_entries :: "u32 \<Rightarrow> nat \<Rightarrow> nat \<Rightarrow> u32 \<Rightarrow> (u32 \<Rightarrow> nat \<Rightarrow> u32) \<Rightarrow> u32 \<Rightarrow> nat \<Rightarrow> u32" where
  "fill_entries t i n b T = T(t := (\<lambda>j. if i \<le> j \<and> j < i + n then 7 OR (b + of_nat ((j - i) * 0x1000)) else T t j))"

lemma add_pe_loop_holds:
  assumes al: "page_aligned ts" and t: "t \<in> ts"
  shows "written ts m0 (pm c) T \<Longrightarrow> i + n \<le> 512 \<Longrightarrow> names_entry c t i \<Longrightarrow> eax c = 7 \<Longrightarrow>
    written ts m0 (pm (add_pe_loop n c)) (fill_entries t i n (ebx c) T)"
proof (induction n arbitrary: c T i)
  case 0
  have "fill_entries t i 0 (ebx c) T = T" by (auto simp: fill_entries_def fun_eq_iff)
  with 0 show ?case by simp
next
  case (Suc n)
  let ?c = "(map_page c)\<lparr>ebx := ebx c + 0x1000, edx := edx c + 1\<rparr>" and ?T = "put_entry t i (7 OR ebx c) T"
  have b: "unat t + 8 * i < 2 ^ 32" using aligned_bound [of t] al t Suc.prems(2) by (simp add: page_aligned_def)
  have "unat (edx c + 1) = unat (edx c) + 1" using Suc.prems(3) b by (simp add: names_entry_def unat_word_ariths)
  then have "names_entry ?c t (Suc i)" using Suc.prems(3) by (simp add: names_entry_def map_page_def)
  moreover have "written ts m0 (pm ?c) ?T"
    using map_page_holds [OF Suc.prems(1) al t _ Suc.prems(3)] Suc.prems(2,4) by simp
  ultimately have "written ts m0 (pm (add_pe_loop n ?c)) (fill_entries t (Suc i) n (ebx ?c) ?T)"
    using Suc.prems(2,4) by (intro Suc.IH) (simp_all add: map_page_def)
  moreover have "fill_entries t (Suc i) n (ebx ?c) ?T = fill_entries t i (Suc n) (ebx c) T"
  proof -
    have "7 OR (ebx c + 0x1000 + of_nat ((j - Suc i) * 0x1000)) = 7 OR (ebx c + of_nat ((j - i) * 0x1000))" if "Suc i \<le> j" for j
      using that by (simp add: Suc_diff_le [symmetric] algebra_simps)
    then show ?thesis by (auto simp: fill_entries_def put_entry_def fun_eq_iff map_page_def)
  qed
  ultimately show ?case by simp
qed

section \<open>The contents after the start\<close>

text \<open>What the linker script and the size of the image have to give: page-aligned, different tables inside the image, which ends in front of the text buffer's page.\<close>

definition layout_ok :: "boot_syms \<Rightarrow> bool" where
  "layout_ok sy \<longleftrightarrow> distinct (boot_tables sy) \<and> page_aligned (set (boot_tables sy)) \<and> unat (KERNEL_TEXT sy) mod 0x1000 = 0 \<and>
     KERNEL_PHYS \<le> KERNEL_TEXT sy \<and> KERNEL_TEXT sy \<le> bss_end sy \<and> unat (kernel_page_size sy) < 0xc0 \<and>
     (\<forall>t \<in> set (boot_tables sy). KERNEL_TEXT sy \<le> t \<and> t < bss_end sy)"

definition image_entries :: "boot_syms \<Rightarrow> (u32 \<Rightarrow> nat \<Rightarrow> u32) \<Rightarrow> u32 \<Rightarrow> nat \<Rightarrow> u32" where
  "image_entries sy T =
     (let T1 = put_entry (initial_pml4t_phys sy) 511 (7 OR initial_pdpt_phys sy) T;
          T2 = put_entry (initial_pdpt_phys sy) 0 (7 OR initial_pd_phys sy) T1;
          T3 = put_entry (initial_pd_phys sy) 0 (7 OR initial_pt_phys sy) T2;
          T4 = put_entry (initial_pd_phys sy) 1 (7 OR initial_pt3_phys sy) T3
      in fill_entries (initial_pt_phys sy) 0 (Suc (unat (kernel_page_size sy))) (KERNEL_TEXT sy) T4)"

text \<open>\<open>remap\<close> is the page of the information block, when it is entered on its own.\<close>

definition upper_entries :: "boot_syms \<Rightarrow> u32 option \<Rightarrow> (u32 \<Rightarrow> nat \<Rightarrow> u32) \<Rightarrow> u32 \<Rightarrow> nat \<Rightarrow> u32" where
  "upper_entries sy remap T =
     (let T5 = image_entries sy T;
          T6 = (case remap of None \<Rightarrow> T5 | Some w \<Rightarrow> put_entry (initial_pt_phys sy) (unat (kernel_page_size sy)) (3 OR w) T5);
          T7 = put_entry (initial_pt3_phys sy) 0 (7 OR (kernel_byte_size sy + 0x1000)) T6;
          T8 = put_entry (initial_pt_phys sy) 0xe8 (7 OR (kernel_byte_size sy + 0x2000)) T7
      in put_entry (initial_pt_phys sy) 0xc0 (0x1b OR 0xb8000) T8)"

definition lower_entries :: "boot_syms \<Rightarrow> (u32 \<Rightarrow> nat \<Rightarrow> u32) \<Rightarrow> u32 \<Rightarrow> nat \<Rightarrow> u32" where
  "lower_entries sy T =
     (let T1 = put_entry (initial_pml4t_phys sy) 0 (0x1b OR initial_pdpt2_phys sy) T;
          T2 = put_entry (initial_pdpt2_phys sy) 0 (0x1b OR initial_pd2_phys sy) T1;
          T3 = put_entry (initial_pd2_phys sy) 0 (0x1b OR initial_pt2_phys sy) T2
      in fill_entries (initial_pt2_phys sy) 1 257 0x1000 T3)"

lemma map_page_simps [simp]:
  "eax (map_page c) = eax c" "ebx (map_page c) = ebx c" "ecx (map_page c) = ecx c" "edx (map_page c) = edx c" "edi (map_page c) = edi c"
  "map_page c\<lparr>pm := m\<rparr> = c\<lparr>pm := m\<rparr>"
  by (simp_all add: map_page_def)

lemma boot_tables_in:
  "initial_pml4t_phys sy \<in> set (boot_tables sy)" "initial_pdpt_phys sy \<in> set (boot_tables sy)" "initial_pd_phys sy \<in> set (boot_tables sy)"
  "initial_pt_phys sy \<in> set (boot_tables sy)" "initial_pdpt2_phys sy \<in> set (boot_tables sy)" "initial_pd2_phys sy \<in> set (boot_tables sy)"
  "initial_pt2_phys sy \<in> set (boot_tables sy)" "initial_pt3_phys sy \<in> set (boot_tables sy)"
  by (simp_all add: boot_tables_def)

lemma add_pe_protected_simps [simp]:
  "eax (add_pe_protected c) = eax c" "ebx (add_pe_protected c) = ebx c" "edx (add_pe_protected c) = edx c" "edi (add_pe_protected c) = edi c"
  by (simp_all add: add_pe_protected_def)

lemma add_pe_protected_holds:
  assumes "page_aligned ts" and "t \<in> ts" and "written ts m0 (pm c) T" and "i + unat (ecx c) \<le> 512" and "names_entry c t i" and "ecx c \<noteq> 0"
  shows "written ts m0 (pm (add_pe_protected c)) (fill_entries t i (unat (ecx c)) (ebx c) T)"
  using add_pe_loop_holds [OF assms(1,2), of m0 "c\<lparr>eax := 7\<rparr>" T i "unat (ecx c)"] assms(3-6)
  by (simp add: add_pe_protected_def names_entry_def)

lemma check_mb2_holds:
  assumes l: "layout_ok sy" and hold: "written (set (boot_tables sy)) m0 (pm c) T" and r: "check_mb2_info_mapped sy c = Inr c'"
  shows "written (set (boot_tables sy)) m0 (pm c')
      (if bss_end sy AND PAGE_MASK = ebx c AND PAGE_MASK then T
       else put_entry (initial_pt_phys sy) (unat (kernel_page_size sy)) (3 OR (ebx c AND PAGE_MASK)) T)"
    and "c' = c\<lparr>pm := pm c'\<rparr>"
proof -
  let ?c = "c\<lparr>edx := kernel_page_size sy, edi := initial_pt_phys sy, eax := 3, ebx := ebx c AND PAGE_MASK\<rparr>"
  have "written (set (boot_tables sy)) m0 (pm (map_page ?c))
      (put_entry (initial_pt_phys sy) (unat (kernel_page_size sy)) (eax ?c OR ebx ?c) T)"
    by (rule map_page_holds) (use l hold in \<open>simp_all add: layout_ok_def boot_tables_in names_entry_def\<close>)
  with r hold show "written (set (boot_tables sy)) m0 (pm c')
      (if bss_end sy AND PAGE_MASK = ebx c AND PAGE_MASK then T
       else put_entry (initial_pt_phys sy) (unat (kernel_page_size sy)) (3 OR (ebx c AND PAGE_MASK)) T)"
    by (auto simp: check_mb2_info_mapped_def Let_def split: if_splits)
  show "c' = c\<lparr>pm := pm c'\<rparr>" using r by (auto simp: check_mb2_info_mapped_def Let_def split: if_splits)
qed

text \<open>The page that is remapped, if any.\<close>

definition info_remap :: "boot_syms \<Rightarrow> u32 \<Rightarrow> u32 option" where
  "info_remap sy info = (if bss_end sy AND PAGE_MASK = info AND PAGE_MASK then None else Some (info AND PAGE_MASK))"

text \<open>The instructions between two calls change registers only, so the contents are followed from call to call.\<close>

definition contents :: "boot_syms \<Rightarrow> mem \<Rightarrow> boot_cpu \<Rightarrow> (u32 \<Rightarrow> nat \<Rightarrow> u32) \<Rightarrow> bool" where
  "contents sy m0 c T \<longleftrightarrow> written (set (boot_tables sy)) m0 (pm c) T"

lemma contents_regs:
  "contents sy m0 c T \<Longrightarrow> contents sy m0 (c\<lparr>eax := x\<rparr>) T" "contents sy m0 c T \<Longrightarrow> contents sy m0 (c\<lparr>ebx := x\<rparr>) T"
  "contents sy m0 c T \<Longrightarrow> contents sy m0 (c\<lparr>ecx := x\<rparr>) T" "contents sy m0 c T \<Longrightarrow> contents sy m0 (c\<lparr>edx := x\<rparr>) T"
  "contents sy m0 c T \<Longrightarrow> contents sy m0 (c\<lparr>edi := x\<rparr>) T"
  by (simp_all add: contents_def)

lemma contents_map_page:
  assumes "contents sy m0 c T" and "layout_ok sy" and "edi c = t" and "unat (edx c) = i" and "i < 512" and "eax c OR ebx c = w" and "t \<in> set (boot_tables sy)"
  shows "contents sy m0 (map_page c) (put_entry t i w T)"
  using map_page_holds [of _ m0 c T t i] assms by (auto simp: contents_def layout_ok_def names_entry_def)

lemma contents_add_pe:
  assumes "contents sy m0 c T" and "layout_ok sy" and "names_entry c t i" and "unat (ecx c) = Suc k" and "i + Suc k \<le> 512" and "ebx c = b"
    and "t \<in> set (boot_tables sy)"
  shows "contents sy m0 (add_pe_protected c) (fill_entries t i (Suc k) b T)"
proof -
  have "ecx c \<noteq> 0" using assms(4) by auto
  then show ?thesis using add_pe_protected_holds [of "set (boot_tables sy)" t m0 c T i] assms by (simp add: contents_def layout_ok_def)
qed

lemmas contents_steps = contents_map_page contents_add_pe contents_regs

lemma kernel_pages: "layout_ok sy \<Longrightarrow> unat (kernel_page_size sy + 1) = Suc (unat (kernel_page_size sy)) \<and> unat (kernel_page_size sy) < 0xc0"
  by (auto simp: layout_ok_def unat_word_ariths)

lemma map_image_holds:
  assumes l: "layout_ok sy" and c: "contents sy m0 c T"
  shows "contents sy m0 (map_image sy c) (image_entries sy T)" and "eax (map_image sy c) = 7"
  unfolding map_image_def image_entries_def Let_def
  by (intro contents_steps c l) (use kernel_pages [OF l] in \<open>simp_all add: boot_tables_in names_entry_def\<close>)

lemma map_upper_half_holds:
  assumes l: "layout_ok sy" and c: "contents sy m0 c T" and r: "map_upper_half sy info c = Inr c'"
  shows "contents sy m0 c' (upper_entries sy (info_remap sy info) T) \<and> eax c' = 0x1b"
proof -
  let ?T5 = "image_entries sy T"
  note 5 = map_image_holds [OF l c]
  obtain c6 where 6: "check_mb2_info_mapped sy ((map_image sy c)\<lparr>ebx := info\<rparr>) = Inr c6"
      "c' = map_page ((map_page ((map_page (c6\<lparr>edx := 0, ebx := kernel_byte_size sy + 0x1000, edi := initial_pt3_phys sy\<rparr>))
        \<lparr>edx := 0xe8, ebx := kernel_byte_size sy + 0x1000 + 0x1000, edi := initial_pt_phys sy\<rparr>))
        \<lparr>edx := 0xc0, edi := initial_pt_phys sy, eax := 0x1b, ebx := 0xb8000\<rparr>)"
    using r by (auto simp: map_upper_half_def Let_def bindE_eq_Inr)
  let ?T6 = "case info_remap sy info of None \<Rightarrow> ?T5 | Some w \<Rightarrow> put_entry (initial_pt_phys sy) (unat (kernel_page_size sy)) (3 OR w) ?T5"
  have t6: "contents sy m0 c6 ?T6" "eax c6 = 7"
    using check_mb2_holds [OF l _ 6(1), of m0 ?T5] 5 by (auto simp: contents_def info_remap_def dest: arg_cong [of _ _ eax])
  have "contents sy m0 c' (put_entry (initial_pt_phys sy) 0xc0 (0x1b OR 0xb8000) (put_entry (initial_pt_phys sy) 0xe8
      (7 OR (kernel_byte_size sy + 0x2000)) (put_entry (initial_pt3_phys sy) 0 (7 OR (kernel_byte_size sy + 0x1000)) ?T6)))"
    unfolding 6(2) by (intro contents_steps t6 l) (use t6(2) in \<open>simp_all add: boot_tables_in add.commute [of "kernel_byte_size sy"]\<close>)
  moreover have "eax c' = 0x1b" unfolding 6(2) by simp
  ultimately show ?thesis unfolding upper_entries_def Let_def by (rule conjI)
qed

lemma map_lower_half_holds:
  assumes l: "layout_ok sy" and c: "contents sy m0 c T" and a: "eax c = 0x1b"
  shows "contents sy m0 (map_lower_half sy c) (lower_entries sy T)"
proof -
  have k: "257 = Suc (256 :: nat)" by simp
  have u: "unat (initial_pt2_phys sy + 8) = unat (initial_pt2_phys sy) + 8"
    using aligned_bound [of "initial_pt2_phys sy"] l by (simp add: layout_ok_def page_aligned_def boot_tables_in unat_word_ariths)
  show ?thesis
    unfolding map_lower_half_def lower_entries_def Let_def k
    by (intro contents_steps c l) (use a u in \<open>simp_all add: boot_tables_in names_entry_def\<close>)
qed

definition boot_entries :: "boot_syms \<Rightarrow> u32 \<Rightarrow> u32 \<Rightarrow> nat \<Rightarrow> u32" where
  "boot_entries sy info = lower_entries sy (upper_entries sy (info_remap sy info) (\<lambda>_ _. 0))"

text \<open>The loader clears the section of the tables.\<close>

lemma kernel_init_contents:
  assumes l: "layout_ok sy" and z: "tables_hold (set (boot_tables sy)) (pm c) (\<lambda>_ _. 0)" and r: "kernel_init sy c = Inr (root, info, m)"
  shows "contents sy (pm c) (c\<lparr>pm := m\<rparr>) (boot_entries sy (ebx c))"
    and "root = ucast (initial_pml4t_phys sy)" and "info = setup_64 sy (ebx c)"
proof -
  obtain c1 where 1: "map_upper_half sy (ebx c) c = Inr c1" "m = pm (map_lower_half sy c1)"
      and 2: "root = ucast (initial_pml4t_phys sy)" "info = setup_64 sy (ebx c)"
    using r by (auto simp: kernel_init_def setup_pt_def bindE_eq_Inr)
  have "contents sy (pm c) c (\<lambda>_ _. 0)" using z by (simp add: contents_def written_def)
  from map_upper_half_holds [OF l this 1(1)] map_lower_half_holds [OF l, of "pm c" c1]
  show "contents sy (pm c) (c\<lparr>pm := m\<rparr>) (boot_entries sy (ebx c))"
    by (simp add: contents_def boot_entries_def 1(2))
  show "root = ucast (initial_pml4t_phys sy)" "info = setup_64 sy (ebx c)" by (fact 2)+
qed

section \<open>The walk through these tables\<close>

lemma aligned_bits:
  fixes t :: u32
  assumes "unat t mod 0x1000 = 0" and "i < 12"
  shows "\<not> bit t i"
proof -
  have "take_bit 12 (unat t) = 0" using assms(1) by (simp add: take_bit_eq_mod)
  then have "\<not> bit (take_bit 12 (unat t)) i" by simp
  then show ?thesis using assms(2) by (simp add: bit_take_bit_iff bit_unsigned_iff bit_imp_le_length)
qed

definition boot_flags :: "u32 set" where "boot_flags = {3, 7, 0x1b}"

lemma boot_flags_bits: "f \<in> boot_flags \<Longrightarrow> bit f 0 \<and> \<not> bit f 7 \<and> (\<forall>i \<ge> 12. \<not> bit f i)"
proof -
  assume f: "f \<in> boot_flags"
  have "\<not> bit f i" if "12 \<le> i" for i
  proof -
    have "take_bit 12 f = f" using f by (auto simp: boot_flags_def)
    then show ?thesis using that by (metis bit_take_bit_iff not_le)
  qed
  moreover have "bit f 0" "\<not> bit f 7" using f by (auto simp: boot_flags_def bit_0 bit_iff_odd_drop_bit)
  ultimately show ?thesis by blast
qed

lemma entry_decode:
  assumes t: "unat t mod 0x1000 = 0" and f: "f \<in> boot_flags"
  shows "bit (ucast (f OR t) :: u64) 0" and "\<not> bit (ucast (f OR t) :: u64) 7" and "hw_frame (ucast (f OR t)) = ucast t"
proof -
  note b = boot_flags_bits [OF f] aligned_bits [OF t]
  show "bit (ucast (f OR t) :: u64) 0" "\<not> bit (ucast (f OR t) :: u64) 7" using b by (simp_all add: bit_simps)
  have m: "bit (0x000ffffffffff000 :: u64) i \<longleftrightarrow> 12 \<le> i \<and> i < 52" for i
  proof -
    have "(0x000ffffffffff000 :: u64) = push_bit 12 (mask 40)" by (simp add: mask_eq_exp_minus_1 push_bit_eq_mult)
    then show ?thesis by (simp only: bit_push_bit_iff bit_mask_iff) auto
  qed
  show "hw_frame (ucast (f OR t)) = ucast t"
  proof (rule bit_word_eqI)
    fix i
    show "bit (hw_frame (ucast (f OR t))) i = bit (ucast t :: u64) i"
      unfolding hw_frame_def bit_and_iff m using b(1) b(2) [of i] bit_imp_le_length [of t i] by (cases "i < 12") (auto simp: bit_or_iff bit_ucast_iff)
  qed
qed

lemma get_index_div: "get_index a l = unat a div 2 ^ (9 * l + 12) mod 512"
proof -
  have "(0x1ff :: u64) = mask 9" by (simp add: mask_eq_exp_minus_1)
  then have "get_index a l = unat (take_bit 9 (drop_bit (9 * l + 12) a))" by (simp add: get_index_def take_bit_eq_mask)
  moreover have "take_bit 64 (unat a) = unat a" using unsigned_less [of a, where 'a = nat] by (simp add: take_bit_nat_eq_self)
  ultimately show ?thesis by (simp only: unsigned_take_bit_eq unsigned_drop_bit_eq) (simp add: take_bit_eq_mod drop_bit_eq_div)
qed

lemma get_index_less: "get_index a l < 512"
  by (simp add: get_index_div)

lemma walk_step:
  assumes h: "tables_hold ts m T" and "t \<in> ts" and i: "T t (get_index a l) = f OR u" and "f \<in> boot_flags" and "unat u mod 0x1000 = 0" and "0 < l"
  shows "hw_walk l m (ucast t) a = hw_walk (l - 1) m (ucast u) a"
  using assms entry_decode [of u f] get_index_less [of a l] by (cases l) (simp_all add: tables_hold_def hw_entry_def)

lemma walk_end:
  assumes h: "tables_hold ts m T" and "t \<in> ts" and i: "T t (get_index a 0) = f OR u" and "f \<in> boot_flags" and u: "unat u mod 0x1000 = 0"
  shows "hw_walk 0 m (ucast t) a = Some (ucast u + (a AND 0xfff))"
proof -
  have "get_index a 0 < 512" by (rule get_index_less)
  then have "hw_walk 0 m (ucast t) a = Some (ucast u OR (a AND 0xfff))"
    using assms entry_decode [of u f] by (simp add: tables_hold_def hw_entry_def)
  moreover have "(ucast u :: u64) AND (a AND 0xfff) = 0"
  proof -
    have "bit (0xfff :: u64) i \<longleftrightarrow> i < 12" for i
    proof -
      have "(0xfff :: u64) = mask 12" by (simp add: mask_eq_exp_minus_1)
      then show ?thesis by (simp only: bit_mask_iff) auto
    qed
    then show ?thesis using aligned_bits [OF u] by (intro bit_word_eqI) (auto simp: bit_and_iff bit_ucast_iff)
  qed
  ultimately show ?thesis using word_plus_and_or [of "ucast u :: u64" "a AND 0xfff"] by simp
qed

lemma walk_absent:
  assumes "tables_hold ts m T" and "t \<in> ts" and "T t (get_index a l) = 0"
  shows "hw_walk l m (ucast t) a = None"
  using assms get_index_less [of a l] by (cases l) (simp_all add: tables_hold_def hw_entry_def)

text \<open>The number of a page, without the bits a walk does not read.\<close>

definition page_number :: "u64 \<Rightarrow> nat" where
  "page_number a = unat a div 0x1000 mod 2 ^ 36"

lemma page_number_indices:
  "page_number a = get_index a 3 * 2 ^ 27 + get_index a 2 * 2 ^ 18 + get_index a 1 * 2 ^ 9 + get_index a 0"
proof -
  have m: "p mod (512 * n) = 512 * (p div 512 mod n) + p mod 512" for p n :: nat by (rule mod_mult2_eq)
  have "unat a div 2 ^ 12 mod (512 * (512 * (512 * 512))) =
      (unat a div 2 ^ 39 mod 512) * 2 ^ 27 + (unat a div 2 ^ 30 mod 512) * 2 ^ 18 + (unat a div 2 ^ 21 mod 512) * 2 ^ 9 + unat a div 2 ^ 12 mod 512"
    unfolding m by (simp add: div_mult2_eq [symmetric])
  then show ?thesis by (simp add: page_number_def get_index_div)
qed

text \<open>The physical page the tables should give to a page number: the low megabyte, the image, and the pages of the buffer, the bitmap and the heap.\<close>

definition boot_frame :: "boot_syms \<Rightarrow> u32 \<Rightarrow> nat \<Rightarrow> u32 option" where
  "boot_frame sy info p =
     (let text_page = page_number KERNEL_TEXT_START; n = unat (kernel_page_size sy)
      in if 1 \<le> p \<and> p \<le> 257 then Some (of_nat (0x1000 * p))
         else if text_page \<le> p \<and> p < text_page + n then Some (KERNEL_TEXT sy + of_nat (0x1000 * (p - text_page)))
         else if p = text_page + n then Some (case info_remap sy info of None \<Rightarrow> KERNEL_TEXT sy + of_nat (0x1000 * n) | Some w \<Rightarrow> w)
         else if p = page_number VGA_TEXT_BUFFER_BASE then Some 0xb8000
         else if p = page_number KERNEL_PMM_START then Some (kernel_byte_size sy + 0x2000)
         else if p = page_number KERNEL_HEAP_START then Some (kernel_byte_size sy + 0x1000)
         else None)"

definition boot_map :: "boot_syms \<Rightarrow> u32 \<Rightarrow> u64 \<Rightarrow> u64 option" where
  "boot_map sy info a = map_option (\<lambda>f. ucast f + (a AND 0xfff)) (boot_frame sy info (page_number a))"

lemma put_entry_apply: "put_entry t i w T u j = (if u = t \<and> j = i then w else T u j)"
  by (simp add: put_entry_def)

lemma fill_entries_apply:
  "fill_entries t i n b T u j = (if u = t \<and> i \<le> j \<and> j < i + n then 7 OR (b + of_nat ((j - i) * 0x1000)) else T u j)"
  by (simp add: fill_entries_def)

lemma boot_entries_values:
  assumes l: "layout_ok sy"
  shows "boot_entries sy info (initial_pml4t_phys sy) i = (if i = 0 then 0x1b OR initial_pdpt2_phys sy else if i = 511 then 7 OR initial_pdpt_phys sy else 0)"
    and "boot_entries sy info (initial_pdpt_phys sy) i = (if i = 0 then 7 OR initial_pd_phys sy else 0)"
    and "boot_entries sy info (initial_pd_phys sy) i = (if i = 0 then 7 OR initial_pt_phys sy else if i = 1 then 7 OR initial_pt3_phys sy else 0)"
    and "boot_entries sy info (initial_pdpt2_phys sy) i = (if i = 0 then 0x1b OR initial_pd2_phys sy else 0)"
    and "boot_entries sy info (initial_pd2_phys sy) i = (if i = 0 then 0x1b OR initial_pt2_phys sy else 0)"
    and "boot_entries sy info (initial_pt3_phys sy) i = (if i = 0 then 7 OR (kernel_byte_size sy + 0x1000) else 0)"
    and "boot_entries sy info (initial_pt2_phys sy) i = (if 1 \<le> i \<and> i \<le> 257 then 7 OR of_nat (0x1000 * i) else 0)"
    and "boot_entries sy info (initial_pt_phys sy) i =
      (if i < unat (kernel_page_size sy) then 7 OR (KERNEL_TEXT sy + of_nat (0x1000 * i))
       else if i = unat (kernel_page_size sy) then
         (case info_remap sy info of None \<Rightarrow> 7 OR (KERNEL_TEXT sy + of_nat (0x1000 * i)) | Some w \<Rightarrow> 3 OR w)
       else if i = 0xc0 then 0x1b OR 0xb8000 else if i = 0xe8 then 7 OR (kernel_byte_size sy + 0x2000) else 0)"
proof -
  have d: "distinct (boot_tables sy)" and n: "unat (kernel_page_size sy) < 0xc0" using l by (simp_all add: layout_ok_def)
  have r: "distinct [initial_pt3_phys sy, initial_pt2_phys sy, initial_pd2_phys sy, initial_pdpt2_phys sy,
      initial_pt_phys sy, initial_pd_phys sy, initial_pdpt_phys sy, initial_pml4t_phys sy]"
    using d by (auto simp: boot_tables_def)
  note defs = boot_entries_def lower_entries_def upper_entries_def image_entries_def Let_def put_entry_apply fill_entries_apply
  show "boot_entries sy info (initial_pml4t_phys sy) i = (if i = 0 then 0x1b OR initial_pdpt2_phys sy else if i = 511 then 7 OR initial_pdpt_phys sy else 0)"
    using d r by (cases "info_remap sy info") (simp_all add: defs boot_tables_def)
  show "boot_entries sy info (initial_pdpt_phys sy) i = (if i = 0 then 7 OR initial_pd_phys sy else 0)"
    using d r by (cases "info_remap sy info") (simp_all add: defs boot_tables_def)
  show "boot_entries sy info (initial_pd_phys sy) i = (if i = 0 then 7 OR initial_pt_phys sy else if i = 1 then 7 OR initial_pt3_phys sy else 0)"
    using d r by (cases "info_remap sy info") (simp_all add: defs boot_tables_def)
  show "boot_entries sy info (initial_pdpt2_phys sy) i = (if i = 0 then 0x1b OR initial_pd2_phys sy else 0)"
    using d r by (cases "info_remap sy info") (simp_all add: defs boot_tables_def)
  show "boot_entries sy info (initial_pd2_phys sy) i = (if i = 0 then 0x1b OR initial_pt2_phys sy else 0)"
    using d r by (cases "info_remap sy info") (simp_all add: defs boot_tables_def)
  show "boot_entries sy info (initial_pt3_phys sy) i = (if i = 0 then 7 OR (kernel_byte_size sy + 0x1000) else 0)"
    using d r by (cases "info_remap sy info") (simp_all add: defs boot_tables_def)
  show "boot_entries sy info (initial_pt2_phys sy) i = (if 1 \<le> i \<and> i \<le> 257 then 7 OR of_nat (0x1000 * i) else 0)"
  proof -
    have e: "0x1000 + of_nat ((i - 1) * 0x1000) = (of_nat (0x1000 * i) :: u32)" if "1 \<le> i"
      using that by (cases i) simp_all
    have "boot_entries sy info (initial_pt2_phys sy) i = (if 1 \<le> i \<and> i < 1 + 257 then 7 OR (0x1000 + of_nat ((i - 1) * 0x1000)) else 0)"
      using d r by (simp add: defs boot_tables_def split: option.split del: of_nat_mult)
    then show ?thesis by (simp only: e cong: if_cong) auto
  qed
  show "boot_entries sy info (initial_pt_phys sy) i =
      (if i < unat (kernel_page_size sy) then 7 OR (KERNEL_TEXT sy + of_nat (0x1000 * i))
       else if i = unat (kernel_page_size sy) then
         (case info_remap sy info of None \<Rightarrow> 7 OR (KERNEL_TEXT sy + of_nat (0x1000 * i)) | Some w \<Rightarrow> 3 OR w)
       else if i = 0xc0 then 0x1b OR 0xb8000 else if i = 0xe8 then 7 OR (kernel_byte_size sy + 0x2000) else 0)"
    using d r n by (cases "info_remap sy info") (auto simp add: defs boot_tables_def mult.commute less_Suc_eq)
qed

lemma aligned_of_nat: "unat (of_nat (0x1000 * k) :: u32) mod 0x1000 = 0"
proof -
  have "0x1000 * k mod 2 ^ 32 mod 0x1000 = 0x1000 * k mod 0x1000" by (rule mod_mod_cancel) simp
  moreover have "unat (of_nat (0x1000 * k) :: u32) = 0x1000 * k mod 2 ^ 32" by (simp only: unat_of_nat) simp
  ultimately show ?thesis by simp
qed

lemma aligned_plus:
  fixes a b :: u32
  assumes "unat a mod 0x1000 = 0" and "unat b mod 0x1000 = 0"
  shows "unat (a + b) mod 0x1000 = 0"
proof -
  have "(unat a + unat b) mod 2 ^ 32 mod 0x1000 = (unat a + unat b) mod 0x1000" by (rule mod_mod_cancel) simp
  moreover have "(unat a + unat b) mod 0x1000 = 0" using assms by (simp add: mod_add_eq [symmetric])
  moreover have "unat (a + b) = (unat a + unat b) mod 2 ^ 32" by (simp add: unat_word_ariths)
  ultimately show ?thesis by simp
qed

lemma aligned_page_mask: "unat (a AND PAGE_MASK) mod 0x1000 = 0"
proof -
  have "take_bit 12 (a AND PAGE_MASK) = 0"
  proof -
    have "take_bit 12 PAGE_MASK = 0" by (simp add: PAGE_MASK_def)
    then show ?thesis by (simp add: take_bit_and)
  qed
  then have "take_bit 12 (unat (a AND PAGE_MASK)) = 0" by (metis unsigned_0 unsigned_take_bit_eq)
  then show ?thesis by (simp add: take_bit_eq_mod)
qed

lemma info_remap_aligned: "info_remap sy info = Some w \<Longrightarrow> unat w mod 0x1000 = 0"
  by (auto simp: info_remap_def aligned_page_mask split: if_splits)

lemma aligned_byte_size: "unat (kernel_byte_size sy + of_nat (0x1000 * k)) mod 0x1000 = 0"
proof -
  have "kernel_byte_size sy = of_nat (0x1000 * unat (kernel_page_size sy))" by (simp add: kernel_byte_size_def)
  then show ?thesis using aligned_plus aligned_of_nat by metis
qed

lemma boot_tables_aligned: "layout_ok sy \<Longrightarrow> t \<in> set (boot_tables sy) \<Longrightarrow> unat t mod 0x1000 = 0"
  by (simp add: layout_ok_def page_aligned_def)

lemma flags_in: "3 \<in> boot_flags" "7 \<in> boot_flags" "0x1b \<in> boot_flags"
  by (simp_all add: boot_flags_def)

text \<open>The two ways down to the lowest tables.\<close>

lemma walk_upper:
  assumes l: "layout_ok sy" and h: "tables_hold (set (boot_tables sy)) m (boot_entries sy info)" and i: "get_index a 3 = 511"
  shows "hw_walk 3 m (ucast (initial_pml4t_phys sy)) a =
    (if get_index a 2 \<noteq> 0 \<or> 2 \<le> get_index a 1 then None
     else hw_walk 0 m (ucast (if get_index a 1 = 0 then initial_pt_phys sy else initial_pt3_phys sy)) a)"
proof -
  note known = boot_entries_values [OF l] boot_tables_in flags_in boot_tables_aligned [OF l]
  have 3: "hw_walk 3 m (ucast (initial_pml4t_phys sy)) a = hw_walk 2 m (ucast (initial_pdpt_phys sy)) a"
    using walk_step [OF h, of "initial_pml4t_phys sy" a 3 7 "initial_pdpt_phys sy"] i by (simp add: known)
  show ?thesis
  proof (cases "get_index a 2 = 0")
    case True
    then have 2: "hw_walk 2 m (ucast (initial_pdpt_phys sy)) a = hw_walk 1 m (ucast (initial_pd_phys sy)) a"
      using walk_step [OF h, of "initial_pdpt_phys sy" a 2 7 "initial_pd_phys sy"] by (simp add: known)
    consider "get_index a 1 = 0" | "get_index a 1 = 1" | "2 \<le> get_index a 1" by linarith
    then show ?thesis
      using True 2 3 walk_step [OF h, of "initial_pd_phys sy" a 1 7] walk_absent [OF h, of "initial_pd_phys sy" a 1]
      by cases (simp_all add: known)
  qed (use 3 walk_absent [OF h, of "initial_pdpt_phys sy" a 2] in \<open>simp add: known\<close>)
qed

lemma walk_lower:
  assumes l: "layout_ok sy" and h: "tables_hold (set (boot_tables sy)) m (boot_entries sy info)" and i: "get_index a 3 = 0"
  shows "hw_walk 3 m (ucast (initial_pml4t_phys sy)) a =
    (if get_index a 2 \<noteq> 0 \<or> get_index a 1 \<noteq> 0 then None else hw_walk 0 m (ucast (initial_pt2_phys sy)) a)"
proof -
  note known = boot_entries_values [OF l] boot_tables_in flags_in boot_tables_aligned [OF l]
  have 3: "hw_walk 3 m (ucast (initial_pml4t_phys sy)) a = hw_walk 2 m (ucast (initial_pdpt2_phys sy)) a"
    using walk_step [OF h, of "initial_pml4t_phys sy" a 3 "0x1b" "initial_pdpt2_phys sy"] i by (simp add: known)
  show ?thesis
  proof (cases "get_index a 2 = 0")
    case True
    then have 2: "hw_walk 2 m (ucast (initial_pdpt2_phys sy)) a = hw_walk 1 m (ucast (initial_pd2_phys sy)) a"
      using walk_step [OF h, of "initial_pdpt2_phys sy" a 2 "0x1b" "initial_pd2_phys sy"] by (simp add: known)
    then show ?thesis
      using True 3 walk_step [OF h, of "initial_pd2_phys sy" a 1 "0x1b" "initial_pt2_phys sy"] walk_absent [OF h, of "initial_pd2_phys sy" a 1]
      by (cases "get_index a 1 = 0") (simp_all add: known)
  qed (use 3 walk_absent [OF h, of "initial_pdpt2_phys sy" a 2] in \<open>simp add: known\<close>)
qed

text \<open>The lowest tables.\<close>

lemma walk_last:
  assumes l: "layout_ok sy" and h: "tables_hold (set (boot_tables sy)) m (boot_entries sy info)"
  shows "hw_walk 0 m (ucast (initial_pt2_phys sy)) a =
      map_option (\<lambda>f. ucast f + (a AND 0xfff)) (let i = get_index a 0 in if 1 \<le> i \<and> i \<le> 257 then Some (of_nat (0x1000 * i) :: u32) else None)"
    and "hw_walk 0 m (ucast (initial_pt3_phys sy)) a =
      map_option (\<lambda>f. ucast f + (a AND 0xfff)) (if get_index a 0 = 0 then Some (kernel_byte_size sy + 0x1000) else None)"
    and "hw_walk 0 m (ucast (initial_pt_phys sy)) a = map_option (\<lambda>f. ucast f + (a AND 0xfff))
      (let i = get_index a 0; n = unat (kernel_page_size sy)
       in if i < n then Some (KERNEL_TEXT sy + of_nat (0x1000 * i))
          else if i = n then Some (case info_remap sy info of None \<Rightarrow> KERNEL_TEXT sy + of_nat (0x1000 * n) | Some w \<Rightarrow> w)
          else if i = 0xc0 then Some 0xb8000 else if i = 0xe8 then Some (kernel_byte_size sy + 0x2000) else None)"
proof -
  note known = boot_entries_values [OF l] boot_tables_in flags_in
  show "hw_walk 0 m (ucast (initial_pt2_phys sy)) a =
      map_option (\<lambda>f. ucast f + (a AND 0xfff)) (let i = get_index a 0 in if 1 \<le> i \<and> i \<le> 257 then Some (of_nat (0x1000 * i) :: u32) else None)"
    using walk_end [OF h, of "initial_pt2_phys sy" a 7 "of_nat (0x1000 * get_index a 0)"] walk_absent [OF h, of "initial_pt2_phys sy" a 0]
      aligned_of_nat [of "get_index a 0"]
    by (cases "1 \<le> get_index a 0 \<and> get_index a 0 \<le> 257") (simp_all add: known if_not_P Let_def del: of_nat_mult hw_walk.simps)
  show "hw_walk 0 m (ucast (initial_pt3_phys sy)) a =
      map_option (\<lambda>f. ucast f + (a AND 0xfff)) (if get_index a 0 = 0 then Some (kernel_byte_size sy + 0x1000) else None)"
    using walk_end [OF h, of "initial_pt3_phys sy" a 7 "kernel_byte_size sy + 0x1000"] walk_absent [OF h, of "initial_pt3_phys sy" a 0]
      aligned_byte_size [of sy 1]
    by (simp add: known del: hw_walk.simps)
  have k: "unat (KERNEL_TEXT sy + of_nat (0x1000 * get_index a 0)) mod 0x1000 = 0"
    using l by (intro aligned_plus aligned_of_nat) (simp add: layout_ok_def)
  show "hw_walk 0 m (ucast (initial_pt_phys sy)) a = map_option (\<lambda>f. ucast f + (a AND 0xfff))
      (let i = get_index a 0; n = unat (kernel_page_size sy)
       in if i < n then Some (KERNEL_TEXT sy + of_nat (0x1000 * i))
          else if i = n then Some (case info_remap sy info of None \<Rightarrow> KERNEL_TEXT sy + of_nat (0x1000 * n) | Some w \<Rightarrow> w)
          else if i = 0xc0 then Some 0xb8000 else if i = 0xe8 then Some (kernel_byte_size sy + 0x2000) else None)"
  proof (cases "get_index a 0 = unat (kernel_page_size sy)")
    case True
    then show ?thesis
      using walk_end [OF h, of "initial_pt_phys sy" a 7 "KERNEL_TEXT sy + of_nat (0x1000 * get_index a 0)"]
        walk_end [OF h, of "initial_pt_phys sy" a 3] k
      by (cases "info_remap sy info") (simp_all add: known Let_def info_remap_aligned del: of_nat_mult hw_walk.simps)
  next
    case False
    then consider "get_index a 0 < unat (kernel_page_size sy)"
      | "get_index a 0 = 0xc0" | "get_index a 0 = 0xe8" | "unat (kernel_page_size sy) < get_index a 0" "get_index a 0 \<notin> {0xc0, 0xe8}"
      by fastforce
    then show ?thesis
      using l walk_end [OF h boot_tables_in(4) _ flags_in(2) k] walk_end [OF h boot_tables_in(4) _ flags_in(3), of a "0xb8000"]
        walk_end [OF h boot_tables_in(4) _ flags_in(2), of a "kernel_byte_size sy + 0x2000"] aligned_byte_size [of sy 2]
        walk_absent [OF h boot_tables_in(4), of a 0]
      by cases (simp_all add: known Let_def layout_ok_def del: of_nat_mult hw_walk.simps)
  qed
qed

lemma page_number_bases:
  "page_number KERNEL_TEXT_START = 511 * 2 ^ 27" "page_number VGA_TEXT_BUFFER_BASE = 511 * 2 ^ 27 + 0xc0"
  "page_number KERNEL_PMM_START = 511 * 2 ^ 27 + 0xe8" "page_number KERNEL_HEAP_START = 511 * 2 ^ 27 + 0x200"
  by (simp_all add: page_number_def KERNEL_TEXT_START_def VGA_TEXT_BUFFER_BASE_def KERNEL_PMM_START_def KERNEL_HEAP_START_def)

lemma boot_frame_upper:
  assumes l: "layout_ok sy" and "i2 < 512" "i1 < 512" "i0 < 512"
  shows "boot_frame sy info (511 * 2 ^ 27 + i2 * 2 ^ 18 + i1 * 2 ^ 9 + i0) =
    (if i2 \<noteq> 0 \<or> 2 \<le> i1 then None
     else if i1 = 1 then (if i0 = 0 then Some (kernel_byte_size sy + 0x1000) else None)
     else let n = unat (kernel_page_size sy)
       in if i0 < n then Some (KERNEL_TEXT sy + of_nat (0x1000 * i0))
          else if i0 = n then Some (case info_remap sy info of None \<Rightarrow> KERNEL_TEXT sy + of_nat (0x1000 * n) | Some w \<Rightarrow> w)
          else if i0 = 0xc0 then Some 0xb8000 else if i0 = 0xe8 then Some (kernel_byte_size sy + 0x2000) else None)"
proof -
  have n: "unat (kernel_page_size sy) < 0xc0" using l by (simp add: layout_ok_def)
  consider "1 \<le> i2" | "i2 = 0" "2 \<le> i1" | "i2 = 0" "i1 = 1" | "i2 = 0" "i1 = 0" by linarith
  then show ?thesis using n assms by cases (auto simp: boot_frame_def page_number_bases Let_def)
qed

lemma boot_walk:
  assumes l: "layout_ok sy" and h: "tables_hold (set (boot_tables sy)) m (boot_entries sy info)"
  shows "hw_walk 3 m (ucast (initial_pml4t_phys sy)) a = boot_map sy info a"
proof -
  note less = get_index_less [of a 0] get_index_less [of a 1] get_index_less [of a 2] get_index_less [of a 3]
  have n: "unat (kernel_page_size sy) < 0xc0" using l by (simp add: layout_ok_def)
  consider "get_index a 3 = 511" | "get_index a 3 = 0" | "0 < get_index a 3" "get_index a 3 < 511" using less(4) by linarith
  then show ?thesis
  proof cases
    case 1
    then have "page_number a = 511 * 2 ^ 27 + get_index a 2 * 2 ^ 18 + get_index a 1 * 2 ^ 9 + get_index a 0"
      by (simp add: page_number_indices)
    then show ?thesis
      using boot_frame_upper [OF l less(3,2,1), of info] walk_upper [OF l h 1] walk_last [OF l h, of a]
      by (auto simp: boot_map_def Let_def)
  next
    case 2
    then have "page_number a = get_index a 2 * 2 ^ 18 + get_index a 1 * 2 ^ 9 + get_index a 0"
      by (simp add: page_number_indices)
    moreover have "boot_frame sy info (i2 * 2 ^ 18 + i1 * 2 ^ 9 + i0) =
        (if i2 \<noteq> 0 \<or> i1 \<noteq> 0 then None else if 1 \<le> i0 \<and> i0 \<le> 257 then Some (of_nat (0x1000 * i0)) else None)"
      if "i2 < 512" "i1 < 512" "i0 < 512" for i2 i1 i0
      using that n by (auto simp: boot_frame_def page_number_bases Let_def)
    ultimately show ?thesis
      using less walk_lower [OF l h 2] walk_last [OF l h, of a] by (auto simp: boot_map_def Let_def)
  next
    case 3
    then have "2 ^ 27 \<le> page_number a" "page_number a < 511 * 2 ^ 27" using less by (simp_all add: page_number_indices)
    then have "boot_frame sy info (page_number a) = None" by (auto simp: boot_frame_def page_number_bases Let_def)
    then show ?thesis
      using walk_absent [OF h boot_tables_in(1), of a 3] 3 by (simp add: boot_entries_values [OF l] boot_map_def)
  qed
qed

section \<open>Properties\<close>

text \<open>
  The information block is accepted where it starts on the page of the end of the image, or ends on the page it starts on. Its size is read after the
  image's tables are written.
\<close>

definition info_page_ok :: "boot_syms \<Rightarrow> boot_cpu \<Rightarrow> bool" where
  "info_page_ok sy c \<longleftrightarrow> bss_end sy AND PAGE_MASK = ebx c AND PAGE_MASK \<or>
     (load32 (pm c) (ucast (ebx c)) + ebx c) AND PAGE_MASK = ebx c AND PAGE_MASK"

definition size_outside :: "boot_syms \<Rightarrow> u32 \<Rightarrow> bool" where
  "size_outside sy info \<longleftrightarrow> (\<forall>k < 4. outside (set (boot_tables sy)) (ucast info + of_nat k))"

definition cleared :: "boot_syms \<Rightarrow> boot_cpu \<Rightarrow> bool" where
  "cleared sy c \<longleftrightarrow> tables_hold (set (boot_tables sy)) (pm c) (\<lambda>_ _. 0)"

lemma size_kept:
  assumes l: "layout_ok sy" and z: "cleared sy c" and o: "size_outside sy info"
  shows "load32 (pm (map_image sy c)) (ucast info) = load32 (pm c) (ucast info)"
proof (rule load32_cong)
  have "contents sy (pm c) c (\<lambda>_ _. 0)" using z by (simp add: cleared_def contents_def written_def)
  from map_image_holds(1) [OF l this]
  show "pm (map_image sy c) (ucast info + of_nat k) = pm c (ucast info + of_nat k)" if "k < 4" for k
    using o that by (simp add: contents_def written_def size_outside_def)
qed

lemma kernel_init_runs:
  assumes "layout_ok sy" and "cleared sy c" and "size_outside sy (ebx c)"
  shows "if info_page_ok sy c then \<exists>r. kernel_init sy c = Inr r else kernel_init sy c = Inl Hang"
  using size_kept [OF assms]
  by (auto simp: info_page_ok_def kernel_init_def setup_pt_def map_upper_half_def check_mb2_info_mapped_def Let_def)

text \<open>
  C8. The start either hangs, when the information block crosses a page away from the image, or it returns with tables through which the processor
  translates every one of the \<open>2 ^ 64\<close> addresses the way \<open>boot_map\<close> says and no other way, and with the memory outside the eight tables untouched.\<close>

theorem kernel_init_maps:
  assumes "layout_ok sy" and "cleared sy c" and "size_outside sy (ebx c)"
  shows "if info_page_ok sy c
    then \<exists>info m. kernel_init sy c = Inr (ucast (initial_pml4t_phys sy), info, m) \<and>
      (\<forall>a. hw_walk 3 m (ucast (initial_pml4t_phys sy)) a = boot_map sy (ebx c) a) \<and>
      (\<forall>b. outside (set (boot_tables sy)) b \<longrightarrow> m b = pm c b)
    else kernel_init sy c = Inl Hang"
proof (cases "info_page_ok sy c")
  case True
  then obtain root info m where r: "kernel_init sy c = Inr (root, info, m)" using kernel_init_runs [OF assms] by auto
  note t = kernel_init_contents [OF assms(1) assms(2) [unfolded cleared_def] r]
  show ?thesis using True r t boot_walk [OF assms(1), of m "ebx c"] by (auto simp: contents_def written_def)
qed (use kernel_init_runs [OF assms] in simp)

text \<open>A layout of the linker script: thirty pages, the tables in the section of zeroes behind the data.\<close>

definition small_image :: boot_syms where
  "small_image = \<lparr>initial_pml4t_phys = 0x110000, initial_pdpt_phys = 0x111000, initial_pd_phys = 0x112000, initial_pt_phys = 0x113000,
     initial_pdpt2_phys = 0x114000, initial_pd2_phys = 0x115000, initial_pt2_phys = 0x116000, initial_pt3_phys = 0x117000,
     KERNEL_TEXT = 0x101000, bss_end = 0x11d000\<rparr>"

definition entry_cpu :: "u32 \<Rightarrow> boot_cpu" where
  "entry_cpu info = \<lparr>eax = 0x36d76289, ebx = info, ecx = 0, edx = 0, edi = 0, pm = (\<lambda>_. 0)\<rparr>"

lemma small_image_ok: "layout_ok small_image" "cleared small_image (entry_cpu info)" "kernel_page_size small_image = 30"
  by (simp_all add: layout_ok_def small_image_def boot_tables_def page_aligned_def kernel_page_size_def KERNEL_PHYS_def cleared_def
      tables_hold_def entry_cpu_def load64_def load32_def load16_def)

lemma unat_and_fff: "unat (a AND 0xfff :: u64) = unat a mod 0x1000"
proof -
  have "(0xfff :: u64) = mask 12" by (simp add: mask_eq_exp_minus_1)
  then have "unat (a AND 0xfff) = unat (take_bit 12 a)" by (simp add: take_bit_eq_mask)
  then show ?thesis by (simp only: unsigned_take_bit_eq) (simp add: take_bit_eq_mod)
qed

lemma unat_page_mask: "unat (a AND PAGE_MASK) + unat a mod 0x1000 = unat a"
proof -
  have m: "PAGE_MASK = push_bit 12 (mask 20)" by (simp add: PAGE_MASK_def mask_eq_exp_minus_1 push_bit_eq_mult)
  have p: "bit PAGE_MASK i \<longleftrightarrow> 12 \<le> i \<and> i < 32" for i unfolding m bit_push_bit_iff bit_mask_iff by auto
  have "a AND PAGE_MASK = push_bit 12 (drop_bit 12 a)"
  proof (rule bit_word_eqI)
    show "bit (a AND PAGE_MASK) i = bit (push_bit 12 (drop_bit 12 a)) i" if "i < LENGTH(32)" for i
      using that by (cases "12 \<le> i") (simp_all add: bit_and_iff bit_push_bit_iff bit_drop_bit_eq p)
  qed
  moreover have "take_bit 32 (unat a) = unat a" using unsigned_less [of a, where 'a = nat] by (simp add: take_bit_nat_eq_self)
  ultimately have "unat (a AND PAGE_MASK) = take_bit 32 (push_bit 12 (drop_bit 12 (unat a)))"
    by (simp only: unsigned_push_bit_eq unsigned_drop_bit_eq) simp
  moreover have "push_bit 12 (drop_bit 12 (unat a)) = 0x1000 * (unat a div 0x1000)" by (simp add: push_bit_eq_mult drop_bit_eq_div)
  moreover have "0x1000 * (unat a div 0x1000) < 2 ^ 32" using unsigned_less [of a, where 'a = nat] by simp
  ultimately show ?thesis by (simp add: take_bit_nat_eq_self)
qed

lemma boot_map_eq:
  "boot_map sy info a = Some (ucast (mb :: u32)) \<longleftrightarrow>
    (\<exists>f. boot_frame sy info (page_number a) = Some f \<and> unat f + unat a mod 0x1000 = unat mb)"
proof -
  have "(ucast f + (a AND 0xfff) = (ucast mb :: u64)) = (unat f + unat a mod 0x1000 = unat mb)" for f :: u32
    using unsigned_less [of f, where 'a = nat] by (simp add: word_unat_eq_iff unat_word_ariths unat_ucast_32 unat_and_fff)
  then show ?thesis by (auto simp: boot_map_def)
qed

text \<open>The address in the upper half that the linker script gives to a physical address of the image; \<open>_setup_64\<close> does the same with the block.\<close>

definition high_addr :: "boot_syms \<Rightarrow> u32 \<Rightarrow> u64" where
  "high_addr sy mb = ucast mb - ucast (KERNEL_TEXT sy) + KERNEL_TEXT_START"

lemma high_addr_page:
  "KERNEL_TEXT sy \<le> mb \<Longrightarrow> unat (high_addr sy mb) = unat KERNEL_TEXT_START + (unat mb - unat (KERNEL_TEXT sy))"
  "mb < KERNEL_TEXT sy \<Longrightarrow> unat (high_addr sy mb) + (unat (KERNEL_TEXT sy) - unat mb) = unat KERNEL_TEXT_START"
proof -
  have b: "unat mb < 2 ^ 32" "unat (KERNEL_TEXT sy) < 2 ^ 32"
    using unsigned_less [of mb, where 'a = nat] unsigned_less [of "KERNEL_TEXT sy", where 'a = nat] by simp_all
  then show "KERNEL_TEXT sy \<le> mb \<Longrightarrow> unat (high_addr sy mb) = unat KERNEL_TEXT_START + (unat mb - unat (KERNEL_TEXT sy))"
    by (auto simp: high_addr_def KERNEL_TEXT_START_def word_le_nat_alt unat_word_ariths unat_sub_if_size unat_ucast_32 word_size)
  have "high_addr sy mb = KERNEL_TEXT_START - (ucast (KERNEL_TEXT sy) - ucast mb)" by (simp add: high_addr_def)
  then show "mb < KERNEL_TEXT sy \<Longrightarrow> unat (high_addr sy mb) + (unat (KERNEL_TEXT sy) - unat mb) = unat KERNEL_TEXT_START"
    using b by (auto simp: KERNEL_TEXT_START_def word_less_nat_alt unat_sub_if_size unat_ucast_32 word_size)
qed

lemma boot_frame_high:
  "boot_frame sy info (511 * 2 ^ 27 + q) =
    (let n = unat (kernel_page_size sy)
     in if q < n then Some (KERNEL_TEXT sy + of_nat (0x1000 * q))
        else if q = n then Some (case info_remap sy info of None \<Rightarrow> KERNEL_TEXT sy + of_nat (0x1000 * n) | Some w \<Rightarrow> w)
        else if q = 0xc0 then Some 0xb8000 else if q = 0xe8 then Some (kernel_byte_size sy + 0x2000)
        else if q = 0x200 then Some (kernel_byte_size sy + 0x1000) else None)"
  by (simp add: boot_frame_def page_number_bases Let_def)

lemma byte_size_small: "layout_ok sy \<Longrightarrow> k \<le> 2 \<Longrightarrow> unat (kernel_byte_size sy + of_nat (0x1000 * k)) < 0x100000"
  by (simp add: layout_ok_def kernel_byte_size_def unat_word_ariths unat_of_nat)

text \<open>The frame behind an address of the image and of the page after it; the pages further up belong to something else.\<close>

lemma image_frame:
  assumes l: "layout_ok sy" and mb: "unat mb = unat (KERNEL_TEXT sy) + (0x1000 * q + r)" and r: "r < 0x1000"
  shows "(\<exists>f. boot_frame sy mb (511 * 2 ^ 27 + q) = Some f \<and> unat f + r = unat mb) \<longleftrightarrow> q \<le> unat (kernel_page_size sy)"
proof -
  have b: "unat mb < 2 ^ 32" using unsigned_less [of mb, where 'a = nat] by simp
  have k: "0x100000 \<le> unat (KERNEL_TEXT sy)" "unat (KERNEL_TEXT sy) mod 0x1000 = 0" and n: "unat (kernel_page_size sy) < 0xc0"
    using l by (simp_all add: layout_ok_def KERNEL_PHYS_def word_le_nat_alt)
  have im: "unat (KERNEL_TEXT sy + of_nat (0x1000 * q)) + r = unat mb"
    using b mb by (subst unat_plus_of_nat) simp_all
  have "unat mb mod 0x1000 = r" unfolding mb using k(2) r by (simp add: mod_add_eq [symmetric] flip: mod_add_left_eq)
  then have page: "unat (mb AND PAGE_MASK) + r = unat mb" using unat_page_mask [of mb] by simp
  consider "q < unat (kernel_page_size sy)" | "q = unat (kernel_page_size sy)" | "unat (kernel_page_size sy) < q" by linarith
  then show ?thesis
  proof cases
    case 1
    then show ?thesis unfolding boot_frame_high using im by (simp add: Let_def)
  next
    case 2
    then show ?thesis unfolding boot_frame_high using im page by (simp add: Let_def info_remap_def)
  next
    case 3
    have "unat f + r \<noteq> unat mb" if "boot_frame sy mb (511 * 2 ^ 27 + q) = Some f" for f
      using that 3 mb r k byte_size_small [OF l, of 1] byte_size_small [OF l, of 2] unfolding boot_frame_high
      by (auto simp: Let_def split: if_splits)
    with 3 show ?thesis by auto
  qed
qed

lemma high_addr_split:
  assumes le: "KERNEL_TEXT sy \<le> mb" and mb: "unat mb = unat (KERNEL_TEXT sy) + x"
  shows "page_number (high_addr sy mb) = 511 * 2 ^ 27 + x div 0x1000" and "unat (high_addr sy mb) mod 0x1000 = x mod 0x1000"
proof -
  have x: "x < 2 ^ 32" using mb unsigned_less [of mb, where 'a = nat] by simp
  have a: "unat (high_addr sy mb) = x + 0x1000 * (511 * 2 ^ 27 + 2 ^ 36 * 65535)"
    using high_addr_page(1) [OF le] mb by (simp add: KERNEL_TEXT_START_def)
  have "page_number (high_addr sy mb) = (x div 0x1000 + 511 * 2 ^ 27 + 2 ^ 36 * 65535) mod 2 ^ 36"
    unfolding page_number_def a by (subst div_mult_self2) simp_all
  also have "\<dots> = 511 * 2 ^ 27 + x div 0x1000" using x by (subst mod_mult_self2) simp
  finally show "page_number (high_addr sy mb) = 511 * 2 ^ 27 + x div 0x1000" .
  show "unat (high_addr sy mb) mod 0x1000 = x mod 0x1000" unfolding a by (rule mod_mult_self2)
qed

lemma image_at_high_addr:
  assumes l: "layout_ok sy" and t: "KERNEL_TEXT sy \<le> t" "t < bss_end sy"
  shows "boot_map sy info (high_addr sy t) = Some (ucast t)"
proof -
  define x where "x = unat t - unat (KERNEL_TEXT sy)"
  have x: "unat t = unat (KERNEL_TEXT sy) + x" using t by (simp add: x_def word_le_nat_alt)
  have k: "KERNEL_PHYS \<le> KERNEL_TEXT sy" "unat KERNEL_PHYS = 0x100000" using l by (simp_all add: layout_ok_def KERNEL_PHYS_def)
  have "unat (bss_end sy - KERNEL_PHYS) = unat (bss_end sy) - 0x100000"
    using k t by (simp add: unat_sub_if_size word_le_nat_alt word_less_nat_alt)
  moreover have "unat (kernel_page_size sy) = Suc (unat (bss_end sy - KERNEL_PHYS) div 0x1000)"
    using unsigned_less [of "bss_end sy - KERNEL_PHYS", where 'a = nat]
    by (simp add: kernel_page_size_def unat_word_ariths unat_div)
  moreover have "x \<le> unat (bss_end sy) - 0x100000" using k t x by (simp add: word_le_nat_alt word_less_nat_alt)
  ultimately have q: "x div 0x1000 < unat (kernel_page_size sy)" using div_le_mono [of x _ "0x1000"] by (simp add: le_imp_less_Suc)
  have "unat (KERNEL_TEXT sy + of_nat (0x1000 * (x div 0x1000))) = unat (KERNEL_TEXT sy) + 0x1000 * (x div 0x1000)"
  proof (rule unat_plus_of_nat)
    have "0x1000 * (x div 0x1000) \<le> x" by simp
    then show "unat (KERNEL_TEXT sy) + 0x1000 * (x div 0x1000) < 2 ^ LENGTH(32)"
      using x unsigned_less [of t, where 'a = nat] by simp
  qed
  then show ?thesis
    unfolding boot_map_eq high_addr_split [OF t(1) x] boot_frame_high using q x by (simp add: Let_def del: of_nat_mult)
qed

lemma info_translated:
  assumes l: "layout_ok sy"
  shows "boot_map sy mb (high_addr sy mb) = Some (ucast mb) \<longleftrightarrow>
    KERNEL_TEXT sy \<le> mb \<and> unat mb < unat (KERNEL_TEXT sy) + 0x1000 * (unat (kernel_page_size sy) + 1)"
proof (cases "KERNEL_TEXT sy \<le> mb")
  case True
  define x where "x = unat mb - unat (KERNEL_TEXT sy)"
  have mb: "unat mb = unat (KERNEL_TEXT sy) + x" "x < 2 ^ 32"
    using True unsigned_less [of mb, where 'a = nat] by (simp_all add: x_def word_le_nat_alt)
  note a = high_addr_split [OF True mb(1)]
  have "x div 0x1000 \<le> n \<longleftrightarrow> x < 0x1000 * (n + 1)" for n by (simp add: less_mult_imp_div_less div_less_iff_less_mult flip: less_Suc_eq_le) linarith
  then show ?thesis
    using True mb a image_frame [OF l, of mb "x div 0x1000" "x mod 0x1000"] by (simp add: boot_map_eq)
next
  case False
  define e where "e = 511 * 2 ^ 39 - (unat (KERNEL_TEXT sy) - unat mb)"
  have e: "510 * 2 ^ 39 \<le> e" "e < 511 * 2 ^ 39"
    using False unsigned_less [of "KERNEL_TEXT sy", where 'a = nat] by (simp_all add: e_def word_le_nat_alt)
  have a: "unat (high_addr sy mb) = e + 0x1000 * (2 ^ 36 * 65535)"
    using high_addr_page(2) [of mb sy] False unsigned_less [of "KERNEL_TEXT sy", where 'a = nat]
    by (simp add: e_def KERNEL_TEXT_START_def word_le_nat_alt word_less_nat_alt)
  have "page_number (high_addr sy mb) = (e div 0x1000 + 2 ^ 36 * 65535) mod 2 ^ 36"
    unfolding page_number_def a by (subst div_mult_self2) (simp_all add: add.commute)
  also have "\<dots> = e div 0x1000" using e(2) by (subst mod_mult_self2) simp
  finally have "510 * 2 ^ 27 \<le> page_number (high_addr sy mb)" "page_number (high_addr sy mb) < 511 * 2 ^ 27"
    using e div_le_mono [OF e(1), of "0x1000"] by simp_all
  then have "boot_frame sy mb (page_number (high_addr sy mb)) = None" by (simp add: boot_frame_def page_number_bases Let_def)
  with False show ?thesis by (simp add: boot_map_def)
qed

text \<open>
  C40. The address \<open>kernel_start\<close> is called with is one at which the boot loader's information block is found exactly when the block lies in the image or in the
  page behind it: the page mapped for a block elsewhere is not the page the address names.\<close>

theorem boot_info_address:
  assumes "layout_ok sy" and "cleared sy c" and "kernel_init sy c = Inr (root, info, m)"
  shows "hw_walk 3 m root info = Some (ucast (ebx c)) \<longleftrightarrow>
    KERNEL_TEXT sy \<le> ebx c \<and> unat (ebx c) < unat (KERNEL_TEXT sy) + 0x1000 * (unat (kernel_page_size sy) + 1)"
proof -
  note t = kernel_init_contents [OF assms(1) assms(2) [unfolded cleared_def] assms(3)]
  then have "hw_walk 3 m root info = boot_map sy (ebx c) (high_addr sy (ebx c))"
    using boot_walk [OF assms(1), of m "ebx c"] by (simp add: contents_def written_def high_addr_def setup_64_def)
  then show ?thesis using info_translated [OF assms(1), of "ebx c"] by simp
qed

text \<open>The pairs of symbols \<open>vmm_init\<close> enters.\<close>

definition linked_tables :: "boot_syms \<Rightarrow> (u64 \<times> u64) list" where
  "linked_tables sy = map (\<lambda>t. (high_addr sy t, ucast t)) (boot_tables sy)"

lemma small_image_runs:
  assumes "size_outside small_image info" and "info_page_ok small_image (entry_cpu info)"
  obtains root v m where "kernel_init small_image (entry_cpu info) = Inr (root, v, m)"
  using kernel_init_runs [OF small_image_ok(1,2), of info] assms by (auto simp: entry_cpu_def)

lemma all_less_4: "(\<forall>k < (4 :: nat). P k) \<longleftrightarrow> P 0 \<and> P 1 \<and> P 2 \<and> P 3"
  by (auto simp: less_Suc_eq numeral_eq_Suc)

lemma info_page_examples:
  "size_outside small_image 0x11d100" "info_page_ok small_image (entry_cpu 0x11d100)"
  "size_outside small_image 0x9500" "info_page_ok small_image (entry_cpu 0x9500)"
  by (simp_all add: size_outside_def all_less_4 outside_def small_image_def boot_tables_def info_page_ok_def entry_cpu_def PAGE_MASK_def
      load32_def load16_def)

text \<open>
  C22. The memory manager finds the tables of the start. After \<open>kernel_init\<close>, \<open>vmm_init\<close> with the symbols of the linker script succeeds in the address space
  of \<open>cr3\<close>, and for each of the eight tables \<open>get_ptbl_vaddr\<close> returns an address that the processor translates to that table.\<close>

theorem vmm_finds_boot_tables:
  assumes "layout_ok sy" and "cleared sy c" and "kernel_init sy c = Inr (root, info, m)"
    and "booted s" and "cr3 (snd s) = root" and "11 < n"
  shows "\<exists>val s'. vmm_init d n kernel_size (linked_tables sy) s = Inr (val, s') \<and> pml4t (snd val) = root \<and>
    (\<forall>t \<in> set (boot_tables sy). \<exists>va. get_ptbl_vaddr n (hmap (snd s')) (ucast t) = Inr va \<and> hw_walk 3 m root va = Some (ucast t))"
proof -
  note t = kernel_init_contents [OF assms(1) assms(2) [unfolded cleared_def] assms(3)]
  then have w: "hw_walk 3 m root a = boot_map sy (ebx c) a" for a
    using boot_walk [OF assms(1), of m "ebx c"] by (simp add: contents_def written_def)
  have len: "length (linked_tables sy) = 8" by (simp add: linked_tables_def boot_tables_def)
  have "inj_on (ucast :: u32 \<Rightarrow> u64) (set (boot_tables sy))" by (rule inj_onI) (metis unat_ucast_32 word_unat_eq_iff)
  then have "distinct (map snd (linked_tables sy))"
    using assms(1) by (simp add: linked_tables_def layout_ok_def comp_def distinct_map)
  from vmm_init_registers_boot_tables [OF assms(4) this, of n d kernel_size] len assms(6)
  obtain val s' where v: "vmm_init d n kernel_size (linked_tables sy) s = Inr (val, s')" "pml4t (snd val) = cr3 (snd s)"
      "\<forall>(va, pa) \<in> set (linked_tables sy). get_ptbl_vaddr n (hmap (snd s')) pa = Inr va" by auto
  have "get_ptbl_vaddr n (hmap (snd s')) (ucast t) = Inr (high_addr sy t) \<and> hw_walk 3 m root (high_addr sy t) = Some (ucast t)"
    if "t \<in> set (boot_tables sy)" for t
    using v(3) that assms(1) image_at_high_addr [OF assms(1), of t] by (auto simp: linked_tables_def w layout_ok_def)
  with v(1,2) assms(5) show ?thesis by blast
qed

theorem boot_info_address_witness:
  "\<exists>root info m. kernel_init small_image (entry_cpu 0x9500) = Inr (root, info, m) \<and> hw_walk 3 m root info \<noteq> Some 0x9500"
proof -
  obtain root v m where r: "kernel_init small_image (entry_cpu 0x9500) = Inr (root, v, m)"
    by (rule small_image_runs [OF info_page_examples(3,4)])
  moreover have "hw_walk 3 m root v \<noteq> Some 0x9500"
    using boot_info_address [OF small_image_ok(1,2) r] by (simp add: entry_cpu_def small_image_def)
  ultimately show ?thesis by blast
qed

theorem kernel_init_maps_witness:
  "\<exists>info m. kernel_init small_image (entry_cpu 0x11d100) = Inr (0x110000, info, m) \<and> hw_walk 3 m 0x110000 0xffffff8000005abc = Some 0x106abc \<and>
     hw_walk 3 m 0x110000 (KERNEL_HEAP_START + 8) = Some 0x1f008 \<and> hw_walk 3 m 0x110000 0 = None"
proof -
  obtain info m where r: "kernel_init small_image (entry_cpu 0x11d100) = Inr (0x110000, info, m)"
      "\<And>a. hw_walk 3 m 0x110000 a = boot_map small_image 0x11d100 a"
    using kernel_init_maps [OF small_image_ok(1,2), of "0x11d100"] info_page_examples(1,2)
    by (auto simp: entry_cpu_def small_image_def)
  have "hw_walk 3 m 0x110000 0xffffff8000005abc = Some 0x106abc" "hw_walk 3 m 0x110000 (KERNEL_HEAP_START + 8) = Some 0x1f008"
      "hw_walk 3 m 0x110000 0 = None"
    unfolding r(2) boot_map_def boot_frame_def Let_def page_number_bases kernel_byte_size_def small_image_ok(3)
    by (simp_all add: page_number_def KERNEL_HEAP_START_def small_image_def)
  with r(1) show ?thesis by blast
qed

lemma kernel_init_root: "kernel_init sy c = Inr (root, info, m) \<Longrightarrow> root = ucast (initial_pml4t_phys sy)"
  by (auto simp: kernel_init_def bindE_eq_Inr)

theorem vmm_finds_boot_tables_witness:
  "\<exists>root info m val s'. kernel_init small_image (entry_cpu 0x11d100) = Inr (root, info, m) \<and>
     vmm_init 0 12 0x1e000 (linked_tables small_image) (fst booted_mm, (snd booted_mm)\<lparr>cr3 := 0x110000\<rparr>) = Inr (val, s') \<and>
     (\<exists>va. get_ptbl_vaddr 12 (hmap (snd s')) 0x117000 = Inr va \<and> hw_walk 3 m root va = Some 0x117000)"
proof -
  obtain root info m where r: "kernel_init small_image (entry_cpu 0x11d100) = Inr (root, info, m)"
    by (rule small_image_runs [OF info_page_examples(1,2)])
  have c: "cr3 (snd (fst booted_mm, (snd booted_mm)\<lparr>cr3 := 0x110000\<rparr>)) = root"
    using kernel_init_root [OF r] by (simp add: small_image_def)
  have b: "booted (fst booted_mm, (snd booted_mm)\<lparr>cr3 := 0x110000\<rparr>)"
    by (auto simp: booted_def booted_mm_def empty_hashmap_def)
  have "0x117000 \<in> set (boot_tables small_image)" by (simp add: boot_tables_def small_image_def)
  then show ?thesis using vmm_finds_boot_tables [OF small_image_ok(1,2) r b c, of 12 0 "0x1e000"] r by fastforce
qed

end
