(* ===== verification/Kernel.thy ===== *)
theory Kernel
  imports Exec_elf Apic Interrupts
begin

text \<open>
  The start of the kernel, kernel/kernel.c: the components are initialised in the order of the source, the first program is loaded, and the boot thread spins while the
  scheduler runs the threads. Interrupts between the steps are not modelled.
\<close>

text \<open>What the linker, the boot loader and the stack of the boot thread fix: addresses of symbols, literals and locals, and the physical memory.\<close>

record boot_env =
  be_ram :: mem
  be_msr :: u64
  be_mb_info :: u64
  be_isr_stubs :: u64
  be_idt :: u64
  be_tss :: u64
  be_kernel_phys :: u64
  be_kernel_size :: u64
  be_boot_tables :: "(u64 \<times> u64) list"
  be_lit_rsd_ptr :: u64
  be_lit_APIC :: u64
  be_fs_symbols :: fs_symbols
  be_wrapper :: u64
  be_lit_thread :: u64
  be_idle_main :: u64
  be_vmm :: u64
  be_ehdr :: u64
  be_phdr :: u64
  be_lit_program :: u64

text \<open>The state of all components; \<open>'d\<close> is the I/O interrupt controller.\<close>

record 'd machine =
  mk :: kernel
  m_idt :: "idt_entry list"
  m_idtr :: idtr
  m_gdt :: gdt64_t
  m_tss :: tss_t
  m_mb2 :: mb2_state
  m_acpi :: acpi
  m_apic :: apic
  m_dev :: 'd

definition print_name :: "console \<Rightarrow> console" where
  "print_name = printstr
     (map of_char ''  _______ __              ____  _____'' @ [10] @
      map of_char '' /_  __(_) /_____ _____  / __ '' @ [92] @ map of_char ''/ ___/'' @ [10] @
      map of_char ''  / / / / __/ __ `/ __ '' @ [92] @ map of_char ''/ / / /'' @ [92] @ map of_char ''__ '' @ [92, 32, 10] @
      map of_char '' / / / / /_/ /_/ / / / / /_/ /___/ / '' @ [10] @
      map of_char ''/_/ /_/'' @ [92] @ map of_char ''__/'' @ [92] @ map of_char ''__,_/_/ /_/'' @ [92] @ map of_char ''____//____/  '' @ [10, 10])"

text \<open>\<open>vmm_lengthen\<close> as the frame allocator calls it.\<close>

definition pmm_lengthen :: "nat \<Rightarrow> nat \<Rightarrow> u64 \<Rightarrow> u64 \<Rightarrow> pmm \<times> mm \<Rightarrow> (bool \<times> pmm \<times> mm) result" where
  "pmm_lengthen d n start_region inc me =
     bindE (vmm_lengthen d n start_region inc (upd (\<lambda>v. v\<lparr>frames := fst me\<rparr>) (snd me))) (\<lambda>(ok, s).
       Inr (ok, frames (snd s), s))"

definition init_memory :: "nat \<Rightarrow> nat \<Rightarrow> boot_env \<Rightarrow> mb2_state \<Rightarrow> mm \<Rightarrow> (mb2_state \<times> vmm_value \<times> mm) result" where
  "init_memory d n be mb s =
     bindE (mb2_mmap_init n (vm_bytes s) (be_mb_info be) mb) (\<lambda>(mb', _).
     bindE (kheap_init (fst s)) (\<lambda>h.
     bindE (vmm_init d n (be_kernel_size be) (be_boot_tables be) (h, snd s)) (\<lambda>(inital_vmm, s1).
     bindE (pmm_init n (pmm_lengthen d n) (reserved_entries mb') (be_kernel_phys be) (be_kernel_size be) (frames (snd s1), s1)) (\<lambda>(f, s2).
       Inr (mb', inital_vmm, upd (\<lambda>v. v\<lparr>frames := f\<rparr>) s2)))))"

definition init_devices ::
  "nat \<Rightarrow> nat \<Rightarrow> (u64 \<Rightarrow> u32 \<Rightarrow> 'd \<Rightarrow> 'd) \<Rightarrow> (u64 \<Rightarrow> 'd \<Rightarrow> u32) \<Rightarrow> boot_env \<Rightarrow> 'd machine \<Rightarrow> 'd machine result" where
  "init_devices d n store load be m =
     bindE (remap_gdt d n (be_tss be) (m_gdt m) (m_tss m) (kmm (mk m))) (\<lambda>(g, tss, s1).
     bindE (acpi_init d n (be_ram be) (be_lit_rsd_ptr be) (be_mb_info be) (m_acpi m, s1, kcon (mk m))) (\<lambda>(_, a, s2, c2).
     bindE (apic_init d n store load (be_msr be) (be_lit_APIC be) a (m_dev m, s2, c2)) (\<lambda>(ap, dev, s3, c3).
       Inr (m\<lparr>m_gdt := g, m_tss := tss, m_acpi := a, m_apic := ap, m_dev := dev, mk := (mk m)\<lparr>kmm := s3, kcon := c3\<rparr>\<rparr>))))"

text \<open>\<open>vfs_init\<close> and \<open>sched_init\<close> return nothing the caller uses.\<close>

definition init_services :: "nat \<Rightarrow> nat \<Rightarrow> boot_env \<Rightarrow> kernel \<Rightarrow> kernel result" where
  "init_services d n be k =
     bindE (tar_init d n (be_ram be) (vm_bytes (kmm k)) (be_mb_info be) (kmm k)) (\<lambda>(hs, s1).
     bindE (vfs_init d n (be_fs_symbols be) (s1, (kfs k)\<lparr>file_headers := hs\<rparr>)) (\<lambda>(_, s2, f2).
     bindE (sched_init d n (be_wrapper be) (be_lit_thread be) (be_idle_main be) (s2, ksched k)) (\<lambda>(s3, sc3).
       exec_elf d n (be_fs_symbols be) (be_wrapper be) (be_lit_thread be) (be_vmm be) (be_ehdr be) (be_phdr be) (be_lit_program be)
         (k\<lparr>kmm := s3, kfs := f2, ksched := sc3\<rparr>))))"

text \<open>The steps up to \<open>hang\<close>, in a build without the unit tests.\<close>

definition kernel_boot ::
  "nat \<Rightarrow> nat \<Rightarrow> (u64 \<Rightarrow> u32 \<Rightarrow> 'd \<Rightarrow> 'd) \<Rightarrow> (u64 \<Rightarrow> 'd \<Rightarrow> u32) \<Rightarrow> boot_env \<Rightarrow> 'd machine \<Rightarrow> 'd machine result" where
  "kernel_boot d n store load be m =
     (let c1 = print_name (console_init (disable_8259 (kcon (mk m))));
          idt = setup_idt (be_isr_stubs be) (m_idt m)
      in bindE (init_memory d n be (m_mb2 m) (kmm (mk m))) (\<lambda>(mb, inital_vmm, s1).
         bindE (init_devices d n store load be
                  (m\<lparr>m_idt := idt, m_idtr := load_idt (be_idt be), m_mb2 := mb, mk := (mk m)\<lparr>kmm := s1, kcon := c1\<rparr>\<rparr>)) (\<lambda>m2.
         bindE (init_services d n be (mk m2)) (\<lambda>k3.
         bindE (printf (map of_char ''The unit tests were not run...'' @ [10]) [] (kcon k3)) (\<lambda>c.
           Inr (m2\<lparr>mk := k3\<lparr>kcon := c\<rparr>\<rparr>))))))"

definition hang :: "'a result" where
  "hang = Inl Hang"

definition kernel_start ::
  "nat \<Rightarrow> nat \<Rightarrow> (u64 \<Rightarrow> u32 \<Rightarrow> 'd \<Rightarrow> 'd) \<Rightarrow> (u64 \<Rightarrow> 'd \<Rightarrow> u32) \<Rightarrow> boot_env \<Rightarrow> 'd machine \<Rightarrow> (int \<times> 'd machine) result" where
  "kernel_start d n store load be m = bindE (kernel_boot d n store load be m) (\<lambda>_. hang)"

end
