(* ===== verification/Unit_tests.thy ===== *)
theory Unit_tests
  imports Kernel
begin

text \<open>
  The tests of kernel/unit_tests.c, which the test build runs after the start, and the report of the memory regions in kernel/mm/mb2_mmap.c. The lemmas say what
  the tests print: whether they show what they are meant to show.
\<close>

definition BLOCK_SIZE :: u64 where "BLOCK_SIZE = 8"

definition assert_true :: "u64 \<Rightarrow> u64 \<Rightarrow> console \<Rightarrow> console" where
  "assert_true arg1 arg2 c = (if arg1 \<noteq> arg2 then printstr (map of_char ''Assert Failed'') c else c)"

section \<open>Console\<close>

definition vga_test1 :: "console \<Rightarrow> console result" where
  "vga_test1 c =
     bindE (printf (map of_char ''%s : %s'') [Arg_str (map of_char ''Hello There!!''), Arg_str (map of_char ''supertitan'')] c) (\<lambda>c1.
       printf (map of_char ''%r'') [Arg_str (map of_char ''Whatever'')] c1)"

definition vga_test2 :: "console \<Rightarrow> console result" where
  "vga_test2 c =
     bindE (printf (map of_char ''Hello, %s'' @ [10]) [Arg_str (map of_char ''supertitan'')] c) (\<lambda>c1.
     bindE (printf (map of_char ''NULL Addr: %lu'' @ [10]) [Arg_long 0] c1) (\<lambda>c2.
       printf (map of_char ''Random Addr: %lu'' @ [10]) [Arg_long 0x123456789] c2))"

definition vga_test3 :: "console \<Rightarrow> console" where
  "vga_test3 = fold (\<lambda>_. printstr (map of_char ''a'')) [0 ..< 90 :: nat]"

definition run_unit_tests :: "console \<Rightarrow> console result" where
  "run_unit_tests = vga_test1"

text \<open>The end of \<open>kernel_start\<close> in the test build.\<close>

definition kernel_start_test :: "console \<Rightarrow> (int \<times> console) result" where
  "kernel_start_test c = bindE (run_unit_tests c) (\<lambda>_. hang)"

definition dump_list :: "mmap_entry_t list \<Rightarrow> console \<Rightarrow> console result" where
  "dump_list = for_each (\<lambda>e. printf (map of_char ''Start Address: %lu; Length : %lu'' @ [10]) [Arg_long (me_addr e), Arg_long (me_len e)])"

text \<open>The array of a list has \<open>MAX_MMAP_ENTRIES\<close> entries; the loop runs over the first \<open>length\<close> of them.\<close>

definition dump_regions :: "mb2_state \<Rightarrow> console \<Rightarrow> console result" where
  "dump_regions st c =
     bindE (printf (map of_char ''Available Regions:'' @ [10]) [] c) (\<lambda>c1.
     bindE (dump_list (take (rl_length (available_entries st)) (rl_entries (available_entries st))) c1) (\<lambda>c2.
     bindE (printf (map of_char ''Reserved Regions:'' @ [10]) [] c2)
       (dump_list (take (rl_length (reserved_entries st)) (rl_entries (reserved_entries st))))))"

section \<open>Memory\<close>

definition print_ptr :: "string \<Rightarrow> u64 \<Rightarrow> console \<Rightarrow> console" where
  "print_ptr label ptr c = printc 10 (printlong ptr (printstr (map of_char label) c))"

definition test_kmalloc :: "nat \<Rightarrow> nat \<Rightarrow> mm \<times> console \<Rightarrow> (mm \<times> console) result" where
  "test_kmalloc d n st =
     bindE (kalloc d n BLOCK_SIZE (fst st)) (\<lambda>(ptr, s1). let c1 = print_ptr ''First ptr:'' ptr (snd st) in
     bindE (kalloc d n BLOCK_SIZE s1) (\<lambda>(second_ptr, s2). let c2 = print_ptr ''Second ptr:'' second_ptr c1 in
     bindE (kfree (fst s2) ptr) (\<lambda>h3.
     bindE (kalloc d n BLOCK_SIZE (h3, snd s2)) (\<lambda>(ptr, s4). Inr (s4, print_ptr ''Third ptr:'' ptr c2)))))"

definition test_kmalloc2 :: "nat \<Rightarrow> nat \<Rightarrow> mm \<times> console \<Rightarrow> (mm \<times> console) result" where
  "test_kmalloc2 d n st =
     bindE (kalloc d n BLOCK_SIZE (fst st)) (\<lambda>(ptr, s1). let c1 = print_ptr ''First ptr:'' ptr (snd st) in
     bindE (kalloc d n BLOCK_SIZE s1) (\<lambda>(second_ptr, s2). let c2 = print_ptr ''Second ptr:'' second_ptr c1 in
     bindE (kalloc d n BLOCK_SIZE s2) (\<lambda>(third_ptr, s3). let c3 = print_ptr ''Third ptr:'' third_ptr c2 in
     bindE (kfree (fst s3) ptr) (\<lambda>h4.
     bindE (kfree h4 second_ptr) (\<lambda>h5.
     bindE (kalloc d n (BLOCK_SIZE + 9) (h5, snd s3)) (\<lambda>(ptr, s6). Inr (s6, print_ptr ''Fourth ptr:'' ptr c3)))))))"

definition print_page :: "nat \<Rightarrow> pmm \<times> console \<Rightarrow> (pmm \<times> console) result" where
  "print_page i st = bindE (pmm_alloc_page (fst st)) (\<lambda>(p, m). Inr (m, printc 10 (printlong p (snd st))))"

text \<open>\<open>pmm_init\<close> takes no argument; the test passes one. \<open>init\<close> is \<open>pmm_init\<close> with its surroundings.\<close>

definition test_pmm_alloc_page :: "(pmm \<Rightarrow> pmm result) \<Rightarrow> pmm \<times> console \<Rightarrow> (pmm \<times> console) result" where
  "test_pmm_alloc_page init st =
     bindE (init (fst st)) (\<lambda>m0.
     bindE (pmm_alloc_specific_page m0 0) (\<lambda>(_, m1). let c1 = print_ptr ''First Page Alloc:'' 0 (snd st) in
     bindE (pmm_alloc_page m1) (\<lambda>(second_ptr, m2). let c2 = print_ptr ''Second Page Alloc:'' second_ptr c1 in
     bindE (pmm_alloc_page m2) (\<lambda>(third_ptr, m3). for_each print_page [0 ..< 20] (m3, print_ptr ''Third Page Alloc:'' third_ptr c2)))))"

definition test_vmm_alloc :: "nat \<Rightarrow> nat \<Rightarrow> u64 \<Rightarrow> (u64 \<times> u64) list \<Rightarrow> mm \<times> console \<Rightarrow> (mm \<times> console) result" where
  "test_vmm_alloc d n kernel_size boot_tables st =
     bindE (vmm_init d n kernel_size boot_tables (fst st)) (\<lambda>(_, s1).
     bindE (vmm_alloc d n 0 0x1000 VM_FLAG_MMIO 0xb8000 s1) (\<lambda>(test_ptr, s2).
       if test_ptr = 0 then Inr (s2, printstr (map of_char ''Test failed'') (snd st))
       else Inr (set_bytes ((vm_bytes s2)(test_ptr := 0x48)) s2, snd st)))"

section \<open>Blocks\<close>

text \<open>A call of the allocator on a heap given by its blocks.\<close>

lemma kalloc_blocks:
  assumes "heap_rep h bs" and "no_growth (vmm_lengthen d n) e" and "5 \<le> unat sz" and "length bs < n" and "kmalloc_abs (unat sz) 0 bs = Some (p, bs')"
  shows "\<exists>h'. kalloc d n sz (h, e) = Inr (haddr (p + 5), h', e) \<and> heap_rep h' bs'"
  using kmalloc_refines [OF assms(1-4)] assms(5) by (auto simp: kalloc_def)

lemma kfree_blocks:
  assumes "heap_rep h (pre @ (u, s) # post)" and "k = blocks_len pre"
  shows "\<exists>h'. kfree h (haddr (k + 5)) = Inr h' \<and> heap_rep h' (pre @ (False, s) # post)"
  using kfree_block [OF assms(1)] unfolding assms(2) by blast

text \<open>The two allocations with which both tests start.\<close>

lemma two_blocks:
  assumes "heap_rep (fst s) [(False, free)]" and "no_growth (vmm_lengthen d n) (snd s)" and "31 < free" and "3 < n"
  obtains h1 h2 where "kalloc d n BLOCK_SIZE s = Inr (haddr 5, h1, snd s)" and "kalloc d n BLOCK_SIZE (h1, snd s) = Inr (haddr 18, h2, snd s)"
    and "heap_rep h2 [(True, 8), (True, 8), (False, free - 26)]"
proof -
  have sz: "unat BLOCK_SIZE = 8" by (simp add: BLOCK_SIZE_def)
  have "kmalloc_abs 8 0 [(False, free)] = Some (0, [(True, 8), (False, free - 13)])" using assms(3) by simp
  with kalloc_blocks [OF assms(1,2), of BLOCK_SIZE] assms(4) obtain h1
    where 1: "kalloc d n BLOCK_SIZE s = Inr (haddr 5, h1, snd s)" "heap_rep h1 [(True, 8), (False, free - 13)]"
    by (fastforce simp: sz)
  have "kmalloc_abs 8 0 [(True, 8), (False, free - 13)] = Some (13, [(True, 8), (True, 8), (False, free - 26)])" using assms(3) by simp
  with kalloc_blocks [OF 1(2) assms(2), of BLOCK_SIZE] assms(4) obtain h2
    where "kalloc d n BLOCK_SIZE (h1, snd s) = Inr (haddr 18, h2, snd s)" "heap_rep h2 [(True, 8), (True, 8), (False, free - 26)]"
    by (fastforce simp: sz)
  with 1(1) show ?thesis using that by blast
qed

section \<open>Properties\<close>

text \<open>
  The first test of the heap shows that a freed block is used again: on a heap that is one free block, the test returns and prints the same address for
  its first and third pointer, and the address 13 bytes behind it for the second.\<close>

theorem test_kmalloc_reuses:
  assumes "heap_rep (fst s) [(False, free)]" and "no_growth (vmm_lengthen d n) (snd s)" and "31 < free" and "3 < n"
  shows "\<exists>s'. test_kmalloc d n (s, c) =
    Inr (s', print_ptr ''Third ptr:'' (haddr 5) (print_ptr ''Second ptr:'' (haddr 18) (print_ptr ''First ptr:'' (haddr 5) c)))"
proof -
  have sz: "unat BLOCK_SIZE = 8" by (simp add: BLOCK_SIZE_def)
  obtain h1 h2 where 2: "kalloc d n BLOCK_SIZE s = Inr (haddr 5, h1, snd s)" "kalloc d n BLOCK_SIZE (h1, snd s) = Inr (haddr 18, h2, snd s)"
      "heap_rep h2 [(True, 8), (True, 8), (False, free - 26)]"
    by (rule two_blocks [OF assms])
  obtain h3 where 3: "kfree h2 (haddr 5) = Inr h3" "heap_rep h3 [(False, 8), (True, 8), (False, free - 26)]"
    using kfree_blocks [of h2 "[]" True 8 "[(True, 8), (False, free - 26)]" 0] 2(3) by auto
  obtain h4 where "kalloc d n BLOCK_SIZE (h3, snd s) = Inr (haddr 5, h4, snd s)"
    using kalloc_blocks [OF 3(2) assms(2), of BLOCK_SIZE 0] assms(4) by (auto simp: sz)
  with 2 3(1) show ?thesis by (simp add: test_kmalloc_def)
qed

text \<open>
  The second test of the heap runs into the overlap of merged blocks. On a heap that is one free block, the test returns and its fourth pointer, to an object of 17 bytes made from two freed
  blocks, is the first one again, as the test means to show. But the header of the object says 8 bytes: the next request of 8 bytes is served 13 bytes
  behind the start of the object, inside it.\<close>

theorem test_kmalloc2_overlap:
  assumes "heap_rep (fst s) [(False, free)]" and "no_growth (vmm_lengthen d n) (snd s)" and "44 < free" and "4 < n"
  shows "\<exists>s' s''. test_kmalloc2 d n (s, c) = Inr (s', print_ptr ''Fourth ptr:'' (haddr 5) (print_ptr ''Third ptr:'' (haddr 31)
      (print_ptr ''Second ptr:'' (haddr 18) (print_ptr ''First ptr:'' (haddr 5) c)))) \<and>
    kalloc d n BLOCK_SIZE s' = Inr (haddr 18, s'') \<and> 5 < (18 :: nat) \<and> 18 < 5 + unat (BLOCK_SIZE + 9)"
proof -
  have sz: "unat BLOCK_SIZE = 8" "unat (BLOCK_SIZE + 9) = 17" by (simp_all add: BLOCK_SIZE_def)
  obtain h1 h2 where 2: "kalloc d n BLOCK_SIZE s = Inr (haddr 5, h1, snd s)" "kalloc d n BLOCK_SIZE (h1, snd s) = Inr (haddr 18, h2, snd s)"
      "heap_rep h2 [(True, 8), (True, 8), (False, free - 26)]"
    by (rule two_blocks [OF assms(1,2)]) (use assms(3,4) in simp_all)
  have "kmalloc_abs 8 0 [(True, 8), (True, 8), (False, free - 26)] = Some (26, [(True, 8), (True, 8), (True, 8), (False, free - 39)])"
    using assms(3) by simp
  with kalloc_blocks [OF 2(3) assms(2), of BLOCK_SIZE] assms(4) obtain h3
    where 3: "kalloc d n BLOCK_SIZE (h2, snd s) = Inr (haddr 31, h3, snd s)" "heap_rep h3 [(True, 8), (True, 8), (True, 8), (False, free - 39)]"
    by (fastforce simp: sz)
  obtain h4 where 4: "kfree h3 (haddr 5) = Inr h4" "heap_rep h4 [(False, 8), (True, 8), (True, 8), (False, free - 39)]"
    using kfree_blocks [of h3 "[]" True 8 "[(True, 8), (True, 8), (False, free - 39)]" 0] 3(2) by auto
  obtain h5 where 5: "kfree h4 (haddr 18) = Inr h5" "heap_rep h5 [(False, 8), (False, 8), (True, 8), (False, free - 39)]"
    using kfree_blocks [of h4 "[(False, 8)]" True 8 "[(True, 8), (False, free - 39)]" 13] 4(2) by auto
  obtain h6 where 6: "kalloc d n (BLOCK_SIZE + 9) (h5, snd s) = Inr (haddr 5, h6, snd s)" "heap_rep h6 [(True, 8), (False, 8), (True, 8), (False, free - 39)]"
    using kalloc_blocks [OF 5(2) assms(2), of "BLOCK_SIZE + 9" 0] assms(4) by (auto simp: sz)
  obtain h7 where 7: "kalloc d n BLOCK_SIZE (h6, snd s) = Inr (haddr 18, h7, snd s)"
    using kalloc_blocks [OF 6(2) assms(2), of BLOCK_SIZE 13] assms(4) by (auto simp: sz)
  show ?thesis using 2(1,2) 3(1) 4(1) 5(1) 6(1) 7 by (simp add: test_kmalloc2_def sz)
qed

text \<open>
  The test build stops inside its tests: on any usable console the tests that \<open>run_unit_tests\<close> runs reach a format that \<open>printf\<close> does not know and never return.\<close>

theorem unit_tests_never_return:
  assumes "console_wf c" and "\<not> locked (printf_lock c)"
  shows "run_unit_tests c = Inl Hang"
proof -
  have "expand (takeWhile (\<lambda>b. b \<noteq> 0) (map of_char ''%s : %s'')) [Arg_str (map of_char ''Hello There!!''), Arg_str (map of_char ''supertitan'')] =
      Inr (map of_char ''Hello There!! : supertitan'')"
    by simp
  with printf_terminal [OF assms, of "map of_char ''%s : %s''" "[Arg_str (map of_char ''Hello There!!''), Arg_str (map of_char ''supertitan'')]"]
  obtain c1 where c1: "printf (map of_char ''%s : %s'') [Arg_str (map of_char ''Hello There!!''), Arg_str (map of_char ''supertitan'')] c = Inr c1"
      "console_wf c1" "\<not> locked (printf_lock c1)"
    by auto
  have "printf (map of_char ''%r'') [Arg_str (map of_char ''Whatever'')] c1 = Inl Hang"
    using printf_terminal [OF c1(2,3), of "map of_char ''%r''" "[Arg_str (map of_char ''Whatever'')]"] by simp
  with c1(1) show ?thesis unfolding run_unit_tests_def vga_test1_def by simp
qed


theorem test_kmalloc_reuses_witness:
  "\<exists>s'. test_kmalloc 0 7 (flat_mm, blank_console) =
    Inr (s', print_ptr ''Third ptr:'' (haddr 5) (print_ptr ''Second ptr:'' (haddr 18) (print_ptr ''First ptr:'' (haddr 5) blank_console)))"
  using test_kmalloc_reuses [of flat_mm 4091 0 7 blank_console] fresh_heap_rep flat_no_growth by (simp add: flat_mm_def example_mm_def)

theorem test_kmalloc2_overlap_witness:
  "\<exists>s' s''. test_kmalloc2 0 7 (flat_mm, blank_console) = Inr (s', print_ptr ''Fourth ptr:'' (haddr 5) (print_ptr ''Third ptr:'' (haddr 31)
      (print_ptr ''Second ptr:'' (haddr 18) (print_ptr ''First ptr:'' (haddr 5) blank_console)))) \<and> kalloc 0 7 BLOCK_SIZE s' = Inr (haddr 18, s'')"
  using test_kmalloc2_overlap [of flat_mm 4091 0 7 blank_console] fresh_heap_rep flat_no_growth by (auto simp: flat_mm_def example_mm_def)

theorem unit_tests_never_return_witness: "run_unit_tests blank_console = Inl Hang"
  by (rule unit_tests_never_return) (use blank_console_wf in \<open>simp_all add: blank_console_def\<close>)

end
